(* ===== verification/Prelude.thy ===== *)
theory Prelude
  imports Main "HOL-Library.Word" "HOL-Library.Monad_Syntax"
begin

text \<open>
  What every component of the development shares: the collections of rewrite rules,
  checked access to a Go slice (\<open>nth_opt\<close>, \<open>upd_opt\<close>: \<open>None\<close> is an access outside the
  slice, which the code performs through \<open>unsafe\<close> pointers and Go would not detect), the
  result of a loop run with fuel, and generic facts on words and lists.
\<close>

unbundle bit_operations_syntax

named_theorems header_simps \<open>reading a header after it was written\<close>
named_theorems link_simps \<open>reading a link descriptor after it was written\<close>
named_theorems index_simps \<open>reading an index after it was written\<close>
named_theorems bucket_defs \<open>definitions of the bucket accessors\<close>

section \<open>Slices\<close>

definition nth_opt :: "'a list \<Rightarrow> nat \<Rightarrow> 'a option" where
  "nth_opt xs i = (if i < length xs then Some (xs ! i) else None)"

definition upd_opt :: "'a list \<Rightarrow> nat \<Rightarrow> 'a \<Rightarrow> 'a list option" where
  "upd_opt xs i x = (if i < length xs then Some (xs[i := x]) else None)"

lemma nth_opt_in [simp]: "i < length xs \<Longrightarrow> nth_opt xs i = Some (xs ! i)"
  by (simp add: nth_opt_def)

lemma nth_opt_out [simp]: "\<not> i < length xs \<Longrightarrow> nth_opt xs i = None"
  by (simp add: nth_opt_def)

lemma nth_opt_Some: "nth_opt xs i = Some x \<longleftrightarrow> i < length xs \<and> xs ! i = x"
  by (auto simp: nth_opt_def)

lemma upd_opt_in [simp]: "i < length xs \<Longrightarrow> upd_opt xs i x = Some (xs[i := x])"
  by (simp add: upd_opt_def)

lemma upd_opt_Some: "upd_opt xs i x = Some ys \<longleftrightarrow> i < length xs \<and> ys = xs[i := x]"
  by (auto simp: upd_opt_def)

section \<open>Loops run with fuel\<close>

text \<open>
  A \<open>for\<close> loop or a \<open>goto retry\<close> of the code is run with a bound on its iterations:
  \<open>Returned\<close> is the value the code returns, \<open>Spinning\<close> says that the bound was reached
  first. A fault (a nil dereference, an access outside a slice) is \<open>None\<close> around it, so
  the two are never confused.
\<close>

datatype 'r run = Returned 'r | Spinning

text \<open>
  One round of such a loop either returns (\<open>Ret\<close>), goes back to its label with the index
  generation to use from there (\<open>Goto\<close>), or is stuck in a loop of its own (\<open>Spin\<close>).
\<close>

datatype 'r ctl = Ret 'r | Goto nat | Spin

fun retryLoop ::
  "nat \<Rightarrow> (nat \<Rightarrow> 's \<Rightarrow> ('r ctl \<times> 's) option) \<Rightarrow> nat \<Rightarrow> 's \<Rightarrow> ('r run \<times> 's) option" where
  "retryLoop 0 body idx s = Some (Spinning, s)"
| "retryLoop (Suc n) body idx s = do {
     (c, s') \<leftarrow> body idx s;
     (case c of
        Ret r \<Rightarrow> Some (Returned r, s')
      | Goto idx' \<Rightarrow> retryLoop n body idx' s'
      | Spin \<Rightarrow> Some (Spinning, s')) }"

text \<open>A loop that only reads the state.\<close>

fun retryRead :: "nat \<Rightarrow> (nat \<Rightarrow> 'r ctl option) \<Rightarrow> nat \<Rightarrow> 'r run option" where
  "retryRead 0 body idx = Some Spinning"
| "retryRead (Suc n) body idx = do {
     c \<leftarrow> body idx;
     (case c of
        Ret r \<Rightarrow> Some (Returned r)
      | Goto idx' \<Rightarrow> retryRead n body idx'
      | Spin \<Rightarrow> Some Spinning) }"

lemma retryLoop_Ret:
  "0 < n \<Longrightarrow> body idx s = Some (Ret r, s') \<Longrightarrow> retryLoop n body idx s = Some (Returned r, s')"
  by (cases n) simp_all

lemma retryLoop_Goto:
  "0 < n \<Longrightarrow> body idx s = Some (Goto idx', s') \<Longrightarrow>
     retryLoop n body idx s = retryLoop (n - 1) body idx' s'"
  by (cases n) simp_all

lemma retryRead_Ret:
  "0 < n \<Longrightarrow> body idx = Some (Ret r) \<Longrightarrow> retryRead n body idx = Some (Returned r)"
  by (cases n) simp_all

lemma retryRead_Goto:
  "0 < n \<Longrightarrow> body idx = Some (Goto idx') \<Longrightarrow> retryRead n body idx = retryRead (n - 1) body idx'"
  by (cases n) simp_all

text \<open>A \<open>for\<close> loop over a list of values, each iteration a step of the state that may fault.\<close>

fun forEach :: "('a \<Rightarrow> 's \<Rightarrow> 's option) \<Rightarrow> 'a list \<Rightarrow> 's \<Rightarrow> 's option" where
  "forEach f [] s = Some s"
| "forEach f (x # xs) s = do { s' \<leftarrow> f x s; forEach f xs s' }"

lemma forEach_append: "forEach f (xs @ ys) s = do { s' \<leftarrow> forEach f xs s; forEach f ys s' }"
  by (induction xs arbitrary: s) (auto split: bind_split)

lemma forEach_map: "forEach f (map g xs) s = forEach (\<lambda>x. f (g x)) xs s"
  by (induction xs arbitrary: s) (auto split: bind_split)

lemma forEach_cong:
  "(\<And>x s. x \<in> set xs \<Longrightarrow> f x s = g x s) \<Longrightarrow> forEach f xs s = forEach g xs s"
  by (induction xs arbitrary: s) (auto split: bind_split)

text \<open>A walk along a chain of generations, up to the one where the loop returns.\<close>

lemma retryLoop_chain:
  assumes "\<And>i. i < n \<Longrightarrow> body i s = Some (Goto (Suc i), s)" "i \<le> n"
  shows "retryLoop (n - i + fuel) body i s = retryLoop fuel body n s"
  using assms(2)
proof (induction "n - i" arbitrary: i)
  case 0
  then show ?case by simp
next
  case (Suc d)
  then have "i < n" "d = n - Suc i" "Suc i \<le> n" "n - i = Suc (n - Suc i)" by auto
  with Suc(1) [of "Suc i"] assms(1) show ?case by simp
qed

lemma retryRead_chain:
  assumes "\<And>i. i < n \<Longrightarrow> body i = Some (Goto (Suc i))" "i \<le> n"
  shows "retryRead (n - i + fuel) body i = retryRead fuel body n"
  using assms(2)
proof (induction "n - i" arbitrary: i)
  case 0
  then show ?case by simp
next
  case (Suc d)
  then have "i < n" "d = n - Suc i" "Suc i \<le> n" "n - i = Suc (n - Suc i)" by auto
  with Suc(1) [of "Suc i"] assms(1) show ?case by simp
qed

section \<open>Words\<close>

lemma unat_inject [simp]: "unat (a :: 'a::len word) = unat b \<longleftrightarrow> a = b"
  by (simp add: word_unat_eq_iff)

lemma bit_add_exp_below_int:
  fixes x :: int
  assumes "i < n"
  shows "bit (x + 2 ^ n) i = bit x i"
proof -
  from assms have "(2::int) ^ n = 2 ^ (n - i) * 2 ^ i"
    by (simp flip: power_add)
  then have "(x + 2 ^ n) div 2 ^ i = x div 2 ^ i + 2 ^ (n - i)"
    by simp
  with assms show ?thesis
    by (simp add: bit_iff_odd)
qed

lemma bit_add_exp_below:
  fixes x :: "'a::len word"
  assumes "i < n"
  shows "bit (x + push_bit n 1) i = bit x i"
  using assms by transfer (simp add: bit_add_exp_below_int push_bit_eq_mult)

lemma word_minus_one_less: "(x :: 'a::len word) \<noteq> 0 \<Longrightarrow> x - 1 < x"
  by (simp add: word_less_nat_alt unat_minus_one unat_gt_0)

lemma word_clear_lowest_less: "(x :: 'a::len word) \<noteq> 0 \<Longrightarrow> x AND (x - 1) < x"
  using word_and_le1 [of x "x - 1"] word_minus_one_less [of x] by simp

lemma ucast_drop_add_exp:
  fixes x :: "64 word"
  shows "(ucast (drop_bit 32 (x + push_bit 32 1)) :: 32 word) = ucast (drop_bit 32 x) + 1"
proof -
  have e: "push_bit 32 (1::64 word) = 2 ^ 32" by (simp add: push_bit_eq_mult)
  have "unat (drop_bit 32 (x + 2 ^ 32)) = ((unat x + 2 ^ 32) mod 2 ^ 64) div 2 ^ 32"
    by (simp add: drop_bit_eq_div unat_word_ariths unat_drop_bit_eq)
  also have "\<dots> = (unat x div 2 ^ 32 + 1) mod 2 ^ 32"
    by (simp add: mod_mult2_eq [of "unat x + 4294967296" "2 ^ 32" "2 ^ 32", simplified]
        div_add_self2)
  finally have 1: "unat (drop_bit 32 (x + 2 ^ 32)) = (unat x div 2 ^ 32 + 1) mod 2 ^ 32" .
  have "unat x div 2 ^ 32 < 2 ^ 64"
    using unsigned_less [of x, where ?'a = nat] by (simp add: less_mult_imp_div_less)
  with 1 show ?thesis unfolding e
    by (simp add: word_unat_eq_iff unsigned_ucast_eq unat_word_ariths unat_drop_bit_eq
        drop_bit_eq_div take_bit_eq_mod mod_simps)
qed

end
