(* ===== verification/GoBits.thy ===== *)
theory GoBits
  imports Prelude
begin

text \<open>
  The functions of Go's package \<open>math/bits\<close> that the code calls, and the loop the code
  writes over a \<^emph>\<open>spread bitmap\<close>: a 32-bit word in which bit \<open>2 * i\<close> speaks of slot \<open>i\<close>.
  The loop \<open>for bm != 0 { i := TrailingZeros32(bm) >> 1; ...; bm &= bm - 1 }\<close> is
  \<open>scanBits\<close>; on a spread bitmap it visits the set positions in increasing order.
\<close>

definition TrailingZeros32 :: "32 word \<Rightarrow> nat" where
  "TrailingZeros32 w = length (takeWhile (\<lambda>i. \<not> bit w i) [0..<32])"

definition TrailingZeros64 :: "64 word \<Rightarrow> nat" where
  "TrailingZeros64 w = length (takeWhile (\<lambda>i. \<not> bit w i) [0..<64])"

definition LeadingZeros64 :: "64 word \<Rightarrow> nat" where
  "LeadingZeros64 w = length (takeWhile (\<lambda>i. \<not> bit w (63 - i)) [0..<64])"

definition OnesCount32 :: "32 word \<Rightarrow> nat" where
  "OnesCount32 w = length (filter (bit w) [0..<32])"

definition b2u32 :: "bool \<Rightarrow> 32 word" where
  "b2u32 b = (if b then 1 else 0)"

text \<open>
  The body of the loop may fault (outer \<open>None\<close>), leave the loop with a result
  (\<open>Some (Some r)\<close>) or go on to the next match (\<open>Some None\<close>).
\<close>

function scanBits :: "(int \<Rightarrow> 'r option option) \<Rightarrow> 32 word \<Rightarrow> 'r option option" where
  "scanBits f bm =
     (if bm = 0 then Some None
      else do {
        r \<leftarrow> f (int (TrailingZeros32 bm div 2));
        (case r of Some x \<Rightarrow> Some (Some x) | None \<Rightarrow> scanBits f (bm AND (bm - 1)))
      })"
  by pat_completeness auto
termination
  by (relation "measure (\<lambda>(f, bm). unat bm)")
     (auto simp: word_less_nat_alt [symmetric] intro: word_clear_lowest_less)

declare scanBits.simps [simp del]

text \<open>Spread bitmaps, written with one bool per slot.\<close>

fun spread :: "bool list \<Rightarrow> 32 word" where
  "spread [] = 0"
| "spread (b # bs) = of_bool b OR push_bit 2 (spread bs)"

lemma bit_spread:
  "bit (spread bs) n \<longleftrightarrow> n < 32 \<and> even n \<and> n div 2 < length bs \<and> bs ! (n div 2)"
proof (induction bs arbitrary: n)
  case Nil
  then show ?case by simp
next
  case (Cons b bs)
  show ?case
  proof (cases "n < 2")
    case True
    then have "n = 0 \<or> n = 1" by arith
    then show ?thesis by (auto simp: bit_simps)
  next
    case False
    then have n: "n = (n - 2) + 2" by arith
    then have "n div 2 = Suc ((n - 2) div 2)" by presburger
    moreover from False have "even n \<longleftrightarrow> even (n - 2)" by presburger
    ultimately show ?thesis using False
      by (auto simp: bit_simps Cons.IH)
  qed
qed

text \<open>The first slot of a list of candidate slots whose body leaves the loop.\<close>

fun firstOf :: "(int \<Rightarrow> 'r option option) \<Rightarrow> int list \<Rightarrow> 'r option option" where
  "firstOf f [] = Some None"
| "firstOf f (i # is) =
     do { r \<leftarrow> f i; (case r of Some x \<Rightarrow> Some (Some x) | None \<Rightarrow> firstOf f is) }"

definition candidates :: "bool list \<Rightarrow> int list" where
  "candidates bs = map (int \<circ> fst) (filter snd (enumerate 0 bs))"

lemma scanBits_spread4:
  "scanBits f (spread [a, b, c, d]) = firstOf f (candidates [a, b, c, d])"
  by (cases a; cases b; cases c; cases d;
      simp add: scanBits.simps [of f] TrailingZeros32_def upt_rec candidates_def
        split: option.splits)

lemma scanBits_spread3:
  "scanBits f (spread [a, b, c]) = firstOf f (candidates [a, b, c])"
  using scanBits_spread4 [of f a b c False] by (simp add: candidates_def)

lemma trailing_spread4:
  "a \<or> b \<or> c \<or> d \<Longrightarrow> TrailingZeros32 (spread [a, b, c, d]) div 2 =
     (if a then 0 else if b then 1 else if c then 2 else 3)"
  by (cases a; cases b; cases c; cases d; simp add: TrailingZeros32_def upt_rec)

lemma trailing_spread3:
  "a \<or> b \<or> c \<Longrightarrow> TrailingZeros32 (spread [a, b, c]) div 2 =
     (if a then 0 else if b then 1 else 2)"
  using trailing_spread4 [of a b c False] by (cases c) auto

lemma spread4_eq_0: "spread [a, b, c, d] = 0 \<longleftrightarrow> \<not> a \<and> \<not> b \<and> \<not> c \<and> \<not> d"
  by (cases a; cases b; cases c; cases d; simp)

lemma spread3_eq_0: "spread [a, b, c] = 0 \<longleftrightarrow> \<not> a \<and> \<not> b \<and> \<not> c"
  by (cases a; cases b; cases c; simp)


lemma candidates_filter3: "candidates [p 0, p 1, p 2] = map int (filter p [0, 1, 2])"
  by (simp add: candidates_def)

lemma candidates_filter4: "candidates [p 0, p 1, p 2, p 3] = map int (filter p [0, 1, 2, 3])"
  by (simp add: candidates_def)

section \<open>The loop that visits every bit\<close>

text \<open>\<open>for vm != 0 { slotIdx := bits.TrailingZeros32(vm) >> 1; ...; vm &= vm - 1 }\<close>\<close>

function forBits :: "(int \<Rightarrow> 's \<Rightarrow> 's option) \<Rightarrow> 32 word \<Rightarrow> 's \<Rightarrow> 's option" where
  "forBits f vm s =
     (if vm = 0 then Some s
      else do { s' \<leftarrow> f (int (TrailingZeros32 vm div 2)) s; forBits f (vm AND (vm - 1)) s' })"
  by pat_completeness auto
termination
  by (relation "measure (\<lambda>(f, vm, s). unat vm)")
     (auto simp: word_less_nat_alt [symmetric] intro: word_clear_lowest_less)

declare forBits.simps [simp del]

lemma forBits_spread4:
  "forBits f (spread [a, b, c, d]) s = forEach f (candidates [a, b, c, d]) s"
  by (cases a; cases b; cases c; cases d;
      simp add: forBits.simps [of f] TrailingZeros32_def upt_rec candidates_def
        split: bind_split)

lemma forBits_spread3: "forBits f (spread [a, b, c]) s = forEach f (candidates [a, b, c]) s"
  using forBits_spread4 [of f a b c False s] by (simp add: candidates_def)

end
