(* ===== verification/BucketHeader.thy ===== *)
theory BucketHeader
  imports GoBits
begin

text \<open>
  The 64-bit header of a primary bucket (allocator/header.go; inline/header.go is the same
  code): bits 63..32 a version, bits 31..30 the transfer state of the bin, bits 29..0 the
  states of the fifteen slots, two bits each. The definitions are the source's bit
  expressions; the lemmas read them back as three independent fields and turn the four
  mask functions into spread bitmaps over the slot states.
\<close>

type_synonym Header = "64 word"

definition BinNoTransfer :: "8 word" where [simp]: "BinNoTransfer = 0"
definition BinInTransfer :: "8 word" where [simp]: "BinInTransfer = 1"
definition BinDoneTransfer :: "8 word" where [simp]: "BinDoneTransfer = 2"

definition SlotInvalid :: "8 word" where [simp]: "SlotInvalid = 0"
definition SlotTrying :: "8 word" where [simp]: "SlotTrying = 1"
definition SlotValid :: "8 word" where [simp]: "SlotValid = 2"

definition PRIMARY_SLOTS :: int where [simp]: "PRIMARY_SLOTS = 3"
definition LINK_SLOTS :: int where [simp]: "LINK_SLOTS = 4"
definition MAX_LINKS :: int where [simp]: "MAX_LINKS = 3"
definition MAX_SLOTS_PER_BIN :: int where
  "MAX_SLOTS_PER_BIN = PRIMARY_SLOTS + MAX_LINKS * LINK_SLOTS"

definition versionShift :: nat where [simp]: "versionShift = 32"
definition binStateShift :: nat where [simp]: "binStateShift = 30"
definition binStateMask :: "64 word" where "binStateMask = push_bit binStateShift 0x3"
definition slotStatesMask :: "64 word" where "slotStatesMask = push_bit 30 1 - 1"

definition getBinState :: "Header \<Rightarrow> 8 word" where
  "getBinState h = ucast (drop_bit binStateShift (h AND binStateMask))"

definition getSlotStates :: "Header \<Rightarrow> 32 word" where
  "getSlotStates h = ucast (h AND slotStatesMask)"

text \<open>
  Go's \<open>int\<close> slot index is an \<open>int\<close> here; \<open>uint(slotIdx*2) & 63\<close> is the double of it
  modulo 64.
\<close>

definition slotShift :: "int \<Rightarrow> nat" where
  "slotShift slotIdx = nat ((slotIdx * 2) mod 64)"

definition getSlotState :: "Header \<Rightarrow> int \<Rightarrow> 8 word" where
  "getSlotState h slotIdx = ucast (drop_bit (slotShift slotIdx) (getSlotStates h) AND 0x3)"

definition setBinState :: "Header \<Rightarrow> 8 word \<Rightarrow> Header" where
  "setBinState h binState =
     (h AND NOT binStateMask) OR push_bit binStateShift (ucast (binState AND 0x3))"

definition setSlotStateAndVersion :: "Header \<Rightarrow> int \<Rightarrow> 8 word \<Rightarrow> Header" where
  "setSlotStateAndVersion h slotIdx state =
     (let shift = slotShift slotIdx;
          msk = push_bit shift 0x3;
          val = push_bit shift (ucast (state AND 0x3));
          raw = (h AND NOT msk) OR val
      in raw + push_bit versionShift 1)"

definition validMask3 :: "Header \<Rightarrow> 32 word" where
  "validMask3 h = drop_bit 1 (ucast h) AND 0x15"

definition validMask4 :: "Header \<Rightarrow> nat \<Rightarrow> 32 word" where
  "validMask4 h base = drop_bit (push_bit 1 base + 1) (ucast h) AND 0x55"

definition invalidMask3 :: "Header \<Rightarrow> 32 word" where
  "invalidMask3 h = (let s = ucast h AND 0x3F in NOT (s OR drop_bit 1 s) AND 0x15)"

definition invalidMask4 :: "Header \<Rightarrow> nat \<Rightarrow> 32 word" where
  "invalidMask4 h base =
     (let s = drop_bit (push_bit 1 base) (ucast h) AND 0xFF in NOT (s OR drop_bit 1 s) AND 0x55)"

text \<open>The version field, which the code only ever increments and compares as part of the word.\<close>

definition version :: "Header \<Rightarrow> 32 word" where
  "version h = ucast (drop_bit versionShift h)"

section \<open>The fields, bit by bit\<close>

text \<open>
  \<open>stHi h i\<close> and \<open>stLo h i\<close> are the two bits of slot \<open>i\<close>'s state; a slot is valid when
  they are 10 and invalid when they are 00.
\<close>

abbreviation stHi :: "Header \<Rightarrow> nat \<Rightarrow> bool" where "stHi h i \<equiv> bit h (Suc (2 * i))"
abbreviation stLo :: "Header \<Rightarrow> nat \<Rightarrow> bool" where "stLo h i \<equiv> bit h (2 * i)"

lemma slotShift_nat [simp]: "i < 15 \<Longrightarrow> slotShift (int i) = 2 * i"
  by (simp add: slotShift_def)

lemma bit_3:
  "bit (3 :: 'a::len word) n \<longleftrightarrow> n < LENGTH('a) \<and> n < 2"
  "bit (3 :: int) n \<longleftrightarrow> n < 2"
  "bit (3 :: nat) n \<longleftrightarrow> n < 2"
proof -
  have eq: "(3 :: 'a word) = Bit_Operations.mask 2" "(3 :: int) = Bit_Operations.mask 2"
    "(3 :: nat) = Bit_Operations.mask 2"
    by (simp_all add: mask_eq_exp_minus_1)
  show "bit (3 :: 'a::len word) n \<longleftrightarrow> n < LENGTH('a) \<and> n < 2"
    "bit (3 :: int) n \<longleftrightarrow> n < 2" "bit (3 :: nat) n \<longleftrightarrow> n < 2"
    unfolding eq by (auto simp: bit_mask_iff)
qed

lemma slotStatesMask_eq: "slotStatesMask = Bit_Operations.mask 30"
  by (simp add: slotStatesMask_def mask_eq_exp_minus_1)

lemma bit_binStateMask: "bit binStateMask n \<longleftrightarrow> n = 30 \<or> n = 31"
  by (auto simp: binStateMask_def bit_push_bit_iff bit_3 simp del: push_bit_numeral)

lemma getSlotState_bits:
  assumes "i < 15"
  shows "bit (getSlotState h (int i)) n \<longleftrightarrow> n < 2 \<and> bit h (2 * i + n)"
  using assms
  by (auto simp: getSlotState_def getSlotStates_def bit_simps bit_3 slotStatesMask_eq)

lemma getBinState_bits: "bit (getBinState h) n \<longleftrightarrow> n < 2 \<and> bit h (30 + n)"
  by (auto simp: getBinState_def bit_simps bit_binStateMask)

lemma two_bit_word_cases:
  fixes w :: "8 word"
  assumes "\<And>n. bit w n \<Longrightarrow> n < 2"
  shows "w = of_bool (bit w 0) + 2 * of_bool (bit w 1)"
proof -
  have "w = of_bool (bit w 0) OR push_bit 1 (of_bool (bit w 1))"
  proof (rule bit_word_eqI)
    fix n assume "n < LENGTH(8)"
    show "bit w n = bit (of_bool (bit w 0) OR push_bit 1 (of_bool (bit w 1)) :: 8 word) n"
    proof (cases "n < 2")
      case True
      then have "n = 0 \<or> n = 1" by arith
      then show ?thesis by (auto simp: bit_simps)
    next
      case False
      with assms [of n] show ?thesis by (auto simp: bit_simps)
    qed
  qed
  also have "\<dots> = of_bool (bit w 0) + 2 * of_bool (bit w 1)"
    by (cases "bit w 0"; cases "bit w 1"; simp)
  finally show ?thesis .
qed

lemma getSlotState_eq:
  "i < 15 \<Longrightarrow> getSlotState h (int i) = of_bool (stLo h i) + 2 * of_bool (stHi h i)"
  using two_bit_word_cases [of "getSlotState h (int i)"] getSlotState_bits [of i h]
  by simp

lemma getBinState_eq: "getBinState h = of_bool (bit h 30) + 2 * of_bool (bit h 31)"
  using two_bit_word_cases [of "getBinState h"] getBinState_bits [of h] by simp

lemma slot_state_cases:
  assumes "i < 15"
  shows "getSlotState h (int i) = SlotInvalid \<longleftrightarrow> \<not> stHi h i \<and> \<not> stLo h i"
    and "getSlotState h (int i) = SlotTrying \<longleftrightarrow> \<not> stHi h i \<and> stLo h i"
    and "getSlotState h (int i) = SlotValid \<longleftrightarrow> stHi h i \<and> \<not> stLo h i"
    and "getSlotState h (int i) = 3 \<longleftrightarrow> stHi h i \<and> stLo h i"
  using assms by (auto simp: getSlotState_eq)

section \<open>Writing one field\<close>

lemma bit_setSlotStateAndVersion:
  assumes "i < 15" "n < 32"
  shows "bit (setSlotStateAndVersion h (int i) s) n \<longleftrightarrow>
     (if n = 2 * i then bit s 0 else if n = 2 * i + 1 then bit s 1 else bit h n)"
proof -
  have "bit (setSlotStateAndVersion h (int i) s) n \<longleftrightarrow>
      bit ((h AND NOT (push_bit (2 * i) 3)) OR push_bit (2 * i) (ucast (s AND 3))) n"
    by (simp only: setSlotStateAndVersion_def Let_def versionShift_def
        slotShift_nat [OF assms(1)] bit_add_exp_below [OF assms(2)])
  also have "\<dots> \<longleftrightarrow> (if n = 2 * i then bit s 0 else if n = 2 * i + 1 then bit s 1 else bit h n)"
  proof (cases "2 * i \<le> n \<and> n < 2 * i + 2")
    case True
    then have "n = 2 * i \<or> n = 2 * i + 1" by arith
    with assms show ?thesis by (auto simp: bit_simps bit_3)
  next
    case False
    with assms show ?thesis by (auto simp: bit_simps bit_3)
  qed
  finally show ?thesis .
qed

lemma getBinState_setSlot [header_simps]:
  "i < 15 \<Longrightarrow> getBinState (setSlotStateAndVersion h (int i) s) = getBinState h"
  by (simp add: getBinState_eq bit_setSlotStateAndVersion)

lemma stHi_setSlot [header_simps]:
  "i < 15 \<Longrightarrow> j < 15 \<Longrightarrow>
     stHi (setSlotStateAndVersion h (int i) s) j \<longleftrightarrow> (if j = i then bit s 1 else stHi h j)"
  by (simp add: bit_setSlotStateAndVersion)

lemma stLo_setSlot [header_simps]:
  "i < 15 \<Longrightarrow> j < 15 \<Longrightarrow>
     stLo (setSlotStateAndVersion h (int i) s) j \<longleftrightarrow> (if j = i then bit s 0 else stLo h j)"
  by (simp add: bit_setSlotStateAndVersion)

lemma getSlotState_setSlot [header_simps]:
  assumes "i < 15" "j < 15" "s \<in> {0, 1, 2}"
  shows "getSlotState (setSlotStateAndVersion h (int i) s) (int j) =
     (if j = i then s else getSlotState h (int j))"
  using assms by (auto simp: getSlotState_eq stHi_setSlot stLo_setSlot bit_3)

lemma version_setSlot:
  assumes "i < 15"
  shows "version (setSlotStateAndVersion h (int i) s) = version h + 1"
proof -
  let ?raw = "(h AND NOT (push_bit (2 * i) 3)) OR push_bit (2 * i) (ucast (s AND 3))"
  have "drop_bit 32 ?raw = drop_bit 32 h"
    by (rule bit_word_eqI)
      (use assms in \<open>auto simp: bit_simps bit_3 dest: bit_imp_le_length\<close>)
  moreover have "setSlotStateAndVersion h (int i) s = ?raw + push_bit 32 1"
    by (simp only: setSlotStateAndVersion_def Let_def versionShift_def slotShift_nat [OF assms])
  ultimately show ?thesis
    by (simp only: version_def versionShift_def ucast_drop_add_exp)
qed

lemma setSlot_changes_header:
  assumes "i < 15"
  shows "setSlotStateAndVersion h (int i) s \<noteq> h"
proof
  assume "setSlotStateAndVersion h (int i) s = h"
  then have "version h + 1 = version h" using version_setSlot [OF assms, of h s] by simp
  then show False by simp
qed

lemma bit_setBinState:
  "bit (setBinState h s) n \<longleftrightarrow> (if n = 30 then bit s 0 else if n = 31 then bit s 1 else bit h n)"
proof (cases "n = 30 \<or> n = 31")
  case True
  then show ?thesis by (auto simp: setBinState_def bit_simps bit_binStateMask bit_3)
next
  case False
  then show ?thesis
    by (auto simp: setBinState_def bit_simps bit_binStateMask bit_3 dest: bit_imp_le_length)
qed

lemma getBinState_setBinState [header_simps]:
  "s \<in> {0, 1, 2} \<Longrightarrow> getBinState (setBinState h s) = s"
  by (auto simp: getBinState_eq bit_setBinState bit_3)

lemma st_setBinState [header_simps]:
  "i < 15 \<Longrightarrow> stHi (setBinState h s) i = stHi h i"
  "i < 15 \<Longrightarrow> stLo (setBinState h s) i = stLo h i"
  by (auto simp: bit_setBinState)

lemma version_setBinState: "version (setBinState h t) = version h"
proof -
  have "drop_bit versionShift (setBinState h t) = drop_bit versionShift h"
    by (rule bit_word_eqI) (simp add: bit_drop_bit_eq bit_setBinState)
  then show ?thesis by (simp only: version_def)
qed

section \<open>The masks are spread bitmaps\<close>

lemma all_lt_cases4: "(\<forall>i<4. P i) \<longleftrightarrow> P 0 \<and> P 1 \<and> P 2 \<and> P (3::nat)"
  by (auto simp: numeral_eq_Suc less_Suc_eq)

lemma mask_0x55: "(0x55 :: 32 word) = spread [True, True, True, True]"
  by simp

lemma mask_0x15: "(0x15 :: 32 word) = spread [True, True, True]"
  by simp

lemma bit_0x3F: "bit (0x3F :: 32 word) n \<longleftrightarrow> n < 6"
proof -
  have eq: "(0x3F :: 32 word) = Bit_Operations.mask 6" by (simp add: mask_eq_exp_minus_1)
  show ?thesis unfolding eq by (auto simp: bit_mask_iff)
qed

lemma bit_0xFF: "bit (0xFF :: 32 word) n \<longleftrightarrow> n < 8"
proof -
  have eq: "(0xFF :: 32 word) = Bit_Operations.mask 8" by (simp add: mask_eq_exp_minus_1)
  show ?thesis unfolding eq by (auto simp: bit_mask_iff)
qed

lemma validMask3_spread: "validMask3 h = spread [stHi h 0, stHi h 1, stHi h 2]"
proof (rule bit_word_eqI)
  fix n assume "n < LENGTH(32)"
  have "n div 2 < 3 \<Longrightarrow> n div 2 = 0 \<or> n div 2 = 1 \<or> n div 2 = 2" by arith
  then show "bit (validMask3 h) n = bit (spread [stHi h 0, stHi h 1, stHi h 2]) n"
    unfolding validMask3_def mask_0x15 bit_and_iff bit_spread
    by (auto simp: bit_simps elim!: evenE)
qed

lemma invalidMask3_spread:
  "invalidMask3 h =
     spread [\<not> stHi h 0 \<and> \<not> stLo h 0, \<not> stHi h 1 \<and> \<not> stLo h 1, \<not> stHi h 2 \<and> \<not> stLo h 2]"
  (is "_ = spread ?bs")
proof (rule bit_word_eqI)
  fix n assume "n < LENGTH(32)"
  have "n div 2 < 3 \<Longrightarrow> n div 2 = 0 \<or> n div 2 = 1 \<or> n div 2 = 2" by arith
  then show "bit (invalidMask3 h) n = bit (spread ?bs) n"
    unfolding invalidMask3_def Let_def mask_0x15 bit_and_iff bit_spread
    by (auto simp: bit_simps bit_0x3F elim!: evenE)
qed

lemma validMask4_spread:
  assumes "base = 3 \<or> base = 7 \<or> base = 11"
  shows "validMask4 h base =
     spread [stHi h base, stHi h (base + 1), stHi h (base + 2), stHi h (base + 3)]"
  (is "_ = spread ?bs")
proof (rule bit_word_eqI)
  fix n assume "n < LENGTH(32)"
  have "n div 2 < 4 \<Longrightarrow> n div 2 = 0 \<or> n div 2 = 1 \<or> n div 2 = 2 \<or> n div 2 = 3" by arith
  with assms show "bit (validMask4 h base) n = bit (spread ?bs) n"
    unfolding validMask4_def mask_0x55 bit_and_iff bit_spread
    by (auto simp: bit_simps elim!: evenE)
qed

lemma invalidMask4_spread:
  assumes "base = 3 \<or> base = 7 \<or> base = 11"
  shows "invalidMask4 h base =
     spread [\<not> stHi h base \<and> \<not> stLo h base, \<not> stHi h (base + 1) \<and> \<not> stLo h (base + 1),
       \<not> stHi h (base + 2) \<and> \<not> stLo h (base + 2), \<not> stHi h (base + 3) \<and> \<not> stLo h (base + 3)]"
  (is "_ = spread ?bs")
proof (rule bit_word_eqI)
  fix n assume "n < LENGTH(32)"
  have "n div 2 < 4 \<Longrightarrow> n div 2 = 0 \<or> n div 2 = 1 \<or> n div 2 = 2 \<or> n div 2 = 3" by arith
  with assms show "bit (invalidMask4 h base) n = bit (spread ?bs) n"
    unfolding invalidMask4_def Let_def mask_0x55 bit_and_iff bit_spread
    by (auto simp: bit_simps bit_0xFF elim!: evenE)
qed

lemma nth_map_upt3: "n < 3 \<Longrightarrow> [P 0, P (Suc 0), P 2] ! n = P (n :: nat)"
  by (auto simp: numeral_eq_Suc less_Suc_eq)

lemma nth_map_upt4: "n < 4 \<Longrightarrow> [P 0, P (Suc 0), P 2, P 3] ! n = P (n :: nat)"
  by (auto simp: numeral_eq_Suc less_Suc_eq)

text \<open>All bits of the four masks, as the state bits of the slots they stand for.\<close>

lemma bit_masks3:
  "bit (validMask3 h) n \<longleftrightarrow> even n \<and> n < 6 \<and> stHi h (n div 2)"
  "bit (invalidMask3 h) n \<longleftrightarrow> even n \<and> n < 6 \<and> \<not> stHi h (n div 2) \<and> \<not> stLo h (n div 2)"
proof -
  have lt: "n div 2 < 3 \<longleftrightarrow> n < 6" by arith
  show "bit (validMask3 h) n \<longleftrightarrow> even n \<and> n < 6 \<and> stHi h (n div 2)"
    unfolding validMask3_spread bit_spread
    using nth_map_upt3 [of "n div 2" "stHi h"] by (auto simp: lt)
  show "bit (invalidMask3 h) n \<longleftrightarrow> even n \<and> n < 6 \<and> \<not> stHi h (n div 2) \<and> \<not> stLo h (n div 2)"
    unfolding invalidMask3_spread bit_spread
    using nth_map_upt3 [of "n div 2" "\<lambda>i. \<not> stHi h i \<and> \<not> stLo h i"] by (auto simp: lt)
qed

lemma bit_masks4:
  assumes "base = 3 \<or> base = 7 \<or> base = 11"
  shows "bit (validMask4 h base) n \<longleftrightarrow> even n \<and> n < 8 \<and> stHi h (base + n div 2)"
    and "bit (invalidMask4 h base) n \<longleftrightarrow>
      even n \<and> n < 8 \<and> \<not> stHi h (base + n div 2) \<and> \<not> stLo h (base + n div 2)"
proof -
  have lt: "n div 2 < 4 \<longleftrightarrow> n < 8" by arith
  show "bit (validMask4 h base) n \<longleftrightarrow> even n \<and> n < 8 \<and> stHi h (base + n div 2)"
    unfolding validMask4_spread [OF assms] bit_spread
    using nth_map_upt4 [of "n div 2" "\<lambda>i. stHi h (base + i)"] by (auto simp: lt)
  show "bit (invalidMask4 h base) n \<longleftrightarrow>
      even n \<and> n < 8 \<and> \<not> stHi h (base + n div 2) \<and> \<not> stLo h (base + n div 2)"
    unfolding invalidMask4_spread [OF assms] bit_spread
    using nth_map_upt4 [of "n div 2" "\<lambda>i. \<not> stHi h (base + i) \<and> \<not> stLo h (base + i)"] by (auto simp: lt)
qed

lemma masks_states:
  assumes "\<forall>i<15. getSlotState h (int i) \<noteq> 3" "base = 3 \<or> base = 7 \<or> base = 11"
  shows "bit (validMask3 h) n \<longleftrightarrow> even n \<and> n < 6 \<and> getSlotState h (int (n div 2)) = SlotValid"
    and "bit (invalidMask3 h) n \<longleftrightarrow> even n \<and> n < 6 \<and> getSlotState h (int (n div 2)) = SlotInvalid"
    and "bit (validMask4 h base) n \<longleftrightarrow> even n \<and> n < 8 \<and> getSlotState h (int (base + n div 2)) = SlotValid"
    and "bit (invalidMask4 h base) n \<longleftrightarrow> even n \<and> n < 8 \<and> getSlotState h (int (base + n div 2)) = SlotInvalid"
proof -
  have i3: "n < 6 \<Longrightarrow> n div 2 < 15" and i4: "n < 8 \<Longrightarrow> base + n div 2 < 15" using assms(2) by auto
  have no3: "\<not> (stHi h i \<and> stLo h i)" if "i < 15" for i
    using assms(1) that slot_state_cases(4) [OF that, of h] by blast
  show "bit (validMask3 h) n \<longleftrightarrow> even n \<and> n < 6 \<and> getSlotState h (int (n div 2)) = SlotValid"
    unfolding bit_masks3 using slot_state_cases(3) [OF i3, of h] no3 [OF i3] by blast
  show "bit (invalidMask3 h) n \<longleftrightarrow> even n \<and> n < 6 \<and> getSlotState h (int (n div 2)) = SlotInvalid"
    unfolding bit_masks3 using slot_state_cases(1) [OF i3, of h] by blast
  show "bit (validMask4 h base) n \<longleftrightarrow> even n \<and> n < 8 \<and> getSlotState h (int (base + n div 2)) = SlotValid"
    unfolding bit_masks4 [OF assms(2)] using slot_state_cases(3) [OF i4, of h] no3 [OF i4] by blast
  show "bit (invalidMask4 h base) n \<longleftrightarrow> even n \<and> n < 8 \<and> getSlotState h (int (base + n div 2)) = SlotInvalid"
    unfolding bit_masks4 [OF assms(2)] using slot_state_cases(1) [OF i4, of h] by blast
qed

end
