(* ===== verification/LinkMetaWord.thy ===== *)
theory LinkMetaWord
  imports Prelude
begin

text \<open>
  The 64-bit link descriptor of a primary bucket (allocator/linkmeta.go; inline/linkmeta.go
  is the same code): bits 63..32 the first of a pair of link buckets, bits 31..0 a single
  link bucket. Both are 1-based indices into the link arena and 0 is \<open>NO_LINK\<close>.
\<close>

type_synonym LinkMeta = "64 word"

definition NO_LINK :: "32 word" where [simp]: "NO_LINK = 0"
definition pairStartShift :: nat where [simp]: "pairStartShift = 32"

definition newLinkMeta :: "32 word \<Rightarrow> 32 word \<Rightarrow> LinkMeta" where
  "newLinkMeta pairStart single = push_bit pairStartShift (ucast pairStart) OR ucast single"

definition getPairStart :: "LinkMeta \<Rightarrow> 32 word" where
  "getPairStart lm = ucast (drop_bit pairStartShift lm)"

definition getSingle :: "LinkMeta \<Rightarrow> 32 word" where
  "getSingle lm = ucast (lm AND 0xFFFFFFFF)"

definition setPairStart :: "LinkMeta \<Rightarrow> 32 word \<Rightarrow> LinkMeta" where
  "setPairStart lm ps = newLinkMeta ps (getSingle lm)"

definition setSingle :: "LinkMeta \<Rightarrow> 32 word \<Rightarrow> LinkMeta" where
  "setSingle lm s = newLinkMeta (getPairStart lm) s"

definition resolveLink :: "LinkMeta \<Rightarrow> int \<Rightarrow> 32 word" where
  "resolveLink lm linkIdx =
     (if linkIdx = 0 then getSingle lm
      else if linkIdx = 1 then getPairStart lm
      else if linkIdx = 2 then
        (let ps = getPairStart lm in if ps = NO_LINK then NO_LINK else ps + 1)
      else NO_LINK)"

definition getAttachedLinkCount :: "LinkMeta \<Rightarrow> int" where
  "getAttachedLinkCount lm =
     (let count = 0;
          count = (if getSingle lm \<noteq> NO_LINK then count + 1 else count)
      in if getPairStart lm \<noteq> NO_LINK then count + 2 else count)"

lemma getSingle_mask: "getSingle lm = ucast (lm AND Bit_Operations.mask 32)"
  by (simp add: getSingle_def mask_eq_exp_minus_1)

lemma bit_newLinkMeta:
  "bit (newLinkMeta p s) n \<longleftrightarrow> (if n < 32 then bit s n else bit p (n - 32) \<and> n < 64)"
  by (auto simp: newLinkMeta_def bit_simps dest: bit_imp_le_length)

lemma getPairStart_new [link_simps]: "getPairStart (newLinkMeta p s) = p"
  by (rule bit_word_eqI) (simp add: getPairStart_def bit_simps bit_newLinkMeta)

lemma getSingle_new [link_simps]: "getSingle (newLinkMeta p s) = s"
  by (rule bit_word_eqI) (simp add: getSingle_mask bit_simps bit_newLinkMeta)

lemma newLinkMeta_get: "newLinkMeta (getPairStart lm) (getSingle lm) = lm"
  by (rule bit_word_eqI)
    (auto simp: bit_newLinkMeta getPairStart_def getSingle_mask bit_simps)

lemma set_link_simps [link_simps]:
  "getPairStart (setPairStart lm p) = p"
  "getSingle (setPairStart lm p) = getSingle lm"
  "getSingle (setSingle lm s) = s"
  "getPairStart (setSingle lm s) = getPairStart lm"
  by (simp_all add: setPairStart_def setSingle_def link_simps)

lemma get_zero [link_simps]: "getPairStart 0 = 0" "getSingle 0 = 0"
  by (simp_all add: getPairStart_def getSingle_def)

end
