(* ===== verification/BucketIndex.thy ===== *)
theory BucketIndex
  imports BucketHeader LinkMetaWord
begin

text \<open>
  One generation of the table (allocator/types.go, index.go, link.go; the files of inline/
  are the same code at another slot type): the bins with their headers, link descriptors
  and three slots, the arena of link buckets and its bump allocator. The type parameter is
  the type of a slot's second word: a pointer to an entry in \<open>allocator\<close>, a raw 64-bit
  value in \<open>inline\<close>.

  Buckets are addressed as the code does, by bin number and by 1-based link number through
  unchecked pointer arithmetic; a load or store outside the slice is \<open>None\<close>. A pointer to
  a slot is a \<open>SlotRef\<close>; computing one never faults, dereferencing one may.
\<close>

section \<open>Types\<close>

record 'v Slot =
  Key :: "64 word"
  Val :: 'v

record 'v PrimaryBucket =
  Header :: "64 word"
  LinkMeta :: "64 word"
  Slots :: "'v Slot list"

record 'v LinkBucket =
  LinkSlots :: "'v Slot list"

record 'v index =
  imask :: "64 word"
  bins :: "'v PrimaryBucket list"
  links :: "'v LinkBucket list"
  linkNext :: "32 word"
  linkCapacity :: "32 word"
  indexNext :: "nat option"

datatype SlotRef = PrimarySlot "64 word" int | LinkSlot "32 word" int

section \<open>Construction\<close>

definition zeroSlot :: "'v \<Rightarrow> 'v Slot" where
  "zeroSlot zv = \<lparr>Key = 0, Val = zv\<rparr>"

definition zeroPrimaryBucket :: "'v \<Rightarrow> 'v PrimaryBucket" where
  "zeroPrimaryBucket zv = \<lparr>Header = 0, LinkMeta = 0, Slots = replicate 3 (zeroSlot zv)\<rparr>"

definition zeroLinkBucket :: "'v \<Rightarrow> 'v LinkBucket" where
  "zeroLinkBucket zv = \<lparr>LinkSlots = replicate 4 (zeroSlot zv)\<rparr>"

text \<open>\<open>zv\<close> is Go's zero value of the slot's second word, which \<open>make\<close> fills in.\<close>

definition newIndex :: "'v \<Rightarrow> 64 word \<Rightarrow> 'v index" where
  "newIndex zv numBins =
     \<lparr>imask = numBins - 1,
      bins = replicate (unat numBins) (zeroPrimaryBucket zv),
      links = replicate (unat (numBins div 8)) (zeroLinkBucket zv),
      linkNext = 0,
      linkCapacity = ucast (numBins div 8),
      indexNext = None\<rparr>"

section \<open>Addressing\<close>

definition getBinByIndex :: "'v index \<Rightarrow> 64 word \<Rightarrow> 'v PrimaryBucket option" where
  "getBinByIndex ix binIndex = nth_opt (bins ix) (unat binIndex)"

definition binOf :: "'v index \<Rightarrow> 64 word \<Rightarrow> 64 word" where
  "binOf ix hash = hash AND imask ix"

definition getBin :: "'v index \<Rightarrow> 64 word \<Rightarrow> 'v PrimaryBucket option" where
  "getBin ix hash = getBinByIndex ix (binOf ix hash)"

definition getLinkBucket :: "'v index \<Rightarrow> 32 word \<Rightarrow> 'v LinkBucket option" where
  "getLinkBucket ix linkIndex = (let i = linkIndex - 1 in nth_opt (links ix) (unat i))"

definition slotAt :: "'v PrimaryBucket \<Rightarrow> int \<Rightarrow> 'v Slot option" where
  "slotAt pb i = (if i < 0 then None else nth_opt (Slots pb) (nat i))"

definition linkSlotAt :: "'v LinkBucket \<Rightarrow> int \<Rightarrow> 'v Slot option" where
  "linkSlotAt b i = (if i < 0 then None else nth_opt (LinkSlots b) (nat i))"

text \<open>
  \<open>getSlotByIndex\<close>: the outer option is a fault on the bin, the inner one Go's nil slot
  pointer. A negative slot index takes the first branch, as in the code.
\<close>

definition getSlotByIndex :: "'v index \<Rightarrow> 64 word \<Rightarrow> int \<Rightarrow> SlotRef option option" where
  "getSlotByIndex ix b slotIndex =
     (if slotIndex < PRIMARY_SLOTS then Some (Some (PrimarySlot b slotIndex))
      else do {
        let li = slotIndex - PRIMARY_SLOTS;
        let bucketIdx = li div 4;
        let slotInBucket = li mod 4;
        pb \<leftarrow> getBinByIndex ix b;
        let addr = resolveLink (LinkMeta pb) bucketIdx;
        (if addr = NO_LINK then Some None else Some (Some (LinkSlot addr slotInBucket)))
      })"

fun loadSlot :: "'v index \<Rightarrow> SlotRef \<Rightarrow> 'v Slot option" where
  "loadSlot ix (PrimarySlot b i) = do { pb \<leftarrow> getBinByIndex ix b; slotAt pb i }"
| "loadSlot ix (LinkSlot l i) = do { lb \<leftarrow> getLinkBucket ix l; linkSlotAt lb i }"

fun storeSlot :: "'v index \<Rightarrow> SlotRef \<Rightarrow> 'v Slot \<Rightarrow> 'v index option" where
  "storeSlot ix (PrimarySlot b i) s = do {
     pb \<leftarrow> getBinByIndex ix b;
     _ \<leftarrow> slotAt pb i;
     Some (ix\<lparr>bins := (bins ix)[unat b := pb\<lparr>Slots := (Slots pb)[nat i := s]\<rparr>]\<rparr>) }"
| "storeSlot ix (LinkSlot l i) s = do {
     lb \<leftarrow> getLinkBucket ix l;
     _ \<leftarrow> linkSlotAt lb i;
     Some (ix\<lparr>links := (links ix)[unat (l - 1) := lb\<lparr>LinkSlots := (LinkSlots lb)[nat i := s]\<rparr>]\<rparr>) }"

definition storeHeader :: "'v index \<Rightarrow> 64 word \<Rightarrow> 64 word \<Rightarrow> 'v index option" where
  "storeHeader ix b h = do {
     pb \<leftarrow> getBinByIndex ix b;
     Some (ix\<lparr>bins := (bins ix)[unat b := pb\<lparr>Header := h\<rparr>]\<rparr>) }"

definition storeLinkMeta :: "'v index \<Rightarrow> 64 word \<Rightarrow> 64 word \<Rightarrow> 'v index option" where
  "storeLinkMeta ix b lm = do {
     pb \<leftarrow> getBinByIndex ix b;
     Some (ix\<lparr>bins := (bins ix)[unat b := pb\<lparr>LinkMeta := lm\<rparr>]\<rparr>) }"

definition atomicCASHeader ::
  "'v index \<Rightarrow> 64 word \<Rightarrow> 64 word \<Rightarrow> 64 word \<Rightarrow> (bool \<times> 'v index) option" where
  "atomicCASHeader ix b old new = do {
     pb \<leftarrow> getBinByIndex ix b;
     (if Header pb = old then do { ix' \<leftarrow> storeHeader ix b new; Some (True, ix') }
      else Some (False, ix)) }"

definition atomicCASLinkMeta ::
  "'v index \<Rightarrow> 64 word \<Rightarrow> 64 word \<Rightarrow> 64 word \<Rightarrow> (bool \<times> 'v index) option" where
  "atomicCASLinkMeta ix b old new = do {
     pb \<leftarrow> getBinByIndex ix b;
     (if LinkMeta pb = old then do { ix' \<leftarrow> storeLinkMeta ix b new; Some (True, ix') }
      else Some (False, ix)) }"

section \<open>The link arena\<close>

definition allocateLink :: "'v index \<Rightarrow> 32 word \<times> 'v index" where
  "allocateLink ix =
     (let start = linkNext ix + 1;
          ix' = ix\<lparr>linkNext := start\<rparr>
      in (if start > linkCapacity ix' then NO_LINK else start, ix'))"

definition allocateLinkPair :: "'v index \<Rightarrow> 32 word \<times> 'v index" where
  "allocateLinkPair ix =
     (let start = (linkNext ix + 2) - 1;
          ix' = ix\<lparr>linkNext := linkNext ix + 2\<rparr>
      in (if start + 1 > linkCapacity ix' then NO_LINK else start, ix'))"

text \<open>
  The compare-and-swap loops. Executed without interference the swap compares against the
  word just loaded, so the second round is never entered; this is what their termination
  proofs say.
\<close>

lemma CAS_LinkMeta_fresh:
  "getBinByIndex ix b = Some pb \<Longrightarrow>
     atomicCASLinkMeta ix b (LinkMeta pb) new = Some (ok, ix') \<Longrightarrow> ok"
  by (auto simp: atomicCASLinkMeta_def storeLinkMeta_def)

lemma CAS_Header_fresh:
  "getBinByIndex ix b = Some pb \<Longrightarrow>
     atomicCASHeader ix b (Header pb) new = Some (ok, ix') \<Longrightarrow> ok"
  by (auto simp: atomicCASHeader_def storeHeader_def)

function attachSingle_loop ::
  "'v index \<Rightarrow> 64 word \<Rightarrow> 32 word \<Rightarrow> (32 word \<times> 'v index) option" where
  "attachSingle_loop ix b linkIdx = do {
     pb \<leftarrow> getBinByIndex ix b;
     let cur = LinkMeta pb;
     (if getSingle cur \<noteq> NO_LINK then Some (getSingle cur, ix)
      else do {
        (ok, ix') \<leftarrow> atomicCASLinkMeta ix b cur (setSingle cur linkIdx);
        (if ok then Some (linkIdx, ix') else attachSingle_loop ix' b linkIdx)
      }) }"
  by pat_completeness auto
termination
  by (relation "{}") (auto dest: CAS_LinkMeta_fresh)

definition attachSingle :: "'v index \<Rightarrow> 64 word \<Rightarrow> (32 word \<times> 'v index) option" where
  "attachSingle ix b =
     (let (linkIdx, ix') = allocateLink ix
      in if linkIdx = NO_LINK then Some (NO_LINK, ix') else attachSingle_loop ix' b linkIdx)"

function attachPair_loop ::
  "'v index \<Rightarrow> 64 word \<Rightarrow> 32 word \<Rightarrow> (32 word \<times> 'v index) option" where
  "attachPair_loop ix b ps = do {
     pb \<leftarrow> getBinByIndex ix b;
     let cur = LinkMeta pb;
     (if getPairStart cur \<noteq> NO_LINK then Some (getPairStart cur, ix)
      else do {
        (ok, ix') \<leftarrow> atomicCASLinkMeta ix b cur (setPairStart cur ps);
        (if ok then Some (ps, ix') else attachPair_loop ix' b ps)
      }) }"
  by pat_completeness auto
termination
  by (relation "{}") (auto dest: CAS_LinkMeta_fresh)

definition attachPair :: "'v index \<Rightarrow> 64 word \<Rightarrow> (32 word \<times> 'v index) option" where
  "attachPair ix b =
     (let (ps, ix') = allocateLinkPair ix
      in if ps = NO_LINK then Some (NO_LINK, ix') else attachPair_loop ix' b ps)"

declare attachSingle_loop.simps [simp del] attachPair_loop.simps [simp del]

section \<open>Choosing a free slot\<close>

text \<open>\<open>bits.TrailingZeros32(mask) >> 1\<close>\<close>

definition lowestSlot :: "32 word \<Rightarrow> int" where
  "lowestSlot m = int (TrailingZeros32 m div 2)"

definition chooseInsertSlot :: "'v index \<Rightarrow> 64 word \<Rightarrow> (int \<times> 'v index) option" where
  "chooseInsertSlot ix b = do {
     pb \<leftarrow> getBinByIndex ix b;
     let h = Header pb;
     let primaryMask = invalidMask3 h;
     (if primaryMask \<noteq> 0 then Some (lowestSlot primaryMask, ix)
      else do {
        let lm = LinkMeta pb;
        let hasSingle = (getSingle lm \<noteq> NO_LINK);
        let hasPair = (getPairStart lm \<noteq> NO_LINK);
        let singleMask = invalidMask4 h 3;
        let pair0Mask = invalidMask4 h 7;
        let pair1Mask = invalidMask4 h 11;
        (if hasSingle \<and> singleMask \<noteq> 0 then Some (PRIMARY_SLOTS + lowestSlot singleMask, ix)
         else if hasPair \<and> pair0Mask \<noteq> 0 then
           Some (PRIMARY_SLOTS + LINK_SLOTS + lowestSlot pair0Mask, ix)
         else if hasPair \<and> pair1Mask \<noteq> 0 then
           Some (PRIMARY_SLOTS + 2 * LINK_SLOTS + lowestSlot pair1Mask, ix)
         else if \<not> hasSingle then do {
           (l, ix') \<leftarrow> attachSingle ix b;
           Some (if l \<noteq> NO_LINK then PRIMARY_SLOTS else -1, ix') }
         else if \<not> hasPair then do {
           (l, ix') \<leftarrow> attachPair ix b;
           Some (if l \<noteq> NO_LINK then PRIMARY_SLOTS + LINK_SLOTS else -1, ix') }
         else Some (-1, ix))
      }) }"

end
