(* ===== verification/BinView.thy ===== *)
theory BinView
  imports BucketIndex
begin

text \<open>
  The abstract reading of an index: for every bin its header \<open>hdr\<close>, its link descriptor
  \<open>lmeta\<close>, its fifteen slot contents \<open>slotIn\<close> and, from these, the slots a reader may see
  (\<open>view\<close>). \<open>wf_index\<close> is the structural invariant: the sizes of the slices, no slot
  in the unused state 3, a slot in use only where its link bucket is attached, and no link
  bucket attached twice. Under it, storing to one slot of one bin changes no other slot.
\<close>

section \<open>Reading a bin\<close>

definition inBin :: "'v index \<Rightarrow> 64 word \<Rightarrow> bool" where
  "inBin ix b \<longleftrightarrow> unat b < length (bins ix)"

definition hdr :: "'v index \<Rightarrow> 64 word \<Rightarrow> 64 word" where
  "hdr ix b = Header (bins ix ! unat b)"

definition lmeta :: "'v index \<Rightarrow> 64 word \<Rightarrow> 64 word" where
  "lmeta ix b = LinkMeta (bins ix ! unat b)"

definition linkAt :: "'v index \<Rightarrow> 64 word \<Rightarrow> nat \<Rightarrow> 32 word" where
  "linkAt ix b u = resolveLink (lmeta ix b) (int u)"

definition slotRef :: "'v index \<Rightarrow> 64 word \<Rightarrow> nat \<Rightarrow> SlotRef option" where
  "slotRef ix b i = Option.bind (getSlotByIndex ix b (int i)) id"

definition slotIn :: "'v index \<Rightarrow> 64 word \<Rightarrow> nat \<Rightarrow> 'v Slot option" where
  "slotIn ix b i = do { r \<leftarrow> slotRef ix b i; loadSlot ix r }"

definition isValid :: "'v index \<Rightarrow> 64 word \<Rightarrow> nat \<Rightarrow> bool" where
  "isValid ix b i \<longleftrightarrow> stHi (hdr ix b) i \<and> \<not> stLo (hdr ix b) i"

definition isInvalid :: "'v index \<Rightarrow> 64 word \<Rightarrow> nat \<Rightarrow> bool" where
  "isInvalid ix b i \<longleftrightarrow> \<not> stHi (hdr ix b) i \<and> \<not> stLo (hdr ix b) i"

definition view :: "'v index \<Rightarrow> 64 word \<Rightarrow> nat \<Rightarrow> 'v Slot option" where
  "view ix b i = (if i < 15 \<and> isValid ix b i then slotIn ix b i else None)"

section \<open>The structural invariant\<close>

definition shape :: "'v index \<Rightarrow> bool" where
  "shape ix \<longleftrightarrow>
     (\<exists>n \<le> 33. length (bins ix) = 2 ^ n) \<and>
     Suc (unat (imask ix)) = length (bins ix) \<and>
     length (links ix) = length (bins ix) div 8 \<and>
     (\<forall>pb \<in> set (bins ix). length (Slots pb) = 3) \<and>
     (\<forall>lb \<in> set (links ix). length (LinkSlots lb) = 4)"

definition links_wf :: "'v index \<Rightarrow> bool" where
  "links_wf ix \<longleftrightarrow>
     (\<forall>b u. inBin ix b \<and> u < 3 \<longrightarrow> unat (linkAt ix b u) \<le> length (links ix)) \<and>
     (\<forall>b b' u u'. inBin ix b \<and> inBin ix b' \<and> u < 3 \<and> u' < 3 \<and>
        linkAt ix b u \<noteq> 0 \<and> linkAt ix b u = linkAt ix b' u' \<longrightarrow> b = b' \<and> u = u') \<and>
     (\<forall>b. inBin ix b \<and> linkAt ix b 1 \<noteq> 0 \<longrightarrow> linkAt ix b 0 \<noteq> 0 \<and> linkAt ix b 2 \<noteq> 0)"

definition states_wf :: "'v index \<Rightarrow> bool" where
  "states_wf ix \<longleftrightarrow>
     (\<forall>b i. inBin ix b \<and> i < 15 \<longrightarrow>
        \<not> (stHi (hdr ix b) i \<and> stLo (hdr ix b) i) \<and>
        (slotRef ix b i = None \<longrightarrow> isInvalid ix b i))"

definition wf_index :: "'v index \<Rightarrow> bool" where
  "wf_index ix \<longleftrightarrow> shape ix \<and> links_wf ix \<and> states_wf ix"

lemma shape_length_bins: "shape ix \<Longrightarrow> length (bins ix) \<le> 2 ^ 33"
proof -
  assume "shape ix"
  then obtain n where "n \<le> 33" "length (bins ix) = 2 ^ n" by (auto simp: shape_def)
  moreover from this(1) have "(2::nat) ^ n \<le> 2 ^ 33" by (rule power_increasing) simp
  ultimately show ?thesis by simp
qed

lemma shape_length_links: "shape ix \<Longrightarrow> length (links ix) \<le> 2 ^ 30"
proof -
  assume "shape ix"
  then have "length (links ix) = length (bins ix) div 8" by (simp add: shape_def)
  also have "\<dots> \<le> 2 ^ 33 div 8" using shape_length_bins [OF \<open>shape ix\<close>] by (rule div_le_mono)
  finally show ?thesis by simp
qed

lemma getBinByIndex_in [simp]: "inBin ix b \<Longrightarrow> getBinByIndex ix b = Some (bins ix ! unat b)"
  by (simp add: inBin_def getBinByIndex_def)

lemma getBinByIndex_Some: "getBinByIndex ix b = Some pb \<longleftrightarrow> inBin ix b \<and> pb = bins ix ! unat b"
  by (auto simp: inBin_def getBinByIndex_def nth_opt_Some)

lemma binOf_in: "shape ix \<Longrightarrow> inBin ix (binOf ix hash)"
proof -
  assume "shape ix"
  moreover have "unat (hash AND imask ix) \<le> unat (imask ix)"
    by (rule word_and_le1 [THEN word_le_nat_alt [THEN iffD1]])
  ultimately show ?thesis by (auto simp: inBin_def binOf_def shape_def)
qed

section \<open>Slot pointers\<close>

lemma slotRef_primary: "i < 3 \<Longrightarrow> slotRef ix b i = Some (PrimarySlot b (int i))"
  by (simp add: slotRef_def getSlotByIndex_def)

lemma slotRef_link:
  assumes "inBin ix b" "3 \<le> i"
  shows "slotRef ix b i =
    (if linkAt ix b ((i - 3) div 4) = 0 then None
     else Some (LinkSlot (linkAt ix b ((i - 3) div 4)) (int ((i - 3) mod 4))))"
proof -
  from assms(2) obtain k where k: "i = 3 + k" using le_iff_add by blast
  show ?thesis using assms(1)
    by (simp add: k slotRef_def getSlotByIndex_def linkAt_def lmeta_def Let_def zdiv_int zmod_int)
qed

lemma slotRef_cases:
  assumes "slotRef ix b i = Some r" "inBin ix b"
  obtains (primary) "i < 3" "r = PrimarySlot b (int i)"
  | (link) u j where "i = 3 + 4 * u + j" "j < 4" "linkAt ix b u \<noteq> 0"
      "r = LinkSlot (linkAt ix b u) (int j)"
proof (cases "i < 3")
  case True
  with assms show ?thesis by (auto simp: slotRef_primary intro: that(1))
next
  case False
  then have "3 \<le> i" by simp
  let ?u = "(i - 3) div 4" and ?j = "(i - 3) mod 4"
  have "i = 3 + 4 * ?u + ?j" using \<open>3 \<le> i\<close> by simp
  moreover have "?j < 4" by simp
  moreover have "linkAt ix b ?u \<noteq> 0" "r = LinkSlot (linkAt ix b ?u) (int ?j)"
    using assms slotRef_link [OF assms(2) \<open>3 \<le> i\<close>] by (auto split: if_splits)
  ultimately show ?thesis by (rule that(2))
qed

lemma unat_pred: "(l :: 32 word) \<noteq> 0 \<Longrightarrow> unat (l - 1) = unat l - 1"
  by (simp add: unat_minus_one)

lemma slotRef_inj:
  assumes "links_wf ix" "inBin ix b" "inBin ix b'" "i < 15" "j < 15"
    and "slotRef ix b i = Some r" "slotRef ix b' j = Some r"
  shows "b = b' \<and> i = j"
  using assms(6,2)
proof (cases rule: slotRef_cases)
  case primary
  from assms(7,3) show ?thesis
    by (cases rule: slotRef_cases) (use primary in auto)
next
  case (link u k)
  from assms(7,3) show ?thesis
  proof (cases rule: slotRef_cases)
    case primary
    with link show ?thesis by simp
  next
    case l': (link u' k')
    with link have eq: "linkAt ix b u = linkAt ix b' u'" "k = k'" by auto
    moreover have "u < 3" "u' < 3" using link(1) l'(1) assms(4,5) by auto
    ultimately have "b = b' \<and> u = u'"
      using assms(1-3) link(3) unfolding links_wf_def by blast
    with link(1) l'(1) eq show ?thesis by simp
  qed
qed

lemma slotRef_load:
  assumes "shape ix" "links_wf ix" "inBin ix b" "i < 15" "slotRef ix b i = Some r"
  shows "\<exists>s. loadSlot ix r = Some s"
  using assms(5,3)
proof (cases rule: slotRef_cases)
  case primary
  have "bins ix ! unat b \<in> set (bins ix)" using assms(3) by (simp add: inBin_def)
  with assms primary show ?thesis by (auto simp: shape_def slotAt_def)
next
  case (link u j)
  let ?l = "linkAt ix b u"
  have "u < 3" using link(1) assms(4) by simp
  then have "unat ?l \<le> length (links ix)" using assms(2,3) by (auto simp: links_wf_def)
  moreover have "unat ?l \<noteq> 0" using link(3) by (simp add: unat_eq_0)
  moreover have "unat (?l - 1) = unat ?l - 1" using link(3) by (rule unat_pred)
  ultimately have l: "unat (?l - 1) < length (links ix)" by linarith
  then have "links ix ! unat (?l - 1) \<in> set (links ix)" by simp
  with assms(1) have "length (LinkSlots (links ix ! unat (?l - 1))) = 4" by (auto simp: shape_def)
  with link l show ?thesis by (simp add: getLinkBucket_def linkSlotAt_def Let_def)
qed

lemma slotIn_in:
  assumes "shape ix" "links_wf ix" "inBin ix b" "i < 15" "slotRef ix b i \<noteq> None"
  shows "\<exists>s. slotIn ix b i = Some s"
  using assms slotRef_load by (fastforce simp: slotIn_def)

section \<open>What a store changes\<close>

text \<open>
  \<open>same_frame ix ix'\<close>: the two indices have the same geometry and allocator state. Every
  store keeps it; what the store changes is then one of \<open>hdr\<close>, \<open>lmeta\<close> and
  \<open>loadSlot\<close>.
\<close>

definition same_geometry :: "'v index \<Rightarrow> 'v index \<Rightarrow> bool" where
  "same_geometry ix ix' \<longleftrightarrow>
     imask ix' = imask ix \<and> length (bins ix') = length (bins ix) \<and>
     length (links ix') = length (links ix) \<and> (shape ix \<longrightarrow> shape ix')"

definition same_frame :: "'v index \<Rightarrow> 'v index \<Rightarrow> bool" where
  "same_frame ix ix' \<longleftrightarrow> same_geometry ix ix' \<and>
     linkNext ix' = linkNext ix \<and> linkCapacity ix' = linkCapacity ix \<and>
     indexNext ix' = indexNext ix"

lemma same_geometry_refl [simp]: "same_geometry ix ix"
  by (simp add: same_geometry_def)

lemma same_frame_refl [simp]: "same_frame ix ix"
  by (simp add: same_frame_def)

lemma same_geometry_trans: "same_geometry a b \<Longrightarrow> same_geometry b c \<Longrightarrow> same_geometry a c"
  by (simp add: same_geometry_def)

lemma same_frame_trans: "same_frame a b \<Longrightarrow> same_frame b c \<Longrightarrow> same_frame a c"
  by (auto simp: same_frame_def intro: same_geometry_trans)

lemma same_frame_geometry: "same_frame ix ix' \<Longrightarrow> same_geometry ix ix'"
  by (simp add: same_frame_def)

lemma same_geometry_inBin: "same_geometry ix ix' \<Longrightarrow> inBin ix' b = inBin ix b"
  by (simp add: same_geometry_def inBin_def)

lemma same_geometry_binOf: "same_geometry ix ix' \<Longrightarrow> binOf ix' h = binOf ix h"
  by (simp add: same_geometry_def binOf_def)

lemma same_geometry_shape: "same_geometry ix ix' \<Longrightarrow> shape ix \<Longrightarrow> shape ix'"
  by (simp add: same_geometry_def)

lemma slotRef_cong:
  assumes "inBin ix b" "inBin ix' b'" "b' = b" "lmeta ix' b = lmeta ix b"
  shows "slotRef ix' b' i = slotRef ix b i"
proof (cases "i < 3")
  case True
  then show ?thesis using assms by (simp add: slotRef_primary)
next
  case False
  then show ?thesis using assms by (simp add: slotRef_link linkAt_def)
qed

lemma set_update_Ball:
  "i < length xs \<Longrightarrow> (\<forall>x \<in> set xs. P x) \<Longrightarrow> P y \<Longrightarrow> \<forall>x \<in> set (xs[i := y]). P x"
  using set_update_subset_insert [of xs i y] by blast

lemma shape_cong:
  assumes "shape ix" "imask ix' = imask ix" "length (bins ix') = length (bins ix)"
    "length (links ix') = length (links ix)"
    "\<forall>pb \<in> set (bins ix'). length (Slots pb) = 3" "\<forall>lb \<in> set (links ix'). length (LinkSlots lb) = 4"
  shows "shape ix'"
  using assms(1) assms(5,6) unfolding shape_def assms(2-4) by (elim conjE) (intro conjI)

lemma bins_update_shape:
  assumes "shape ix" "inBin ix b" "length (Slots pb) = 3"
  shows "shape (ix\<lparr>bins := (bins ix)[unat b := pb]\<rparr>)"
  by (rule shape_cong [OF assms(1)])
    (use assms set_update_Ball [of "unat b" "bins ix" "\<lambda>pb. length (Slots pb) = 3" pb]
      in \<open>simp_all add: shape_def inBin_def\<close>)

lemma Slots_length: "shape ix \<Longrightarrow> inBin ix b \<Longrightarrow> length (Slots (bins ix ! unat b)) = 3"
  by (simp add: shape_def inBin_def)

lemma storeHeader_effect:
  assumes "inBin ix b"
  obtains ix' where "storeHeader ix b h = Some ix'" "same_frame ix ix'"
    "\<And>b'. hdr ix' b' = (if b' = b then h else hdr ix b')" "lmeta ix' = lmeta ix"
    "\<And>r. loadSlot ix' r = loadSlot ix r"
proof
  let ?ix = "ix\<lparr>bins := (bins ix)[unat b := (bins ix ! unat b)\<lparr>Header := h\<rparr>]\<rparr>"
  show "storeHeader ix b h = Some ?ix" using assms by (simp add: storeHeader_def)
  show "same_frame ix ?ix"
    using assms bins_update_shape [of ix b "(bins ix ! unat b)\<lparr>Header := h\<rparr>"]
    by (simp add: same_frame_def same_geometry_def Slots_length)
  show "hdr ?ix b' = (if b' = b then h else hdr ix b')" for b'
    using assms by (auto simp: hdr_def inBin_def nth_list_update)
  show "lmeta ?ix = lmeta ix"
    using assms by (auto simp: lmeta_def inBin_def nth_list_update fun_eq_iff)
  show "loadSlot ?ix r = loadSlot ix r" for r
    using assms
    by (cases r) (auto simp: getBinByIndex_def inBin_def getLinkBucket_def nth_opt_def
        nth_list_update slotAt_def Let_def)
qed

lemma storeLinkMeta_effect:
  assumes "inBin ix b"
  obtains ix' where "storeLinkMeta ix b l = Some ix'" "same_frame ix ix'"
    "\<And>b'. lmeta ix' b' = (if b' = b then l else lmeta ix b')" "hdr ix' = hdr ix"
    "\<And>r. loadSlot ix' r = loadSlot ix r"
proof
  let ?ix = "ix\<lparr>bins := (bins ix)[unat b := (bins ix ! unat b)\<lparr>LinkMeta := l\<rparr>]\<rparr>"
  show "storeLinkMeta ix b l = Some ?ix" using assms by (simp add: storeLinkMeta_def)
  show "same_frame ix ?ix"
    using assms bins_update_shape [of ix b "(bins ix ! unat b)\<lparr>LinkMeta := l\<rparr>"]
    by (simp add: same_frame_def same_geometry_def Slots_length)
  show "lmeta ?ix b' = (if b' = b then l else lmeta ix b')" for b'
    using assms by (auto simp: lmeta_def inBin_def nth_list_update)
  show "hdr ?ix = hdr ix"
    using assms by (auto simp: hdr_def inBin_def nth_list_update fun_eq_iff)
  show "loadSlot ?ix r = loadSlot ix r" for r
    using assms
    by (cases r) (auto simp: getBinByIndex_def inBin_def getLinkBucket_def nth_opt_def
        nth_list_update slotAt_def Let_def)
qed

lemma storeSlot_effect:
  assumes "loadSlot ix r = Some s0"
  obtains ix' where "storeSlot ix r s = Some ix'" "same_frame ix ix'"
    "hdr ix' = hdr ix" "lmeta ix' = lmeta ix"
    "\<And>r'. loadSlot ix' r' = (if r' = r then Some s else loadSlot ix r')"
proof (cases r)
  case (PrimarySlot b i)
  let ?pb = "bins ix ! unat b"
  let ?ix = "ix\<lparr>bins := (bins ix)[unat b := ?pb\<lparr>Slots := (Slots ?pb)[nat i := s]\<rparr>]\<rparr>"
  from assms PrimarySlot have b: "inBin ix b" and i: "0 \<le> i" "nat i < length (Slots ?pb)"
    by (auto simp: getBinByIndex_Some slotAt_def nth_opt_Some split: if_splits bind_splits)
  show ?thesis
  proof
    show "storeSlot ix r s = Some ?ix" using PrimarySlot b i by (simp add: slotAt_def)
    show "same_frame ix ?ix"
      using b bins_update_shape [of ix b "?pb\<lparr>Slots := (Slots ?pb)[nat i := s]\<rparr>"]
      by (simp add: same_frame_def same_geometry_def Slots_length)
    show "hdr ?ix = hdr ix" "lmeta ?ix = lmeta ix"
      using b by (auto simp: hdr_def lmeta_def inBin_def nth_list_update fun_eq_iff)
    show "loadSlot ?ix r' = (if r' = r then Some s else loadSlot ix r')" for r'
      using PrimarySlot b i
      by (cases r') (auto simp: getBinByIndex_def inBin_def getLinkBucket_def nth_opt_def
          nth_list_update slotAt_def Let_def nat_eq_iff2)
  qed
next
  case (LinkSlot l i)
  let ?k = "unat (l - 1)"
  let ?lb = "links ix ! ?k"
  let ?ix = "ix\<lparr>links := (links ix)[?k := ?lb\<lparr>LinkSlots := (LinkSlots ?lb)[nat i := s]\<rparr>]\<rparr>"
  from assms LinkSlot have l: "?k < length (links ix)" and i: "0 \<le> i" "nat i < length (LinkSlots ?lb)"
    by (auto simp: getLinkBucket_def linkSlotAt_def nth_opt_Some Let_def
        split: if_splits bind_splits)
  show ?thesis
  proof
    show "storeSlot ix r s = Some ?ix"
      using LinkSlot l i by (simp add: getLinkBucket_def linkSlotAt_def Let_def)
    show "same_frame ix ?ix"
      using l set_update_Ball [of ?k "links ix" "\<lambda>lb. length (LinkSlots lb) = 4"
          "?lb\<lparr>LinkSlots := (LinkSlots ?lb)[nat i := s]\<rparr>"]
      by (auto simp: same_frame_def same_geometry_def shape_def)
    show "hdr ?ix = hdr ix" "lmeta ?ix = lmeta ix"
      by (auto simp: hdr_def lmeta_def fun_eq_iff)
    show "loadSlot ?ix r' = (if r' = r then Some s else loadSlot ix r')" for r'
      using LinkSlot l i
      by (cases r') (auto simp: getBinByIndex_def getLinkBucket_def nth_opt_def
          nth_list_update linkSlotAt_def Let_def nat_eq_iff2)
  qed
qed

end
