(* ===== verification/BinOps.thy ===== *)
theory BinOps
  imports BinView
begin

text \<open>
  What the shared bucket operations do to the abstract reading of an index: writing one
  slot state, attaching link buckets from the arena, choosing a free slot. \<open>alloc_ok\<close> is
  the invariant of the bump allocator of link.go: every link in use lies at or below
  \<open>linkNext\<close>, or above \<open>linkCapacity\<close> (handed out by a resize from the top of the arena).
\<close>

section \<open>Frame rules\<close>

lemma slotRef_alt:
  "slotRef ix b i =
     (if i < 3 then Some (PrimarySlot b (int i))
      else if \<not> inBin ix b \<or> linkAt ix b ((i - 3) div 4) = 0 then None
      else Some (LinkSlot (linkAt ix b ((i - 3) div 4)) (int ((i - 3) mod 4))))"
proof (cases "i < 3 \<or> inBin ix b")
  case True
  then show ?thesis by (auto simp: slotRef_primary slotRef_link)
next
  case False
  then have "getBinByIndex ix b = None" by (simp add: getBinByIndex_def inBin_def)
  with False show ?thesis by (simp add: slotRef_def getSlotByIndex_def)
qed

lemma slotRef_frame:
  "same_geometry ix ix' \<Longrightarrow> lmeta ix' = lmeta ix \<Longrightarrow> slotRef ix' = slotRef ix"
  by (simp add: fun_eq_iff slotRef_alt linkAt_def same_geometry_inBin)

lemma slotIn_frame:
  "same_geometry ix ix' \<Longrightarrow> lmeta ix' = lmeta ix \<Longrightarrow> (\<And>r. loadSlot ix' r = loadSlot ix r) \<Longrightarrow>
     slotIn ix' = slotIn ix"
  by (simp add: fun_eq_iff slotIn_def slotRef_frame)

lemma links_wf_frame:
  "same_geometry ix ix' \<Longrightarrow> lmeta ix' = lmeta ix \<Longrightarrow> links_wf ix' = links_wf ix"
  by (simp add: links_wf_def linkAt_def same_geometry_inBin) (simp add: same_geometry_def)

lemma isValid_frame: "hdr ix' = hdr ix \<Longrightarrow> isValid ix' = isValid ix"
  by (simp add: isValid_def fun_eq_iff)

lemma isInvalid_frame: "hdr ix' = hdr ix \<Longrightarrow> isInvalid ix' = isInvalid ix"
  by (simp add: isInvalid_def fun_eq_iff)

lemma states_wf_frame:
  "same_geometry ix ix' \<Longrightarrow> lmeta ix' = lmeta ix \<Longrightarrow> hdr ix' = hdr ix \<Longrightarrow>
     states_wf ix' = states_wf ix"
  using slotRef_frame [of ix ix'] by (simp add: states_wf_def isInvalid_def same_geometry_inBin)

lemma wf_index_frame:
  "same_geometry ix ix' \<Longrightarrow> lmeta ix' = lmeta ix \<Longrightarrow> hdr ix' = hdr ix \<Longrightarrow> wf_index ix \<Longrightarrow> wf_index ix'"
  unfolding wf_index_def
  using links_wf_frame [of ix ix'] states_wf_frame [of ix ix'] same_geometry_shape [of ix ix']
  by blast

section \<open>Writing one slot state\<close>

text \<open>
  Any header that differs from the old one, in its low half, at slot \<open>i\<close> only: what both
  \<open>setSlotStateAndVersion\<close> and the masking of \<open>markSlotInvalid\<close> produce.
\<close>

lemma writeState_effect:
  assumes wf: "wf_index ix" "inBin ix b" "i < 15"
    and used: "hi \<or> lo \<Longrightarrow> slotRef ix b i \<noteq> None" and not3: "\<not> (hi \<and> lo)"
    and bits: "\<And>j. j < 15 \<Longrightarrow> stHi h' j = (if j = i then hi else stHi (hdr ix b) j)"
      "\<And>j. j < 15 \<Longrightarrow> stLo h' j = (if j = i then lo else stLo (hdr ix b) j)"
      "getBinState h' = getBinState (hdr ix b)"
  obtains ix' where "storeHeader ix b h' = Some ix'"
    "same_frame ix ix'" "lmeta ix' = lmeta ix" "slotRef ix' = slotRef ix" "slotIn ix' = slotIn ix"
    "\<And>r. loadSlot ix' r = loadSlot ix r"
    "\<And>b'. hdr ix' b' = (if b' = b then h' else hdr ix b')"
    "wf_index ix'"
    "\<And>b' j. j < 15 \<Longrightarrow> isValid ix' b' j =
       (if b' = b \<and> j = i then hi \<and> \<not> lo else isValid ix b' j)"
    "\<And>b'. getBinState (hdr ix' b') = getBinState (hdr ix b')"
proof -
  obtain ix' where *: "storeHeader ix b h' = Some ix'" "same_frame ix ix'"
    and h: "\<And>b'. hdr ix' b' = (if b' = b then h' else hdr ix b')"
    and l: "lmeta ix' = lmeta ix" "\<And>r. loadSlot ix' r = loadSlot ix r"
    using storeHeader_effect [OF wf(2)] by metis
  have sg: "same_geometry ix ix'" using *(2) by (rule same_frame_geometry)
  have st: "stHi (hdr ix' b') j = (if b' = b \<and> j = i then hi else stHi (hdr ix b') j)"
    "stLo (hdr ix' b') j = (if b' = b \<and> j = i then lo else stLo (hdr ix b') j)"
    if "j < 15" for b' j
    using that by (auto simp: h bits)
  have "states_wf ix'"
    using wf(1) used not3 sg l(1)
    by (auto simp: wf_index_def states_wf_def isInvalid_def st same_geometry_inBin slotRef_frame
        split: if_splits)
  then have "wf_index ix'"
    using wf(1) links_wf_frame [OF sg l(1)] same_geometry_shape [OF sg]
    by (simp add: wf_index_def)
  moreover have "isValid ix' b' j = (if b' = b \<and> j = i then hi \<and> \<not> lo else isValid ix b' j)"
    if "j < 15" for b' j
    by (auto simp: isValid_def st [OF that])
  moreover have "getBinState (hdr ix' b') = getBinState (hdr ix b')" for b'
    by (simp add: h bits)
  ultimately show ?thesis
    using * l h slotRef_frame [OF sg l(1)] slotIn_frame [OF sg l] by (intro that)
qed

lemma setSlotState_effect:
  assumes "wf_index ix" "inBin ix b" "i < 15" "slotRef ix b i \<noteq> None" "s \<in> {0, 1, 2}"
  obtains ix' where
    "storeHeader ix b (setSlotStateAndVersion (hdr ix b) (int i) s) = Some ix'"
    "same_frame ix ix'" "lmeta ix' = lmeta ix" "slotRef ix' = slotRef ix" "slotIn ix' = slotIn ix"
    "\<And>r. loadSlot ix' r = loadSlot ix r"
    "\<And>b'. hdr ix' b' = (if b' = b then setSlotStateAndVersion (hdr ix b) (int i) s else hdr ix b')"
    "wf_index ix'"
    "\<And>b' j. j < 15 \<Longrightarrow> isValid ix' b' j = (if b' = b \<and> j = i then s = 2 else isValid ix b' j)"
    "\<And>b'. getBinState (hdr ix' b') = getBinState (hdr ix b')"
proof -
  have s: "\<not> (bit s 1 \<and> bit s 0)" "(bit s 1 \<and> \<not> bit s 0) = (s = 2)"
    using assms(5) by (auto simp: bit_3)
  let ?h = "setSlotStateAndVersion (hdr ix b) (int i) s"
  have bits: "stHi ?h j = (if j = i then bit s 1 else stHi (hdr ix b) j)"
    "stLo ?h j = (if j = i then bit s 0 else stLo (hdr ix b) j)" if "j < 15" for j
    using that assms(3) by (simp_all add: stHi_setSlot stLo_setSlot)
  note effect = writeState_effect [OF assms(1-3) assms(4) s(1) bits
      getBinState_setSlot [OF assms(3)], unfolded s(2)]
  show ?thesis by (rule effect, assumption, assumption) (rule that)
qed

lemma clearSlot_bits:
  assumes "i < 15"
  shows "j < 15 \<Longrightarrow> stHi (h AND NOT (push_bit (2 * i) 3)) j = (if j = i then False else stHi h j)"
    and "j < 15 \<Longrightarrow> stLo (h AND NOT (push_bit (2 * i) 3)) j = (if j = i then False else stLo h j)"
    and "getBinState ((h :: 64 word) AND NOT (push_bit (2 * i) 3)) = getBinState h"
proof -
  have odd: "Suc (2 * j) < 2 * i \<or> 2 * i + 2 \<le> Suc (2 * j) \<or> j = i" for j by arith
  have even: "2 * j < 2 * i \<or> 2 * i + 2 \<le> 2 * j \<or> j = i" for j by arith
  show "j < 15 \<Longrightarrow> stHi (h AND NOT (push_bit (2 * i) 3)) j = (if j = i then False else stHi h j)"
    using odd [of j] by (auto simp: bit_simps bit_3)
  show "j < 15 \<Longrightarrow> stLo (h AND NOT (push_bit (2 * i) 3)) j = (if j = i then False else stLo h j)"
    using even [of j] by (auto simp: bit_simps bit_3)
  show "getBinState (h AND NOT (push_bit (2 * i) 3)) = getBinState h"
    using assms by (auto simp: getBinState_eq bit_simps bit_3)
qed

section \<open>Writing one slot\<close>

lemma storeSlotAt_effect:
  assumes "wf_index ix" "inBin ix b" "i < 15" "slotRef ix b i = Some r"
  obtains ix' where "storeSlot ix r s = Some ix'" "same_frame ix ix'" "hdr ix' = hdr ix"
    "lmeta ix' = lmeta ix" "slotRef ix' = slotRef ix" "wf_index ix'"
    "\<And>b' j. inBin ix b' \<Longrightarrow> j < 15 \<Longrightarrow>
       slotIn ix' b' j = (if b' = b \<and> j = i then Some s else slotIn ix b' j)"
proof -
  have wf: "shape ix" "links_wf ix" using assms(1) by (simp_all add: wf_index_def)
  obtain s0 where "loadSlot ix r = Some s0"
    using slotRef_load [OF wf assms(2-4)] by blast
  then obtain ix' where *: "storeSlot ix r s = Some ix'" "same_frame ix ix'"
    "hdr ix' = hdr ix" "lmeta ix' = lmeta ix"
    and ld: "\<And>r'. loadSlot ix' r' = (if r' = r then Some s else loadSlot ix r')"
    using storeSlot_effect by metis
  have sg: "same_geometry ix ix'" using *(2) by (rule same_frame_geometry)
  have sr: "slotRef ix' = slotRef ix" using slotRef_frame [OF sg *(4)] .
  have "slotIn ix' b' j = (if b' = b \<and> j = i then Some s else slotIn ix b' j)"
    if "inBin ix b'" "j < 15" for b' j
  proof (cases "slotRef ix b' j")
    case None
    with assms(4) show ?thesis by (auto simp: slotIn_def sr)
  next
    case (Some r')
    have "r' = r \<longleftrightarrow> b' = b \<and> j = i"
      using slotRef_inj [OF wf(2) that(1) assms(2) that(2) assms(3)] Some assms(4) by auto
    with Some show ?thesis by (simp add: slotIn_def sr ld)
  qed
  with * sr wf_index_frame [OF sg *(4) *(3) assms(1)] show ?thesis by (intro that)
qed

section \<open>The link arena\<close>

definition alloc_ok :: "'v index \<Rightarrow> bool" where
  "alloc_ok ix \<longleftrightarrow>
     unat (linkCapacity ix) \<le> length (links ix) \<and>
     unat (linkNext ix) \<le> unat (linkCapacity ix) \<and>
     (\<forall>b u. inBin ix b \<and> u < 3 \<and> linkAt ix b u \<noteq> 0 \<longrightarrow>
        unat (linkAt ix b u) \<le> unat (linkNext ix) \<or>
        unat (linkCapacity ix) < unat (linkAt ix b u))"

text \<open>The link buckets attached to a bin: one, and a pair.\<close>

definition linkCount :: "'v index \<Rightarrow> 64 word \<Rightarrow> nat" where
  "linkCount ix b = (if linkAt ix b 0 \<noteq> 0 then 1 else 0) + (if linkAt ix b 1 \<noteq> 0 then 2 else 0)"

text \<open>
  Every link bucket that was handed out is attached to a bin. Links are handed out upwards from
  1 to \<open>linkNext\<close> by \<open>Insert\<close>, and downwards from the end of the arena by a resize, which
  ends by setting \<open>linkCapacity\<close> to the last one it took less one and never takes the last
  bucket of the arena.
\<close>

definition linksExact :: "'v index \<Rightarrow> bool" where
  "linksExact ix \<longleftrightarrow> (\<Sum>b | inBin ix b. linkCount ix b) = unat (linkNext ix) +
     (if unat (linkCapacity ix) < length (links ix) then length (links ix) - unat (linkCapacity ix) - 1 else 0)"

lemma sum_upd_one:
  assumes "finite A" "c \<in> A" "\<And>d. d \<in> A \<Longrightarrow> d \<noteq> c \<Longrightarrow> g d = f d"
  shows "sum g A + f c = sum f A + (g c :: nat)"
proof -
  have "sum g (A - {c}) = sum f (A - {c})" by (rule sum.cong) (use assms(3) in auto)
  with assms(1,2) show ?thesis by (simp add: sum.remove [of A c])
qed

lemma linksExact_frame:
  assumes "same_frame ix ix'" "lmeta ix' = lmeta ix"
  shows "linksExact ix' = linksExact ix"
proof -
  have "inBin ix' = inBin ix"
    using same_geometry_inBin [OF same_frame_geometry [OF assms(1)]] by (simp add: fun_eq_iff)
  with assms show ?thesis
    by (simp add: linksExact_def linkCount_def linkAt_def same_frame_def same_geometry_def)
qed

lemma linksExact_attach:
  assumes "same_geometry ix ix'" "linkCapacity ix' = linkCapacity ix" "inBin ix b"
    "\<And>b' u. b' \<noteq> b \<Longrightarrow> linkAt ix' b' u = linkAt ix b' u"
    "linkCount ix' b = linkCount ix b + n" "unat (linkNext ix') = unat (linkNext ix) + n"
    "linksExact ix"
  shows "linksExact ix'"
proof -
  have "inBin ix' = inBin ix" using same_geometry_inBin [OF assms(1)] by (simp add: fun_eq_iff)
  moreover have "(\<Sum>c | inBin ix c. linkCount ix' c) + linkCount ix b =
      (\<Sum>c | inBin ix c. linkCount ix c) + linkCount ix' b"
    by (rule sum_upd_one) (use assms(3,4) in \<open>simp_all add: linkCount_def finite_subset [OF subset_UNIV]\<close>)
  moreover have "length (links ix') = length (links ix)" using assms(1) by (simp add: same_geometry_def)
  ultimately show ?thesis using assms(2,5-7) by (simp add: linksExact_def)
qed

text \<open>\<open>links_extend ix ix'\<close>: nothing but link descriptors changed, and none was detached.\<close>

definition links_extend :: "'v index \<Rightarrow> 'v index \<Rightarrow> bool" where
  "links_extend ix ix' \<longleftrightarrow>
     same_geometry ix ix' \<and> linkCapacity ix' = linkCapacity ix \<and> indexNext ix' = indexNext ix \<and>
     hdr ix' = hdr ix \<and> loadSlot ix' = loadSlot ix \<and>
     (\<forall>b u. linkAt ix b u \<noteq> 0 \<longrightarrow> linkAt ix' b u = linkAt ix b u)"

lemma links_extend_refl [simp]: "links_extend ix ix"
  by (simp add: links_extend_def)

lemma links_extend_slotRef:
  "links_extend ix ix' \<Longrightarrow> slotRef ix b i = Some r \<Longrightarrow> slotRef ix' b i = Some r"
  by (auto simp: slotRef_alt links_extend_def same_geometry_inBin split: if_splits)

lemma links_extend_view:
  assumes "links_extend ix ix'" "states_wf ix" "inBin ix b"
  shows "view ix' b i = view ix b i"
proof -
  have v: "isValid ix' = isValid ix" "loadSlot ix' = loadSlot ix"
    using assms(1) by (simp_all add: links_extend_def isValid_def fun_eq_iff)
  show ?thesis
  proof (cases "i < 15 \<and> isValid ix b i")
    case True
    then have "slotRef ix b i \<noteq> None"
      using assms(2,3) by (auto simp: states_wf_def isValid_def isInvalid_def)
    then obtain r where r: "slotRef ix b i = Some r" by blast
    then have "slotRef ix' b i = Some r" by (rule links_extend_slotRef [OF assms(1)])
    with r show ?thesis by (simp add: view_def slotIn_def v)
  next
    case False
    then show ?thesis by (auto simp: view_def v)
  qed
qed

lemma linkAt_simps:
  "linkAt ix b 0 = getSingle (lmeta ix b)" "linkAt ix b (Suc 0) = getPairStart (lmeta ix b)"
  "linkAt ix b 2 = (if getPairStart (lmeta ix b) = 0 then 0 else getPairStart (lmeta ix b) + 1)"
  by (simp_all add: linkAt_def resolveLink_def Let_def)

lemma ex_less_3: "u < (3::nat) \<longleftrightarrow> u = 0 \<or> u = Suc 0 \<or> u = 2"
  by arith

lemma less_3_cases: "(\<forall>u<3. P u) \<longleftrightarrow> P 0 \<and> P (Suc 0) \<and> P (2::nat)"
  by (auto simp: ex_less_3)

text \<open>Attaching one link, or a pair, that no bin uses yet.\<close>

lemma attach_wf:
  assumes wf: "wf_index ix" and b: "inBin ix b" and ext: "links_extend ix ix'"
    and other: "\<And>b' u. b' \<noteq> b \<Longrightarrow> linkAt ix' b' u = linkAt ix b' u"
    and bound: "\<And>u. u < 3 \<Longrightarrow> unat (linkAt ix' b u) \<le> length (links ix)"
    and fresh: "\<And>u b' u'. u < 3 \<Longrightarrow> u' < 3 \<Longrightarrow> inBin ix b' \<Longrightarrow> linkAt ix' b u \<noteq> linkAt ix b u \<Longrightarrow>
       linkAt ix' b u \<noteq> linkAt ix b' u'"
    and own: "\<And>u u'. u < 3 \<Longrightarrow> u' < 3 \<Longrightarrow> linkAt ix' b u \<noteq> linkAt ix b u \<Longrightarrow>
       linkAt ix' b u' \<noteq> linkAt ix b u' \<Longrightarrow> linkAt ix' b u = linkAt ix' b u' \<Longrightarrow> u = u'"
    and order: "linkAt ix' b 1 \<noteq> 0 \<Longrightarrow> linkAt ix' b 0 \<noteq> 0 \<and> linkAt ix' b 2 \<noteq> 0"
  shows "wf_index ix'"
proof -
  have sg: "same_geometry ix ix'" and h: "hdr ix' = hdr ix"
    using ext by (simp_all add: links_extend_def)
  have len: "length (links ix') = length (links ix)" using sg by (simp add: same_geometry_def)
  have lw: "links_wf ix" using wf by (simp add: wf_index_def)
  have keep: "linkAt ix b u = 0 \<or> linkAt ix' b u = linkAt ix b u" for u
    using ext by (auto simp: links_extend_def)
  have "links_wf ix'"
    unfolding links_wf_def same_geometry_inBin [OF sg] len
  proof (intro conjI allI impI; elim conjE)
    fix b' u assume "inBin ix b'" "u < (3::nat)"
    then show "unat (linkAt ix' b' u) \<le> length (links ix)"
      using bound other lw by (cases "b' = b") (auto simp: links_wf_def)
  next
    fix b1 b2 u1 u2
    assume a: "inBin ix b1" "inBin ix b2" "u1 < 3" "u2 < 3" "linkAt ix' b1 u1 \<noteq> 0"
      "linkAt ix' b1 u1 = linkAt ix' b2 u2"
    let ?new = "\<lambda>b' u. b' = b \<and> linkAt ix' b u \<noteq> linkAt ix b u"
    have old: "linkAt ix' b' u = linkAt ix b' u" if "\<not> ?new b' u" for b' u
      using that other [of b' u] by metis
    have "b1 = b2 \<and> u1 = u2"
    proof (cases "?new b1 u1"; cases "?new b2 u2")
      assume "?new b1 u1" "?new b2 u2"
      then show ?thesis using own [OF a(3,4)] a(6) by simp
    next
      assume "?new b1 u1" "\<not> ?new b2 u2"
      then show ?thesis using fresh [OF a(3,4,2)] a(6) old by metis
    next
      assume "\<not> ?new b1 u1" "?new b2 u2"
      then show ?thesis using fresh [OF a(4,3,1)] a(6) old by metis
    next
      assume "\<not> ?new b1 u1" "\<not> ?new b2 u2"
      then have "linkAt ix b1 u1 \<noteq> 0" "linkAt ix b1 u1 = linkAt ix b2 u2" using a old by metis+
      then show ?thesis using lw a(1-4) unfolding links_wf_def by blast
    qed
    then show "b1 = b2" "u1 = u2" by simp_all
  next
    fix b' assume "inBin ix b'" "linkAt ix' b' 1 \<noteq> 0"
    then show "linkAt ix' b' 0 \<noteq> 0" "linkAt ix' b' 2 \<noteq> 0"
      using order other lw by (cases "b' = b"; auto simp: links_wf_def)+
  qed
  moreover have "states_wf ix'"
    using wf links_extend_slotRef [OF ext]
    by (auto simp: wf_index_def states_wf_def same_geometry_inBin [OF sg] h isInvalid_def)
      (metis not_None_eq)+
  ultimately show ?thesis using wf same_geometry_shape [OF sg] by (simp add: wf_index_def)
qed

lemma linkNext_update:
  "same_geometry ix (ix\<lparr>linkNext := n\<rparr>)" "hdr (ix\<lparr>linkNext := n\<rparr>) = hdr ix"
  "lmeta (ix\<lparr>linkNext := n\<rparr>) = lmeta ix" "inBin (ix\<lparr>linkNext := n\<rparr>) = inBin ix"
  "loadSlot (ix\<lparr>linkNext := n\<rparr>) = loadSlot ix" "linkAt (ix\<lparr>linkNext := n\<rparr>) = linkAt ix"
proof -
  show "loadSlot (ix\<lparr>linkNext := n\<rparr>) = loadSlot ix"
  proof
    show "loadSlot (ix\<lparr>linkNext := n\<rparr>) r = loadSlot ix r" for r
      by (cases r) (simp_all add: getBinByIndex_def getLinkBucket_def)
  qed
qed (simp_all add: same_geometry_def shape_def hdr_def lmeta_def inBin_def linkAt_def fun_eq_iff)

lemma attachSingle_loop_new:
  assumes "inBin ix b" "getSingle (lmeta ix b) = 0"
  obtains ix' where "attachSingle_loop ix b l = Some (l, ix')" "same_frame ix ix'"
    "\<And>b'. lmeta ix' b' = (if b' = b then setSingle (lmeta ix b) l else lmeta ix b')"
    "hdr ix' = hdr ix" "loadSlot ix' = loadSlot ix"
proof -
  obtain ix' where "storeLinkMeta ix b (setSingle (lmeta ix b) l) = Some ix'" "same_frame ix ix'"
    "\<And>b'. lmeta ix' b' = (if b' = b then setSingle (lmeta ix b) l else lmeta ix b')"
    "hdr ix' = hdr ix" "\<And>r. loadSlot ix' r = loadSlot ix r"
    using storeLinkMeta_effect [OF assms(1)] by metis
  then show ?thesis
    using assms
    by (intro that)
      (auto simp: attachSingle_loop.simps [of ix] atomicCASLinkMeta_def lmeta_def Let_def fun_eq_iff)
qed

lemma attachPair_loop_new:
  assumes "inBin ix b" "getPairStart (lmeta ix b) = 0"
  obtains ix' where "attachPair_loop ix b l = Some (l, ix')" "same_frame ix ix'"
    "\<And>b'. lmeta ix' b' = (if b' = b then setPairStart (lmeta ix b) l else lmeta ix b')"
    "hdr ix' = hdr ix" "loadSlot ix' = loadSlot ix"
proof -
  obtain ix' where "storeLinkMeta ix b (setPairStart (lmeta ix b) l) = Some ix'" "same_frame ix ix'"
    "\<And>b'. lmeta ix' b' = (if b' = b then setPairStart (lmeta ix b) l else lmeta ix b')"
    "hdr ix' = hdr ix" "\<And>r. loadSlot ix' r = loadSlot ix r"
    using storeLinkMeta_effect [OF assms(1)] by metis
  then show ?thesis
    using assms
    by (intro that)
      (auto simp: attachPair_loop.simps [of ix] atomicCASLinkMeta_def lmeta_def Let_def fun_eq_iff)
qed

lemma alloc_bounds:
  assumes "wf_index ix" "alloc_ok ix"
  shows "unat (linkNext ix + 1) = unat (linkNext ix) + 1" "unat (linkNext ix + 2) = unat (linkNext ix) + 2"
    "unat (linkCapacity ix) \<le> 2 ^ 30"
proof -
  have "length (links ix) \<le> 2 ^ 30"
    using assms(1) shape_length_links [of ix] unfolding wf_index_def by blast
  with assms(2) have c: "unat (linkCapacity ix) \<le> 2 ^ 30" "unat (linkNext ix) \<le> 2 ^ 30"
    by (simp_all add: alloc_ok_def)
  then show "unat (linkCapacity ix) \<le> 2 ^ 30" by simp
  from c(2) show "unat (linkNext ix + 1) = unat (linkNext ix) + 1"
    "unat (linkNext ix + 2) = unat (linkNext ix) + 2"
    by (simp_all add: unat_word_ariths)
qed

lemma alloc_fresh:
  assumes "alloc_ok ix" "inBin ix b" "u < 3"
    "unat (linkNext ix) < unat l" "unat l \<le> unat (linkCapacity ix)"
  shows "linkAt ix b u \<noteq> l"
proof
  assume eq: "linkAt ix b u = l"
  then have "linkAt ix b u \<noteq> 0" using assms(4) by (auto simp: unat_eq_0)
  with assms(1-3) have "unat l \<le> unat (linkNext ix) \<or> unat (linkCapacity ix) < unat l"
    unfolding alloc_ok_def eq [symmetric] by blast
  with assms(4,5) show False by simp
qed

lemma alloc_ok_extend:
  assumes "alloc_ok ix" "same_geometry ix ix'" "linkCapacity ix' = linkCapacity ix"
    "unat (linkNext ix) \<le> unat (linkNext ix')" "unat (linkNext ix') \<le> unat (linkCapacity ix)"
    "\<And>b u. inBin ix b \<Longrightarrow> u < 3 \<Longrightarrow>
       linkAt ix' b u = linkAt ix b u \<or> unat (linkAt ix' b u) \<le> unat (linkNext ix')"
  shows "alloc_ok ix'"
  unfolding alloc_ok_def
proof (intro conjI allI impI; (elim conjE)?)
  fix b u assume "inBin ix' b" "u < (3::nat)" "linkAt ix' b u \<noteq> 0"
  then have b: "inBin ix b" using assms(2) by (simp add: same_geometry_inBin)
  show "unat (linkAt ix' b u) \<le> unat (linkNext ix') \<or> unat (linkCapacity ix') < unat (linkAt ix' b u)"
  proof (cases "linkAt ix' b u = linkAt ix b u")
    case True
    then have "unat (linkAt ix' b u) \<le> unat (linkNext ix) \<or>
        unat (linkCapacity ix) < unat (linkAt ix' b u)"
      using assms(1) b \<open>u < 3\<close> \<open>linkAt ix' b u \<noteq> 0\<close> unfolding alloc_ok_def by metis
    then show ?thesis using assms(3,4) by auto
  next
    case False
    then show ?thesis using assms(6) [OF b \<open>u < 3\<close>] by blast
  qed
qed (use assms in \<open>simp_all add: alloc_ok_def same_geometry_def\<close>)

lemma attachSingle_spec:
  assumes wf: "wf_index ix" and al: "alloc_ok ix" and b: "inBin ix b"
    and none: "getSingle (lmeta ix b) = 0"
  obtains l ix' where "attachSingle ix b = Some (l, ix')" "links_extend ix ix'" "wf_index ix'"
    "l \<noteq> 0 \<Longrightarrow> alloc_ok ix' \<and> lmeta ix' b = setSingle (lmeta ix b) l"
    "l = 0 \<longleftrightarrow> linkNext ix = linkCapacity ix" "l \<noteq> 0 \<Longrightarrow> linksExact ix \<Longrightarrow> linksExact ix'"
proof -
  let ?start = "linkNext ix + 1"
  let ?ix = "ix\<lparr>linkNext := ?start\<rparr>"
  note ab = alloc_bounds [OF wf al]
  have cap: "unat (linkCapacity ix) \<le> length (links ix)" "unat (linkNext ix) \<le> unat (linkCapacity ix)"
    using al by (simp_all add: alloc_ok_def)
  have pair0: "getPairStart (lmeta ix b) = 0"
    using wf b none by (force simp: wf_index_def links_wf_def linkAt_simps)
  show ?thesis
  proof (cases "linkNext ix = linkCapacity ix")
    case True
    then have "?start > linkCapacity ix" using ab by (simp add: word_less_nat_alt)
    then have "attachSingle ix b = Some (0, ?ix)"
      by (simp add: attachSingle_def allocateLink_def Let_def)
    moreover have "links_extend ix ?ix" by (simp add: links_extend_def linkNext_update)
    moreover have "wf_index ?ix" using linkNext_update(1,3,2) wf by (rule wf_index_frame)
    ultimately show ?thesis using True by (intro that [of 0 ?ix]) simp_all
  next
    case False
    then have lt: "unat (linkNext ix) < unat (linkCapacity ix)"
      using cap(2) by (metis le_neq_implies_less unat_inject)
    have start: "\<not> ?start > linkCapacity ix" "?start \<noteq> 0"
      using lt ab by (auto simp: word_less_nat_alt unat_eq_0 [symmetric])
    obtain ix' where at: "attachSingle_loop ?ix b ?start = Some (?start, ix')"
      and sf: "same_frame ?ix ix'"
      and lm: "\<And>b'. lmeta ix' b' = (if b' = b then setSingle (lmeta ix b) ?start else lmeta ix b')"
      and hl: "hdr ix' = hdr ix" "loadSlot ix' = loadSlot ix"
      using attachSingle_loop_new [of ?ix b ?start, unfolded linkNext_update, OF b none] by metis
    have at': "attachSingle ix b = Some (?start, ix')"
      using start at by (simp add: attachSingle_def allocateLink_def Let_def)
    have lk: "linkAt ix' b' u = (if b' = b \<and> u = 0 then ?start else linkAt ix b' u)" for b' u
      by (cases "u = 0") (auto simp: linkAt_def resolveLink_def lm link_simps Let_def)
    have sg: "same_geometry ix ix'"
      using linkNext_update(1) same_frame_geometry [OF sf] by (rule same_geometry_trans)
    have cp: "linkCapacity ix' = linkCapacity ix" "indexNext ix' = indexNext ix" "linkNext ix' = ?start"
      using sf by (simp_all add: same_frame_def)
    have ext: "links_extend ix ix'"
      using sg cp hl none by (auto simp: links_extend_def lk linkAt_simps)
    have old: "linkAt ix b' u \<noteq> ?start" if "inBin ix b'" "u < 3" for b' u
      using al that by (rule alloc_fresh) (use lt ab in simp_all)
    have "wf_index ix'"
    proof (rule attach_wf [OF wf b ext])
      show "unat (linkAt ix' b u) \<le> length (links ix)" if "u < 3" for u
        using wf b that lt ab cap unfolding wf_index_def links_wf_def by (auto simp: lk)
      show "linkAt ix' b u \<noteq> linkAt ix b' u'"
        if "u' < 3" "inBin ix b'" "linkAt ix' b u \<noteq> linkAt ix b u" for u b' u'
        using that(3) old [OF that(2,1)] by (auto simp: lk split: if_splits)
      show "linkAt ix' b 0 \<noteq> 0 \<and> linkAt ix' b 2 \<noteq> 0" if "linkAt ix' b 1 \<noteq> 0"
        using that pair0 by (simp add: lk linkAt_simps(2) [of ix])
    qed (auto simp: lk split: if_splits)
    moreover have "alloc_ok ix'"
      by (rule alloc_ok_extend [OF al sg cp(1)]) (use lt ab cp in \<open>auto simp: lk\<close>)
    moreover have "linkCount ix' b = linkCount ix b + 1"
      using start(2) none by (simp add: linkCount_def lk linkAt_simps(1) [of ix])
    then have "linksExact ix'" if "linksExact ix"
      by (rule linksExact_attach [OF sg cp(1) b, rotated]) (use that cp(3) ab in \<open>simp_all add: lk\<close>)
    ultimately show ?thesis using at' ext lm [of b] start False by (intro that) simp_all
  qed
qed

lemma attachPair_spec:
  assumes wf: "wf_index ix" and al: "alloc_ok ix" and b: "inBin ix b"
    and single: "getSingle (lmeta ix b) \<noteq> 0" and none: "getPairStart (lmeta ix b) = 0"
  obtains l ix' where "attachPair ix b = Some (l, ix')" "links_extend ix ix'" "wf_index ix'"
    "l \<noteq> 0 \<Longrightarrow> alloc_ok ix' \<and> lmeta ix' b = setPairStart (lmeta ix b) l"
    "l = 0 \<longleftrightarrow> unat (linkCapacity ix) < unat (linkNext ix) + 2" "l \<noteq> 0 \<Longrightarrow> linksExact ix \<Longrightarrow> linksExact ix'"
proof -
  let ?start = "linkNext ix + 2 - 1"
  let ?ix = "ix\<lparr>linkNext := linkNext ix + 2\<rparr>"
  note ab = alloc_bounds [OF wf al]
  have cap: "unat (linkCapacity ix) \<le> length (links ix)" "unat (linkNext ix) \<le> unat (linkCapacity ix)"
    using al by (simp_all add: alloc_ok_def)
  have eq: "?start = linkNext ix + 1" by simp
  have st: "unat ?start = unat (linkNext ix) + 1" "unat (?start + 1) = unat (linkNext ix) + 2"
    using ab by (simp_all add: eq add.assoc)
  show ?thesis
  proof (cases "unat (linkCapacity ix) < unat (linkNext ix) + 2")
    case True
    then have "?start + 1 > linkCapacity ix" using st by (simp add: word_less_nat_alt)
    then have "attachPair ix b = Some (0, ?ix)"
      by (simp add: attachPair_def allocateLinkPair_def Let_def)
    moreover have "links_extend ix ?ix" by (simp add: links_extend_def linkNext_update)
    moreover have "wf_index ?ix" using linkNext_update(1,3,2) wf by (rule wf_index_frame)
    ultimately show ?thesis using True by (intro that [of 0 ?ix]) simp_all
  next
    case False
    have start: "\<not> ?start + 1 > linkCapacity ix" "?start \<noteq> 0" "?start + 1 \<noteq> 0"
      using False st by (auto simp: word_less_nat_alt simp flip: unat_eq_0)
    obtain ix' where at: "attachPair_loop ?ix b ?start = Some (?start, ix')"
      and sf: "same_frame ?ix ix'"
      and lm: "\<And>b'. lmeta ix' b' = (if b' = b then setPairStart (lmeta ix b) ?start else lmeta ix b')"
      and hl: "hdr ix' = hdr ix" "loadSlot ix' = loadSlot ix"
      using attachPair_loop_new [of ?ix b ?start, unfolded linkNext_update, OF b none] by metis
    have at': "attachPair ix b = Some (?start, ix')"
      using start at by (simp add: attachPair_def allocateLinkPair_def Let_def)
    have lk: "linkAt ix' b' u =
        (if b' = b \<and> u = 1 then ?start else if b' = b \<and> u = 2 then ?start + 1 else linkAt ix b' u)"
      for b' u
      using start by (auto simp: linkAt_def resolveLink_def lm link_simps Let_def)
    have sg: "same_geometry ix ix'"
      using linkNext_update(1) same_frame_geometry [OF sf] by (rule same_geometry_trans)
    have cp: "linkCapacity ix' = linkCapacity ix" "indexNext ix' = indexNext ix"
      "linkNext ix' = linkNext ix + 2"
      using sf by (simp_all add: same_frame_def)
    have ext: "links_extend ix ix'"
      using sg cp hl none by (auto simp: links_extend_def lk linkAt_simps)
    have old: "linkAt ix b' u \<noteq> ?start" "linkAt ix b' u \<noteq> ?start + 1"
      if "inBin ix b'" "u < 3" for b' u
      using alloc_fresh [OF al that, of ?start] alloc_fresh [OF al that, of "?start + 1"] st False
      by linarith+
    have "wf_index ix'"
    proof (rule attach_wf [OF wf b ext])
      show "unat (linkAt ix' b u) \<le> length (links ix)" if "u < 3" for u
        using wf b that False st cap unfolding wf_index_def links_wf_def
        by (auto simp: lk simp del: diff_add_cancel)
      show "linkAt ix' b u \<noteq> linkAt ix b' u'"
        if "u' < 3" "inBin ix b'" "linkAt ix' b u \<noteq> linkAt ix b u" for u b' u'
        using that(3) old [OF that(2,1)] by (auto simp: lk simp del: diff_add_cancel split: if_splits)
      show "linkAt ix' b 0 \<noteq> 0 \<and> linkAt ix' b 2 \<noteq> 0" if "linkAt ix' b 1 \<noteq> 0"
        using start single by (simp add: lk linkAt_simps(1) [of ix] del: diff_add_cancel)
      show "u = u'" if "u < 3" "u' < 3" "linkAt ix' b u \<noteq> linkAt ix b u"
        "linkAt ix' b u' \<noteq> linkAt ix b u'" "linkAt ix' b u = linkAt ix' b u'" for u u'
        using that by (auto simp: lk simp del: diff_add_cancel split: if_splits)
    qed (simp_all add: lk)
    moreover have "alloc_ok ix'"
      by (rule alloc_ok_extend [OF al sg cp(1)])
        (use False ab st cp in \<open>auto simp: lk simp del: diff_add_cancel\<close>)
    moreover have "linkCount ix' b = linkCount ix b + 2"
      using start(2) none by (simp add: linkCount_def lk linkAt_simps(2) [of ix] del: diff_add_cancel)
    then have "linksExact ix'" if "linksExact ix"
      by (rule linksExact_attach [OF sg cp(1) b, rotated]) (use that cp(3) ab in \<open>simp_all add: lk\<close>)
    ultimately show ?thesis using at' ext lm [of b] start False by (intro that) simp_all
  qed
qed

section \<open>Choosing a free slot\<close>

lemma lowestSlot_spread4:
  assumes "spread [a, b, c, d] \<noteq> 0"
  obtains j where "j < 4" "lowestSlot (spread [a, b, c, d]) = int j" "[a, b, c, d] ! j"
proof
  let ?j = "if a then 0 else if b then 1 else if c then 2 else (3::nat)"
  have "a \<or> b \<or> c \<or> d" using assms by (auto simp: spread4_eq_0 simp del: spread.simps)
  then show "lowestSlot (spread [a, b, c, d]) = int ?j" "[a, b, c, d] ! ?j"
    unfolding lowestSlot_def trailing_spread4 [OF \<open>a \<or> b \<or> c \<or> d\<close>] by auto
qed simp

lemma lowestSlot_spread3:
  assumes "spread [a, b, c] \<noteq> 0"
  obtains j where "j < 3" "lowestSlot (spread [a, b, c]) = int j" "[a, b, c] ! j"
proof
  let ?j = "if a then 0 else if b then 1 else (2::nat)"
  have "a \<or> b \<or> c" using assms by (auto simp: spread3_eq_0 simp del: spread.simps)
  then show "lowestSlot (spread [a, b, c]) = int ?j" "[a, b, c] ! ?j"
    unfolding lowestSlot_def trailing_spread3 [OF \<open>a \<or> b \<or> c\<close>] by auto
qed simp

lemma invalidMask3_lowest:
  assumes "invalidMask3 h \<noteq> 0"
  obtains j where "j < 3" "lowestSlot (invalidMask3 h) = int j" "\<not> stHi h j" "\<not> stLo h j"
proof -
  obtain j where "j < 3" "lowestSlot (invalidMask3 h) = int j"
    "[\<not> stHi h 0 \<and> \<not> stLo h 0, \<not> stHi h 1 \<and> \<not> stLo h 1, \<not> stHi h 2 \<and> \<not> stLo h 2] ! j"
    using assms unfolding invalidMask3_spread by (rule lowestSlot_spread3)
  then show ?thesis by (intro that) (auto simp: ex_less_3)
qed

lemma invalidMask3_0: "invalidMask3 h = 0 \<longleftrightarrow> (\<forall>j<3. stHi h j \<or> stLo h j)"
  unfolding invalidMask3_spread spread3_eq_0 by (simp add: less_3_cases)

lemma nth4: "j < 4 \<Longrightarrow> [P 0, P 1, P 2, P 3] ! j = P (j::nat)"
  by (auto simp: numeral_eq_Suc less_Suc_eq)

lemma invalidMask4_lowest:
  assumes "base = 3 \<or> base = 7 \<or> base = 11" "invalidMask4 h base \<noteq> 0"
  obtains j where "base \<le> j" "j < base + 4" "int base + lowestSlot (invalidMask4 h base) = int j"
    "\<not> stHi h j" "\<not> stLo h j"
proof -
  let ?P = "\<lambda>i. \<not> stHi h (base + i) \<and> \<not> stLo h (base + i)"
  have eq: "invalidMask4 h base = spread [?P 0, ?P 1, ?P 2, ?P 3]"
    unfolding invalidMask4_spread [OF assms(1)] by simp
  obtain j where j: "j < 4" "lowestSlot (invalidMask4 h base) = int j" "[?P 0, ?P 1, ?P 2, ?P 3] ! j"
    using assms(2) unfolding eq by (rule lowestSlot_spread4)
  from j(3) have "?P j" unfolding nth4 [OF j(1), of ?P] .
  with j show ?thesis by (intro that [of "base + j"]) auto
qed

lemma invalidMask4_0:
  assumes "base = 3 \<or> base = 7 \<or> base = 11" "invalidMask4 h base = 0" "base \<le> j" "j < base + 4"
  shows "stHi h j \<or> stLo h j"
proof -
  have "j = base \<or> j = base + 1 \<or> j = base + 2 \<or> j = base + 3" using assms(3,4) by arith
  with assms(2) show ?thesis
    unfolding invalidMask4_spread [OF assms(1)] spread4_eq_0 by metis
qed

lemma chooseInsertSlot_spec:
  assumes wf: "wf_index ix" and al: "alloc_ok ix" and b: "inBin ix b"
  obtains i ix' where "chooseInsertSlot ix b = Some (i, ix')" "links_extend ix ix'" "wf_index ix'"
    "i < 0 \<Longrightarrow> \<forall>j<3. \<not> isInvalid ix b j"
    "0 \<le> i \<Longrightarrow> \<exists>j<15. i = int j \<and> isInvalid ix b j \<and> slotRef ix' b j \<noteq> None \<and> alloc_ok ix' \<and>
       (linksExact ix \<longrightarrow> linksExact ix')"
proof -
  let ?h = "hdr ix b" and ?lm = "lmeta ix b"
  have hl: "Header (bins ix ! unat b) = ?h" "LinkMeta (bins ix ! unat b) = ?lm"
    by (simp_all add: hdr_def lmeta_def)
  have lw: "links_wf ix" "states_wf ix" using wf by (simp_all add: wf_index_def)
  have pair_single: "getPairStart ?lm \<noteq> 0 \<Longrightarrow> getSingle ?lm \<noteq> 0 \<and> linkAt ix b 2 \<noteq> 0"
    using lw(1) b by (force simp: links_wf_def linkAt_simps)
  have unattached: "isInvalid ix b j" if "slotRef ix b j = None" "j < 15" for j
    using lw(2) b that by (auto simp: states_wf_def)
  have full3: "\<forall>j<3. \<not> isInvalid ix b j" if "invalidMask3 ?h = 0"
    using that by (auto simp: invalidMask3_0 isInvalid_def)
  note choose = chooseInsertSlot_def getBinByIndex_in [OF b] hl Let_def
  consider (prim) "invalidMask3 ?h \<noteq> 0"
    | (single) "invalidMask3 ?h = 0" "getSingle ?lm \<noteq> 0" "invalidMask4 ?h 3 \<noteq> 0"
    | (pair0) "invalidMask3 ?h = 0" "\<not> (getSingle ?lm \<noteq> 0 \<and> invalidMask4 ?h 3 \<noteq> 0)"
        "getPairStart ?lm \<noteq> 0" "invalidMask4 ?h 7 \<noteq> 0"
    | (pair1) "invalidMask3 ?h = 0" "\<not> (getSingle ?lm \<noteq> 0 \<and> invalidMask4 ?h 3 \<noteq> 0)"
        "getPairStart ?lm \<noteq> 0" "invalidMask4 ?h 7 = 0" "invalidMask4 ?h 11 \<noteq> 0"
    | (noSingle) "invalidMask3 ?h = 0" "getSingle ?lm = 0"
    | (noPair) "invalidMask3 ?h = 0" "getSingle ?lm \<noteq> 0" "invalidMask4 ?h 3 = 0" "getPairStart ?lm = 0"
    | (full) "invalidMask3 ?h = 0" "getSingle ?lm \<noteq> 0" "invalidMask4 ?h 3 = 0"
        "getPairStart ?lm \<noteq> 0" "invalidMask4 ?h 7 = 0" "invalidMask4 ?h 11 = 0"
    by blast
  then show ?thesis
  proof cases
    case prim
    then obtain j where "j < 3" "lowestSlot (invalidMask3 ?h) = int j" "\<not> stHi ?h j" "\<not> stLo ?h j"
      by (rule invalidMask3_lowest)
    with prim wf al show ?thesis
      by (intro that [of "int j" ix]) (auto simp: choose isInvalid_def slotRef_primary)
  next
    case single
    then obtain j where "3 \<le> j" "j < 3 + 4" "int 3 + lowestSlot (invalidMask4 ?h 3) = int j"
      "\<not> stHi ?h j" "\<not> stLo ?h j" using invalidMask4_lowest [of 3 ?h] by blast
    with single wf al b show ?thesis
      by (intro that [of "int j" ix])
        (auto simp: choose isInvalid_def slotRef_link linkAt_simps div_eq_0_iff)
  next
    case pair0
    then obtain j where j: "7 \<le> j" "j < 7 + 4" "int 7 + lowestSlot (invalidMask4 ?h 7) = int j"
      "\<not> stHi ?h j" "\<not> stLo ?h j" using invalidMask4_lowest [of 7 ?h] by blast
    then have "(j - 3) div 4 = Suc 0" by presburger
    with j pair0 wf al b show ?thesis
      by (intro that [of "int j" ix])
        (auto simp: choose isInvalid_def slotRef_link linkAt_simps)
  next
    case pair1
    then obtain j where j: "11 \<le> j" "j < 11 + 4" "int 11 + lowestSlot (invalidMask4 ?h 11) = int j"
      "\<not> stHi ?h j" "\<not> stLo ?h j" using invalidMask4_lowest [of 11 ?h] by blast
    then have "(j - 3) div 4 = 2" by presburger
    with j pair1 wf al b pair_single show ?thesis
      by (intro that [of "int j" ix]) (auto simp: choose isInvalid_def slotRef_link)
  next
    case noSingle
    obtain l ix' where at: "attachSingle ix b = Some (l, ix')" "links_extend ix ix'" "wf_index ix'"
      and ok: "l \<noteq> 0 \<Longrightarrow> alloc_ok ix' \<and> lmeta ix' b = setSingle ?lm l"
      and ex: "l \<noteq> 0 \<Longrightarrow> linksExact ix \<Longrightarrow> linksExact ix'"
      using attachSingle_spec [OF wf al b noSingle(2)] by metis
    have b': "inBin ix' b" using at(2) b same_geometry_inBin [of ix ix' b] by (simp add: links_extend_def)
    have "slotRef ix b 3 = None" using noSingle b by (simp add: slotRef_link linkAt_simps)
    then have inv: "isInvalid ix b 3" by (rule unattached) simp
    have p0: "getPairStart ?lm = 0" using pair_single noSingle by blast
    show ?thesis
    proof (rule that [of "if l \<noteq> 0 then 3 else -1" ix'])
      show "chooseInsertSlot ix b = Some (if l \<noteq> 0 then 3 else - 1, ix')"
        using noSingle p0 at(1) by (simp add: choose)
      show "\<exists>j<15. (if l \<noteq> 0 then 3 else - 1) = int j \<and> isInvalid ix b j \<and> slotRef ix' b j \<noteq> None \<and> alloc_ok ix' \<and>
          (linksExact ix \<longrightarrow> linksExact ix')"
        if "0 \<le> (if l \<noteq> 0 then 3 else - 1 :: int)"
        using that ok ex inv b'
        by (intro exI [of _ 3]) (auto simp: slotRef_link linkAt_simps link_simps split: if_splits)
    qed (use at full3 noSingle(1) in auto)
  next
    case noPair
    obtain l ix' where at: "attachPair ix b = Some (l, ix')" "links_extend ix ix'" "wf_index ix'"
      and ok: "l \<noteq> 0 \<Longrightarrow> alloc_ok ix' \<and> lmeta ix' b = setPairStart ?lm l"
      and ex: "l \<noteq> 0 \<Longrightarrow> linksExact ix \<Longrightarrow> linksExact ix'"
      using attachPair_spec [OF wf al b noPair(2,4)] by metis
    have b': "inBin ix' b" using at(2) b same_geometry_inBin [of ix ix' b] by (simp add: links_extend_def)
    have "slotRef ix b 7 = None" using noPair b by (simp add: slotRef_link linkAt_simps)
    then have inv: "isInvalid ix b 7" by (rule unattached) simp
    show ?thesis
    proof (rule that [of "if l \<noteq> 0 then 7 else -1" ix'])
      show "chooseInsertSlot ix b = Some (if l \<noteq> 0 then 7 else - 1, ix')"
        using noPair at(1) by (simp add: choose)
      show "\<exists>j<15. (if l \<noteq> 0 then 7 else - 1) = int j \<and> isInvalid ix b j \<and> slotRef ix' b j \<noteq> None \<and> alloc_ok ix' \<and>
          (linksExact ix \<longrightarrow> linksExact ix')"
        if "0 \<le> (if l \<noteq> 0 then 7 else - 1 :: int)"
        using that ok ex inv b'
        by (intro exI [of _ 7]) (auto simp: slotRef_link linkAt_simps link_simps split: if_splits)
    qed (use at full3 noPair(1) in auto)
  next
    case full
    with wf full3 show ?thesis by (intro that [of "-1" ix]) (auto simp: choose)
  qed
qed

end
