(* ===== verification/ChooseSlot.thy ===== *)
theory ChooseSlot
  imports BinOps
begin

text \<open>
  Which slot \<open>chooseInsertSlot\<close> (index.go) takes: the first free one in the order primary
  bucket, single link, first and second bucket of the pair, and where none is free the first
  slot of a bucket it attaches; -1 only where nothing can be attached.
\<close>

text \<open>A slot \<open>Insert\<close> may take without attaching a bucket.\<close>

definition openSlot :: "'v index \<Rightarrow> 64 word \<Rightarrow> nat \<Rightarrow> bool" where
  "openSlot ix b j \<longleftrightarrow> j < 15 \<and> isInvalid ix b j \<and> slotRef ix b j \<noteq> None"

lemma lowest3:
  assumes "invalidMask3 h \<noteq> 0"
  obtains j where "j < 3" "lowestSlot (invalidMask3 h) = int j" "\<not> stHi h j" "\<not> stLo h j"
    "\<And>k. k < j \<Longrightarrow> stHi h k \<or> stLo h k"
proof -
  let ?P = "\<lambda>i. \<not> stHi h i \<and> \<not> stLo h i"
  have e: "?P 0 \<or> ?P 1 \<or> ?P 2"
    using assms unfolding invalidMask3_spread by (auto simp: spread3_eq_0 simp del: spread.simps)
  have "lowestSlot (invalidMask3 h) = int (if ?P 0 then 0 else if ?P 1 then 1 else 2)"
    unfolding invalidMask3_spread lowestSlot_def trailing_spread3 [OF e] ..
  then show ?thesis using e
    by (intro that [of "if ?P 0 then 0 else if ?P 1 then 1 else 2"])
      (auto simp: numeral_eq_Suc less_Suc_eq split: if_splits)
qed

lemma lowest4:
  assumes "base = 3 \<or> base = 7 \<or> base = 11" "invalidMask4 h base \<noteq> 0"
  obtains j where "base \<le> j" "j < base + 4" "int base + lowestSlot (invalidMask4 h base) = int j"
    "\<not> stHi h j" "\<not> stLo h j" "\<And>k. base \<le> k \<Longrightarrow> k < j \<Longrightarrow> stHi h k \<or> stLo h k"
proof -
  let ?P = "\<lambda>i. \<not> stHi h (base + i) \<and> \<not> stLo h (base + i)"
  have eq: "invalidMask4 h base = spread [?P 0, ?P 1, ?P 2, ?P 3]"
    unfolding invalidMask4_spread [OF assms(1)] by simp
  have e: "?P 0 \<or> ?P 1 \<or> ?P 2 \<or> ?P 3"
    using assms(2) unfolding eq by (auto simp: spread4_eq_0 simp del: spread.simps)
  define d :: nat where "d = (if ?P 0 then 0 else if ?P 1 then 1 else if ?P 2 then 2 else 3)"
  have l: "lowestSlot (invalidMask4 h base) = int d"
    unfolding eq lowestSlot_def trailing_spread4 [OF e] d_def ..
  have d: "d < 4" "?P d" "\<forall>k<d. \<not> ?P k"
    using e by (auto simp: d_def numeral_eq_Suc less_Suc_eq split: if_splits)
  show ?thesis
  proof (rule that [of "base + d"])
    show "stHi h k \<or> stLo h k" if "base \<le> k" "k < base + d" for k
      using d(3) [rule_format, of "k - base"] that by auto
  qed (use d l in auto)
qed

lemma openSlot_iff:
  assumes "links_wf ix" "inBin ix b"
  shows "openSlot ix b j \<longleftrightarrow> \<not> stHi (hdr ix b) j \<and> \<not> stLo (hdr ix b) j \<and>
    (j < 3 \<or> 3 \<le> j \<and> j < 7 \<and> getSingle (lmeta ix b) \<noteq> 0 \<or> 7 \<le> j \<and> j < 15 \<and> getPairStart (lmeta ix b) \<noteq> 0)"
proof -
  have two: "linkAt ix b 2 \<noteq> 0 \<longleftrightarrow> getPairStart (lmeta ix b) \<noteq> 0"
    using assms linkAt_simps [of ix b] unfolding links_wf_def by auto
  consider "j < 3" | "3 \<le> j" "j < 7" "(j - 3) div 4 = 0" | "7 \<le> j" "j < 11" "(j - 3) div 4 = 1"
    | "11 \<le> j" "j < 15" "(j - 3) div 4 = 2" | "15 \<le> j"
    by (cases "j < 3"; cases "j < 7"; cases "j < 11"; cases "j < 15") auto
  then show ?thesis
    using two
    by cases (auto simp: openSlot_def isInvalid_def slotRef_primary slotRef_link [OF assms(2)] linkAt_simps(1,2))
qed

lemma firstFree:
  assumes "openSlot ix b j" "\<And>k. k < j \<Longrightarrow> \<not> openSlot ix b k"
  shows "(\<exists>k. openSlot ix b k) \<and> int j = int (LEAST k. openSlot ix b k)"
proof -
  have "(LEAST k. openSlot ix b k) = j"
    using assms by (intro Least_equality) (auto simp: not_less [symmetric])
  with assms(1) show ?thesis by auto
qed

lemma chooseInsertSlot_first:
  assumes wf: "wf_index ix" and al: "alloc_ok ix" and b: "inBin ix b"
  obtains i ix' where "chooseInsertSlot ix b = Some (i, ix')"
    "if \<exists>j. openSlot ix b j then ix' = ix \<and> i = int (LEAST j. openSlot ix b j)
     else if getSingle (lmeta ix b) = 0 then i = (if linkNext ix = linkCapacity ix then -1 else 3)
     else if getPairStart (lmeta ix b) = 0
     then i = (if unat (linkCapacity ix) < unat (linkNext ix) + 2 then -1 else 7)
     else i = -1 \<and> ix' = ix"
proof -
  let ?h = "hdr ix b" and ?lm = "lmeta ix b"
  have hl: "Header (bins ix ! unat b) = ?h" "LinkMeta (bins ix ! unat b) = ?lm"
    by (simp_all add: hdr_def lmeta_def)
  have lw: "links_wf ix" using wf by (simp add: wf_index_def)
  have pair_single: "getPairStart ?lm \<noteq> 0 \<Longrightarrow> getSingle ?lm \<noteq> 0"
    using lw b by (force simp: links_wf_def linkAt_simps)
  note free = openSlot_iff [OF lw b]
  note choose = chooseInsertSlot_def getBinByIndex_in [OF b] hl Let_def
  have full3: "stHi ?h j \<or> stLo ?h j" if "invalidMask3 ?h = 0" "j < 3" for j
    using that by (simp add: invalidMask3_0)
  note full4 = invalidMask4_0 [of _ ?h]
  show ?thesis
  proof (cases "invalidMask3 ?h = 0")
    case False
    then obtain j where j: "j < 3" "lowestSlot (invalidMask3 ?h) = int j" "\<not> stHi ?h j" "\<not> stLo ?h j"
      "\<And>k. k < j \<Longrightarrow> stHi ?h k \<or> stLo ?h k" using lowest3 by blast
    then have "(\<exists>k. openSlot ix b k) \<and> int j = int (LEAST k. openSlot ix b k)"
      by (intro firstFree) (auto simp: free)
    with False j(2) show ?thesis by (intro that [of "int j" ix]) (simp_all add: choose)
  next
    case m: True
    note f3 = full3 [OF m]
    show ?thesis
    proof (cases "getSingle ?lm \<noteq> 0 \<and> invalidMask4 ?h 3 \<noteq> 0")
      case True
      then obtain j where j: "3 \<le> j" "j < 7" "3 + lowestSlot (invalidMask4 ?h 3) = int j"
        "\<not> stHi ?h j" "\<not> stLo ?h j" "\<And>k. 3 \<le> k \<Longrightarrow> k < j \<Longrightarrow> stHi ?h k \<or> stLo ?h k"
        using lowest4 [of 3 ?h] by auto
      then have "(\<exists>k. openSlot ix b k) \<and> int j = int (LEAST k. openSlot ix b k)"
        using f3 True by (intro firstFree) (auto simp: free)
      with True m j(3) show ?thesis by (intro that [of "int j" ix]) (simp_all add: choose)
    next
      case s: False
      have f7: "\<not> openSlot ix b k" if "k < 7" for k
        using f3 [of k] s full4 [of 3 k] that by (cases "k < 3") (auto simp: free)
      show ?thesis
      proof (cases "getPairStart ?lm = 0")
        case np: True
        have "\<not> openSlot ix b k" for k using f7 [of k] np by (cases "k < 7") (auto simp: free)
        then have none: "\<not> (\<exists>j. openSlot ix b j)" by blast
        show ?thesis
        proof (cases "getSingle ?lm = 0")
          case True
          obtain l ix' where "attachSingle ix b = Some (l, ix')" "l = 0 \<longleftrightarrow> linkNext ix = linkCapacity ix"
            by (rule attachSingle_spec [OF wf al b True]) blast
          with True m np none show ?thesis
            by (intro that [of "if l \<noteq> 0 then 3 else -1" ix']) (simp_all add: choose)
        next
          case False
          obtain l ix' where "attachPair ix b = Some (l, ix')"
            "l = 0 \<longleftrightarrow> unat (linkCapacity ix) < unat (linkNext ix) + 2"
            by (rule attachPair_spec [OF wf al b False np]) blast
          with False m s np none show ?thesis
            by (intro that [of "if l \<noteq> 0 then 7 else -1" ix']) (simp_all add: choose)
        qed
      next
        case p: False
        show ?thesis
        proof (cases "invalidMask4 ?h 7 = 0")
          case False
          then obtain j where j: "7 \<le> j" "j < 7 + 4" "int 7 + lowestSlot (invalidMask4 ?h 7) = int j"
            "\<not> stHi ?h j" "\<not> stLo ?h j" "\<And>k. 7 \<le> k \<Longrightarrow> k < j \<Longrightarrow> stHi ?h k \<or> stLo ?h k"
            using lowest4 [of 7 ?h] by blast
          then have "(\<exists>k. openSlot ix b k) \<and> int j = int (LEAST k. openSlot ix b k)"
            using f7 p by (intro firstFree) (auto simp: free not_less [symmetric])
          with False m s p j(3) show ?thesis by (intro that [of "int j" ix]) (auto simp: choose)
        next
          case m7: True
          have f11: "\<not> openSlot ix b k" if "k < 11" for k
            using f7 [of k] full4 [of 7 k] m7 that by (cases "k < 7") (auto simp: free)
          show ?thesis
          proof (cases "invalidMask4 ?h 11 = 0")
            case False
            then obtain j where j: "11 \<le> j" "j < 11 + 4" "int 11 + lowestSlot (invalidMask4 ?h 11) = int j"
              "\<not> stHi ?h j" "\<not> stLo ?h j" "\<And>k. 11 \<le> k \<Longrightarrow> k < j \<Longrightarrow> stHi ?h k \<or> stLo ?h k"
              using lowest4 [of 11 ?h] by blast
            then have "(\<exists>k. openSlot ix b k) \<and> int j = int (LEAST k. openSlot ix b k)"
              using f11 p by (intro firstFree) (auto simp: free not_less [symmetric])
            with False m s p m7 j(3) show ?thesis by (intro that [of "int j" ix]) (auto simp: choose)
          next
            case True
            have "\<not> openSlot ix b k" for k
              using f11 [of k] full4 [of 11 k] True by (cases "k < 11") (auto simp: free)
            with True m s p m7 pair_single [OF p] show ?thesis
              by (intro that [of "-1" ix]) (auto simp: choose)
          qed
        qed
      qed
    qed
  qed
qed

end
