(* ===== verification/TableView.thy ===== *)
theory TableView
  imports BinOps
begin

text \<open>
  From bins to a finite map. A package decides what a slot stores (\<open>content\<close>), which word a
  key has in \<open>Slot.Key\<close> and how it tests a slot against a key (\<open>matches\<close>); the locale
  \<open>slot_codec\<close> is that interface, and its lemmas are the part of the correctness argument
  the two packages share: the abstract map of an index and how one slot changes it.
\<close>

section \<open>The abstract map of an index\<close>

definition slotEntry ::
  "('v Slot \<Rightarrow> ('k \<times> 'b) option) \<Rightarrow> 'v index \<Rightarrow> 64 word \<Rightarrow> nat \<Rightarrow> ('k \<times> 'b) option" where
  "slotEntry content ix b i = Option.bind (view ix b i) content"

definition binEntries ::
  "('v Slot \<Rightarrow> ('k \<times> 'b) option) \<Rightarrow> 'v index \<Rightarrow> 64 word \<Rightarrow> ('k \<times> 'b) list" where
  "binEntries content ix b = List.map_filter (slotEntry content ix b) [0..<15]"

definition absMap ::
  "('v Slot \<Rightarrow> ('k \<times> 'b) option) \<Rightarrow> ('k \<Rightarrow> 64 word) \<Rightarrow> 'v index \<Rightarrow> 'k \<Rightarrow> 'b option" where
  "absMap content hash ix k = map_of (binEntries content ix (binOf ix (hash k))) k"

text \<open>
  \<open>entries_wf\<close>: every visible slot is well formed, holds an entry, lies in the bin its hash
  selects, and no key occurs twice in a bin.
\<close>

definition entries_wf ::
  "('v Slot \<Rightarrow> ('k \<times> 'b) option) \<Rightarrow> ('k \<Rightarrow> 64 word) \<Rightarrow> ('v Slot \<Rightarrow> bool) \<Rightarrow> 'v index \<Rightarrow> bool" where
  "entries_wf content hash ok ix \<longleftrightarrow>
     (\<forall>b i s. inBin ix b \<and> view ix b i = Some s \<longrightarrow>
        ok s \<and> (\<exists>k v. content s = Some (k, v) \<and> binOf ix (hash k) = b)) \<and>
     (\<forall>b i j k v v'. inBin ix b \<and> slotEntry content ix b i = Some (k, v) \<and>
        slotEntry content ix b j = Some (k, v') \<longrightarrow> i = j)"

lemma view_less: "view ix b i = Some s \<Longrightarrow> i < 15"
  by (simp add: view_def split: if_splits)

lemma slotEntry_less: "slotEntry content ix b i = Some e \<Longrightarrow> i < 15"
  by (auto simp: slotEntry_def view_def split: if_splits)

lemma set_map_filter: "y \<in> set (List.map_filter f xs) \<longleftrightarrow> (\<exists>x \<in> set xs. f x = Some y)"
  by (force simp: List.map_filter_def)

lemma set_binEntries:
  "(k, v) \<in> set (binEntries content ix b) \<longleftrightarrow> (\<exists>i. slotEntry content ix b i = Some (k, v))"
  by (simp add: binEntries_def set_map_filter) (metis atLeastLessThan_iff slotEntry_less zero_le)

lemma distinct_map_filter:
  assumes "distinct xs"
    and "\<And>x y e e'. x \<in> set xs \<Longrightarrow> y \<in> set xs \<Longrightarrow> f x = Some e \<Longrightarrow> f y = Some e' \<Longrightarrow>
          fst e = fst e' \<Longrightarrow> x = y"
  shows "distinct (map fst (List.map_filter f xs))"
  using assms
proof (induction xs)
  case Nil
  then show ?case by (simp add: List.map_filter_simps)
next
  case (Cons a xs)
  have IH: "distinct (map fst (List.map_filter f xs))"
    by (rule Cons.IH) (use Cons.prems in auto)
  have "fst e \<notin> fst ` set (List.map_filter f xs)" if "f a = Some e" for e
  proof
    assume "fst e \<in> fst ` set (List.map_filter f xs)"
    then obtain x e' where "x \<in> set xs" "f x = Some e'" "fst e = fst e'"
      by (auto simp: set_map_filter)
    then have "a = x" using Cons.prems(2) [of a x e e'] that by simp
    with \<open>x \<in> set xs\<close> Cons.prems(1) show False by simp
  qed
  with IH show ?case by (auto simp: List.map_filter_simps split: option.splits)
qed

lemma entries_unique:
  assumes "entries_wf content hash ok ix" "inBin ix b"
    "slotEntry content ix b i = Some (k, v)" "slotEntry content ix b j = Some (k, v')"
  shows "i = j"
  using assms unfolding entries_wf_def by blast

lemma entries_wfD:
  assumes "entries_wf content hash ok ix" "inBin ix b" "view ix b i = Some s"
  shows "ok s" "\<exists>k v. content s = Some (k, v) \<and> binOf ix (hash k) = b"
  using assms unfolding entries_wf_def by blast+

lemma distinct_binEntries:
  "entries_wf content hash ok ix \<Longrightarrow> inBin ix b \<Longrightarrow> distinct (map fst (binEntries content ix b))"
  unfolding binEntries_def
  by (rule distinct_map_filter) (auto intro: entries_unique)

lemma absMap_Some:
  assumes "entries_wf content hash ok ix" "shape ix"
  shows "absMap content hash ix k = Some v \<longleftrightarrow>
    (\<exists>i. slotEntry content ix (binOf ix (hash k)) i = Some (k, v))"
  using map_of_eq_Some_iff [OF distinct_binEntries [OF assms(1) binOf_in [OF assms(2)]]]
  by (simp add: absMap_def set_binEntries)

lemma absMap_None:
  assumes "entries_wf content hash ok ix" "shape ix"
  shows "absMap content hash ix k = None \<longleftrightarrow>
    (\<forall>i v. slotEntry content ix (binOf ix (hash k)) i \<noteq> Some (k, v))"
  using absMap_Some [OF assms, of k] by (metis not_None_eq)

text \<open>
  One slot of bin \<open>b\<close> goes from no entry, or an entry for \<open>k\<close>, to no entry, or an entry
  for \<open>k\<close>: the abstract map changes at \<open>k\<close> only.
\<close>

lemma entries_update:
  assumes ew: "entries_wf content hash ok ix" and sh: "shape ix" and sg: "same_geometry ix ix'"
    and b: "b = binOf ix (hash k)"
    and before: "slotEntry content ix b i = None \<and> absMap content hash ix k = None \<or>
      (\<exists>v0. slotEntry content ix b i = Some (k, v0))"
    and after: "\<And>b' j. inBin ix b' \<Longrightarrow>
      view ix' b' j = (if b' = b \<and> j = i then new else view ix b' j)"
    and new: "new = None \<or> (\<exists>s v. new = Some s \<and> ok s \<and> content s = Some (k, v))"
  shows "entries_wf content hash ok ix'"
    and "absMap content hash ix' =
      (absMap content hash ix)(k := map_option snd (Option.bind new content))"
proof -
  have inb: "inBin ix' b' = inBin ix b'" "binOf ix' h = binOf ix h" for b' h
    using sg by (simp_all add: same_geometry_inBin same_geometry_binOf)
  have sh': "shape ix'" using sg sh by (rule same_geometry_shape)
  have se: "slotEntry content ix' b' j =
      (if b' = b \<and> j = i then Option.bind new content else slotEntry content ix b' j)"
    if "inBin ix b'" for b' j
    using after [OF that] by (simp add: slotEntry_def)
  have bin: "inBin ix b" using b binOf_in [OF sh] by simp
  have only: "j = i" if "slotEntry content ix b j = Some (k, v)" for j v
    using before
  proof
    assume "slotEntry content ix b i = None \<and> absMap content hash ix k = None"
    then show ?thesis using that absMap_None [OF ew sh, of k] b by simp
  next
    assume "\<exists>v0. slotEntry content ix b i = Some (k, v0)"
    then show ?thesis using that ew bin unfolding entries_wf_def by blast
  qed
  show ew': "entries_wf content hash ok ix'"
    unfolding entries_wf_def inb
  proof (intro conjI allI impI; (elim conjE)?)
    fix b' j s assume "inBin ix b'" "view ix' b' j = Some s"
    then show "ok s" "\<exists>k v. content s = Some (k, v) \<and> binOf ix (hash k) = b'"
      using entries_wfD [OF ew] new b unfolding after [OF \<open>inBin ix b'\<close>] by (auto split: if_splits)
  next
    fix b' j1 j2 k' v v'
    assume "inBin ix b'" "slotEntry content ix' b' j1 = Some (k', v)"
      "slotEntry content ix' b' j2 = Some (k', v')"
    then show "j1 = j2"
      using entries_unique [OF ew \<open>inBin ix b'\<close>] new only unfolding se [OF \<open>inBin ix b'\<close>]
      by (auto split: if_splits)
  qed
  show "absMap content hash ix' =
      (absMap content hash ix)(k := map_option snd (Option.bind new content))"
  proof
    fix k'
    have "absMap content hash ix' k' = Some v \<longleftrightarrow>
      ((absMap content hash ix)(k := map_option snd (Option.bind new content))) k' = Some v" for v
    proof (cases "k' = k")
      case True
      then show ?thesis
        using new only unfolding absMap_Some [OF ew' sh'] inb True b [symmetric] se [OF bin]
        by auto
    next
      case False
      have "slotEntry content ix b i \<noteq> Some (k', v)" using before False by auto
      moreover have "Option.bind new content \<noteq> Some (k', v)" using new False by auto
      ultimately have "slotEntry content ix' (binOf ix (hash k')) j = Some (k', v) \<longleftrightarrow>
          slotEntry content ix (binOf ix (hash k')) j = Some (k', v)" for j
        by (simp add: se [OF binOf_in [OF sh]])
      then show ?thesis
        using False by (simp add: absMap_Some [OF ew' sh'] absMap_Some [OF ew sh] inb)
    qed
    then show "absMap content hash ix' k' =
        ((absMap content hash ix)(k := map_option snd (Option.bind new content))) k'"
      by (metis not_None_eq)
  qed
qed

text \<open>The same visible slots are the same map.\<close>

lemma same_view_abs:
  assumes wf: "shape ix" and ew: "entries_wf content hash ok ix" and sg: "same_geometry ix ix'"
    and v: "\<And>b j. inBin ix b \<Longrightarrow> view ix' b j = view ix b j"
  shows "absMap content hash ix' = absMap content hash ix" "entries_wf content hash ok ix'"
proof -
  have inb: "inBin ix' b = inBin ix b" "binOf ix' h = binOf ix h" for b h
    using same_geometry_inBin [OF sg] same_geometry_binOf [OF sg] by auto
  have "binEntries content ix' b = binEntries content ix b" if "inBin ix b" for b
    using v [OF that] by (simp add: binEntries_def slotEntry_def [abs_def])
  then show "absMap content hash ix' = absMap content hash ix"
    using binOf_in [OF wf] by (simp add: absMap_def fun_eq_iff inb)
  show "entries_wf content hash ok ix'"
    unfolding entries_wf_def inb slotEntry_def
    using entries_wfD [OF ew] entries_unique [OF ew] v unfolding slotEntry_def by metis
qed

end
