(* ===== verification/SlotSearch.thy ===== *)
theory SlotSearch
  imports TableView
begin

text \<open>
  Searching the fifteen slots of a bin. \<open>matchPrimaryBucketKeys\<close> and \<open>matchLinkBucketKeys\<close>
  are the branch-free comparisons of get.go; \<open>pick\<close> is what the searches built on them
  compute: the first slot, in slot order, whose visible content passes the package's test.
\<close>

section \<open>The first slot that passes a test\<close>

fun pick :: "(nat \<Rightarrow> 'r option) \<Rightarrow> nat list \<Rightarrow> (nat \<times> 'r) option" where
  "pick p [] = None"
| "pick p (i # is) = (case p i of Some r \<Rightarrow> Some (i, r) | None \<Rightarrow> pick p is)"

lemma pick_append:
  "pick p (xs @ ys) = (case pick p xs of Some r \<Rightarrow> Some r | None \<Rightarrow> pick p ys)"
  by (induction xs) (auto split: option.splits)

lemma pick_None: "pick p xs = None \<longleftrightarrow> (\<forall>i \<in> set xs. p i = None)"
  by (induction xs) (auto split: option.splits)

lemma pick_Some: "pick p xs = Some (i, r) \<Longrightarrow> i \<in> set xs \<and> p i = Some r"
  by (induction xs) (auto split: option.splits)

lemma pick_cong: "(\<And>i. i \<in> set xs \<Longrightarrow> p i = q i) \<Longrightarrow> pick p xs = pick q xs"
  by (induction xs) (auto split: option.splits)

lemma pick_shift:
  "pick p (map ((+) base) xs) = map_option (\<lambda>(j, r). (base + j, r)) (pick (\<lambda>j. p (base + j)) xs)"
  by (induction xs) (auto split: option.splits)

lemma pick_map:
  "pick (\<lambda>i. map_option (h i) (p i)) xs = map_option (\<lambda>(i, r). (i, h i r)) (pick p xs)"
  by (induction xs) (auto split: option.splits)

lemma scanBits_pick4:
  assumes "f 0 = Some (g 0)" "f 1 = Some (g 1)" "f 2 = Some (g 2)" "f 3 = Some (g 3)"
  shows "scanBits f (spread [a 0, a 1, a 2, a 3]) =
    Some (map_option snd (pick (\<lambda>j. if a j then g j else None) [0, 1, 2, 3]))"
  unfolding scanBits_spread4 candidates_def
  using assms
  by (cases "a 0"; cases "a 1"; cases "a 2"; cases "a 3"; simp split: option.splits)

lemma scanBits_pick3:
  assumes "f 0 = Some (g 0)" "f 1 = Some (g 1)" "f 2 = Some (g 2)"
  shows "scanBits f (spread [a 0, a 1, a 2]) =
    Some (map_option snd (pick (\<lambda>j. if a j then g j else None) [0, 1, 2]))"
  unfolding scanBits_spread3 candidates_def
  using assms
  by (cases "a 0"; cases "a 1"; cases "a 2"; simp split: option.splits)

section \<open>The branch-free comparisons\<close>

text \<open>get.go: the slots of the primary bucket that are valid in \<open>h\<close> and hold the word \<open>w\<close>.\<close>

definition matchPrimaryBucketKeys ::
  "'v PrimaryBucket \<Rightarrow> 64 word \<Rightarrow> 64 word \<Rightarrow> 32 word option" where
  "matchPrimaryBucketKeys pb h w = do {
     s0 \<leftarrow> slotAt pb 0;
     s1 \<leftarrow> slotAt pb 1;
     s2 \<leftarrow> slotAt pb 2;
     let bitmap = push_bit 0 (b2u32 (Key s0 = w)) OR push_bit 2 (b2u32 (Key s1 = w)) OR
                  push_bit 4 (b2u32 (Key s2 = w));
     Some (bitmap AND drop_bit 1 (ucast h)) }"

text \<open>The same comparison over a link bucket: the first lines of \<open>probeLinkBucket\<close>.\<close>

definition matchLinkBucketKeys :: "'v LinkBucket \<Rightarrow> 32 word \<Rightarrow> 64 word \<Rightarrow> 32 word option" where
  "matchLinkBucketKeys b vm4 w = do {
     s0 \<leftarrow> linkSlotAt b 0;
     s1 \<leftarrow> linkSlotAt b 1;
     s2 \<leftarrow> linkSlotAt b 2;
     s3 \<leftarrow> linkSlotAt b 3;
     let eq = push_bit 0 (b2u32 (Key s0 = w)) OR push_bit 2 (b2u32 (Key s1 = w)) OR
              push_bit 4 (b2u32 (Key s2 = w)) OR push_bit 6 (b2u32 (Key s3 = w));
     Some (eq AND vm4) }"

lemma b2u32_spread4:
  "push_bit 0 (b2u32 a) OR push_bit 2 (b2u32 b) OR push_bit 4 (b2u32 c) OR push_bit 6 (b2u32 d) =
     spread [a, b, c, d]"
  by (cases a; cases b; cases c; cases d; simp add: b2u32_def)

lemma b2u32_spread3:
  "push_bit 0 (b2u32 a) OR push_bit 2 (b2u32 b) OR push_bit 4 (b2u32 c) = spread [a, b, c]"
  by (cases a; cases b; cases c; simp add: b2u32_def)

lemma spread4_and:
  "spread [a, b, c, d] AND spread [a', b', c', d'] = spread [a \<and> a', b \<and> b', c \<and> c', d \<and> d']"
  by (cases a; cases b; cases c; cases d; cases a'; cases b'; cases c'; cases d'; simp)

lemma spread3_and_header:
  "spread [a, b, c] AND drop_bit 1 (ucast (h :: 64 word)) =
     spread [a \<and> stHi h 0, b \<and> stHi h 1, c \<and> stHi h 2]"
proof (rule bit_word_eqI)
  fix n :: nat assume "n < LENGTH(32)"
  consider "n div 2 = 0" | "n div 2 = 1" | "n div 2 = 2" | "n div 2 \<ge> 3" by linarith
  then show "bit (spread [a, b, c] AND drop_bit 1 (ucast h)) n =
      bit (spread [a \<and> stHi h 0, b \<and> stHi h 1, c \<and> stHi h 2]) n"
    using \<open>n < LENGTH(32)\<close>
    by cases (auto simp: bit_simps bit_spread elim!: evenE simp del: spread.simps)
qed

lemma matchPrimary_spread:
  assumes "shape ix" "inBin ix b"
  defines "pb \<equiv> bins ix ! unat b"
  shows "matchPrimaryBucketKeys pb h w =
    Some (spread [Key (Slots pb ! 0) = w \<and> stHi h 0, Key (Slots pb ! 1) = w \<and> stHi h 1,
      Key (Slots pb ! 2) = w \<and> stHi h 2])"
proof -
  have "length (Slots pb) = 3" using Slots_length [OF assms(1,2)] by (simp add: pb_def)
  then have "slotAt pb 0 = Some (Slots pb ! 0)" "slotAt pb 1 = Some (Slots pb ! 1)"
    "slotAt pb 2 = Some (Slots pb ! 2)" by (simp_all add: slotAt_def)
  then show ?thesis
    unfolding matchPrimaryBucketKeys_def Let_def b2u32_spread3 spread3_and_header by simp
qed

section \<open>Slots as the searches read them\<close>

lemma view_primary:
  assumes "shape ix" "states_wf ix" "inBin ix b" "i < 3"
  shows "view ix b i = (if stHi (hdr ix b) i then Some (Slots (bins ix ! unat b) ! i) else None)"
    and "slotAt (bins ix ! unat b) (int i) = Some (Slots (bins ix ! unat b) ! i)"
proof -
  have len: "length (Slots (bins ix ! unat b)) = 3" using Slots_length [OF assms(1,3)] .
  then show "slotAt (bins ix ! unat b) (int i) = Some (Slots (bins ix ! unat b) ! i)"
    using assms(4) by (simp add: slotAt_def)
  have "\<not> (stHi (hdr ix b) i \<and> stLo (hdr ix b) i)"
    using assms by (simp add: states_wf_def)
  with assms(3,4) len show
    "view ix b i = (if stHi (hdr ix b) i then Some (Slots (bins ix ! unat b) ! i) else None)"
    by (auto simp: view_def isValid_def slotIn_def slotRef_primary slotAt_def)
qed

text \<open>The link bucket \<open>u\<close> of bin \<open>b\<close>, when attached, holds the slots from \<open>3 + 4 * u\<close> on.\<close>

lemma view_link:
  assumes wf: "shape ix" "links_wf ix" "states_wf ix" and b: "inBin ix b" and u: "u < 3"
    and at: "linkAt ix b u \<noteq> 0"
  obtains lb where "getLinkBucket ix (linkAt ix b u) = Some lb" "length (LinkSlots lb) = 4"
    "\<And>j. j < 4 \<Longrightarrow> view ix b (3 + 4 * u + j) =
       (if stHi (hdr ix b) (3 + 4 * u + j) then Some (LinkSlots lb ! j) else None)"
proof -
  let ?l = "linkAt ix b u"
  have "unat ?l \<le> length (links ix)" using wf(2) b u by (auto simp: links_wf_def)
  moreover have "unat ?l \<noteq> 0" using at by (simp add: unat_eq_0)
  moreover have "unat (?l - 1) = unat ?l - 1" using at by (rule unat_pred)
  ultimately have l: "unat (?l - 1) < length (links ix)" by linarith
  let ?lb = "links ix ! unat (?l - 1)"
  have len: "length (LinkSlots ?lb) = 4" using wf(1) l by (simp add: shape_def)
  have g: "getLinkBucket ix ?l = Some ?lb" using l by (simp add: getLinkBucket_def Let_def)
  have "view ix b (3 + 4 * u + j) =
      (if stHi (hdr ix b) (3 + 4 * u + j) then Some (LinkSlots ?lb ! j) else None)"
    if "j < 4" for j
  proof -
    let ?i = "3 + 4 * u + j"
    have "?i < 15" using u that by simp
    then have "\<not> (stHi (hdr ix b) ?i \<and> stLo (hdr ix b) ?i)"
      using wf(3) b unfolding states_wf_def by blast
    moreover have "slotRef ix b ?i = Some (LinkSlot ?l (int j))"
      using b at that by (simp add: slotRef_link)
    ultimately show ?thesis
      using \<open>?i < 15\<close> g that len
      by (auto simp: view_def isValid_def slotIn_def linkSlotAt_def)
  qed
  with g len show ?thesis by (rule that)
qed

lemma view_unattached:
  assumes "states_wf ix" "inBin ix b" "u < 3" "linkAt ix b u = 0" "j < 4"
  shows "view ix b (3 + 4 * u + j) = None"
proof -
  have "slotRef ix b (3 + 4 * u + j) = None"
    using assms(2,4,5) by (simp add: slotRef_link)
  moreover have "3 + 4 * u + j < 15" using assms(3,5) by simp
  ultimately have "isInvalid ix b (3 + 4 * u + j)"
    using assms(1,2) unfolding states_wf_def by blast
  then show ?thesis by (simp add: view_def isValid_def isInvalid_def)
qed

text \<open>The slots of a bin in the order the searches visit them.\<close>

definition primarySlots :: "nat list" where "primarySlots = [0, 1, 2]"

definition linkSlots :: "nat list" where
  "linkSlots = map ((+) 3) [0, 1, 2, 3] @ map ((+) 7) [0, 1, 2, 3] @ map ((+) 11) [0, 1, 2, 3]"

lemma upt_15: "[0..<15] = primarySlots @ linkSlots"
  by (simp add: upt_rec primarySlots_def linkSlots_def)

lemma pick_upt_15:
  "pick p [0..<15] = (case pick p primarySlots of Some r \<Rightarrow> Some r | None \<Rightarrow> pick p linkSlots)"
  unfolding upt_15 pick_append ..

end
