(* ===== verification/LinkSearch.thy ===== *)
theory LinkSearch
  imports SlotSearch
begin

text \<open>
  The cold path of a search: the link buckets of a bin. \<open>overLinks\<close> is the control flow that
  \<open>scanLinksForKey\<close> (get.go) and \<open>findKeyInLinks\<close> (delete.go) share; the probe of one link
  bucket is its argument. The lemmas reduce a whole search, primary bucket and link buckets,
  to \<open>pick\<close> over the fifteen slots.
\<close>

section \<open>Walking the attached link buckets\<close>

definition overLink ::
  "(32 word \<Rightarrow> 32 word \<Rightarrow> int \<Rightarrow> 'r option option) \<Rightarrow> 64 word \<Rightarrow> 32 word \<Rightarrow> nat \<Rightarrow> 'r option option" where
  "overLink probe h l base =
     (let vm = validMask4 h base in if vm \<noteq> 0 then probe l vm (int base) else Some None)"

definition overLinks ::
  "(32 word \<Rightarrow> 32 word \<Rightarrow> int \<Rightarrow> 'r option option) \<Rightarrow> 64 word \<Rightarrow> 64 word \<Rightarrow> 'r option option" where
  "overLinks probe h lm =
     (let s = getSingle lm
      in if s = NO_LINK then Some None
         else do {
           r \<leftarrow> overLink probe h s 3;
           (case r of Some x \<Rightarrow> Some (Some x) | None \<Rightarrow>
             let p = getPairStart lm
             in if p = NO_LINK then Some None
                else do {
                  r \<leftarrow> overLink probe h p 7;
                  (case r of Some x \<Rightarrow> Some (Some x) | None \<Rightarrow> overLink probe h (p + 1) 11)
                }) })"

section \<open>A search as a walk over the slots\<close>

text \<open>
  \<open>slotTest ix b w g i\<close>: the result of the search at slot \<open>i\<close>, when the slot is visible,
  its word is \<open>w\<close> and the package's test \<open>g\<close> accepts it.
\<close>

definition slotTest ::
  "'v index \<Rightarrow> 64 word \<Rightarrow> 64 word \<Rightarrow> (nat \<Rightarrow> 'v Slot \<Rightarrow> 'r option) \<Rightarrow> nat \<Rightarrow> 'r option" where
  "slotTest ix b w g i = (case view ix b i of
     Some s \<Rightarrow> if Key s = w then g i s else None | None \<Rightarrow> None)"

lemma slotTest_map:
  "slotTest ix b w (\<lambda>i s. map_option (h i) (g i s)) = (\<lambda>i. map_option (h i) (slotTest ix b w g i))"
  by (auto simp: slotTest_def fun_eq_iff split: option.splits)

lemma primary_pick:
  assumes wf: "wf_index ix" "inBin ix b"
    and f: "\<And>j s. j < 3 \<Longrightarrow> slotAt (bins ix ! unat b) (int j) = Some s \<Longrightarrow> f (int j) = Some (g j s)"
  obtains bm where "matchPrimaryBucketKeys (bins ix ! unat b) (hdr ix b) w = Some bm"
    "scanBits f bm = Some (map_option snd (pick (slotTest ix b w g) primarySlots))"
proof
  let ?pb = "bins ix ! unat b"
  let ?a = "\<lambda>j. Key (Slots ?pb ! j) = w \<and> stHi (hdr ix b) j"
  have sh: "shape ix" "states_wf ix" using wf by (auto simp: wf_index_def)
  show "matchPrimaryBucketKeys ?pb (hdr ix b) w = Some (spread [?a 0, ?a 1, ?a 2])"
    using matchPrimary_spread [OF sh(1) wf(2)] .
  have v: "view ix b j = (if stHi (hdr ix b) j then Some (Slots ?pb ! j) else None)"
    "f (int j) = Some (g j (Slots ?pb ! j))" if "j < 3" for j
    using view_primary [OF sh wf(2) that] f [OF that] by auto
  have "f 0 = Some (g 0 (Slots ?pb ! 0))" "f 1 = Some (g 1 (Slots ?pb ! 1))"
    "f 2 = Some (g 2 (Slots ?pb ! 2))"
    using v(2) [of 0] v(2) [of 1] v(2) [of 2] by simp_all
  then have "scanBits f (spread [?a 0, ?a 1, ?a 2]) = Some (map_option snd
      (pick (\<lambda>j. if ?a j then g j (Slots ?pb ! j) else None) [0, 1, 2]))"
    by (rule scanBits_pick3)
  also have "pick (\<lambda>j. if ?a j then g j (Slots ?pb ! j) else None) [0, 1, 2] =
      pick (slotTest ix b w g) primarySlots"
    unfolding primarySlots_def by (rule pick_cong) (auto simp: slotTest_def v(1))
  finally show "scanBits f (spread [?a 0, ?a 1, ?a 2]) =
      Some (map_option snd (pick (slotTest ix b w g) primarySlots))" .
qed

lemma less_4: "j \<in> set [0, 1, 2, 3] \<Longrightarrow> j < (4::nat)"
  by auto

lemma link_base: "u < 3 \<Longrightarrow> 3 + 4 * u = 3 \<or> 3 + 4 * u = 7 \<or> 3 + 4 * u = (11::nat)"
  by arith

lemma link_pick:
  assumes wf: "wf_index ix" "inBin ix b" and u: "u < 3" and at: "linkAt ix b u \<noteq> 0"
    and base: "base = 3 + 4 * u"
    and f: "\<And>lb j s. getLinkBucket ix (linkAt ix b u) = Some lb \<Longrightarrow> j < 4 \<Longrightarrow>
      linkSlotAt lb (int j) = Some s \<Longrightarrow> f lb (int j) = Some (g (base + j) s)"
  obtains lb bm where "getLinkBucket ix (linkAt ix b u) = Some lb"
    "matchLinkBucketKeys lb (validMask4 (hdr ix b) base) w = Some bm"
    "scanBits (f lb) bm = Some (map_option snd (pick (\<lambda>j. slotTest ix b w g (base + j)) [0, 1, 2, 3]))"
proof -
  have wfs: "shape ix" "links_wf ix" "states_wf ix" using wf by (auto simp: wf_index_def)
  obtain lb where lb: "getLinkBucket ix (linkAt ix b u) = Some lb" "length (LinkSlots lb) = 4"
    "\<And>j. j < 4 \<Longrightarrow> view ix b (3 + 4 * u + j) =
       (if stHi (hdr ix b) (3 + 4 * u + j) then Some (LinkSlots lb ! j) else None)"
    using view_link [OF wfs wf(2) u at] by metis
  let ?k = "\<lambda>j. Key (LinkSlots lb ! j) = w"
  let ?a = "\<lambda>j. ?k j \<and> stHi (hdr ix b) (base + j)"
  have sl: "linkSlotAt lb (int j) = Some (LinkSlots lb ! j)" if "j < 4" for j
    using that lb(2) by (simp add: linkSlotAt_def)
  have sl': "linkSlotAt lb 0 = Some (LinkSlots lb ! 0)" "linkSlotAt lb 1 = Some (LinkSlots lb ! 1)"
    "linkSlotAt lb 2 = Some (LinkSlots lb ! 2)" "linkSlotAt lb 3 = Some (LinkSlots lb ! 3)"
    using sl [of 0] sl [of 1] sl [of 2] sl [of 3] by simp_all
  have vm: "validMask4 (hdr ix b) base = spread [stHi (hdr ix b) (base + 0), stHi (hdr ix b) (base + 1),
      stHi (hdr ix b) (base + 2), stHi (hdr ix b) (base + 3)]"
    using validMask4_spread [of base "hdr ix b"] link_base [OF u] base by simp
  have m: "matchLinkBucketKeys lb (validMask4 (hdr ix b) base) w = Some (spread [?a 0, ?a 1, ?a 2, ?a 3])"
    unfolding matchLinkBucketKeys_def sl' Let_def b2u32_spread4 vm spread4_and by simp
  have fj: "f lb (int j) = Some (g (base + j) (LinkSlots lb ! j))" if "j < 4" for j
    using f [OF lb(1) that sl [OF that]] .
  then have "scanBits (f lb) (spread [?a 0, ?a 1, ?a 2, ?a 3]) = Some (map_option snd
      (pick (\<lambda>j. if ?a j then g (base + j) (LinkSlots lb ! j) else None) [0, 1, 2, 3]))"
    using fj [of 0] fj [of 1] fj [of 2] fj [of 3] by (intro scanBits_pick4) simp_all
  also have "pick (\<lambda>j. if ?a j then g (base + j) (LinkSlots lb ! j) else None) [0, 1, 2, 3] =
      pick (\<lambda>j. slotTest ix b w g (base + j)) [0, 1, 2, 3]"
  proof (rule pick_cong)
    fix j :: nat assume "j \<in> set [0, 1, 2, 3]"
    then have "j < 4" by auto
    from lb(3) [OF this] show "(if ?a j then g (base + j) (LinkSlots lb ! j) else None) =
        slotTest ix b w g (base + j)"
      unfolding base by (simp add: slotTest_def)
  qed
  finally show ?thesis using that [OF lb(1) m] by blast
qed

lemma slotTest_unattached:
  assumes "wf_index ix" "inBin ix b" "u < 3" "linkAt ix b u = 0" "j < 4"
  shows "slotTest ix b w g (3 + 4 * u + j) = None"
  using view_unattached [of ix b u j] assms by (simp add: slotTest_def wf_index_def)

lemma slotTest_masked:
  assumes "wf_index ix" "u < 3" "base = 3 + 4 * u" "validMask4 (hdr ix b) base = 0" "j < 4"
  shows "slotTest ix b w g (base + j) = None"
proof -
  have "validMask4 (hdr ix b) base = spread [stHi (hdr ix b) base, stHi (hdr ix b) (base + 1),
      stHi (hdr ix b) (base + 2), stHi (hdr ix b) (base + 3)]"
    using validMask4_spread [of base "hdr ix b"] link_base [OF assms(2)] assms(3) by simp
  with assms(4) have "\<not> stHi (hdr ix b) base" "\<not> stHi (hdr ix b) (base + 1)"
    "\<not> stHi (hdr ix b) (base + 2)" "\<not> stHi (hdr ix b) (base + 3)"
    by (simp_all add: spread4_eq_0 del: spread.simps)
  moreover have "base + j = base \<or> base + j = base + 1 \<or> base + j = base + 2 \<or> base + j = base + 3"
    using assms(5) by arith
  ultimately have "\<not> stHi (hdr ix b) (base + j)" by metis
  then show ?thesis by (simp add: slotTest_def view_def isValid_def)
qed

text \<open>One probe per link bucket, each the walk over its four slots, is the walk over the bin.\<close>

lemma overLinks_pick:
  assumes wf: "wf_index ix" "inBin ix b"
    and probe: "\<And>u. u < 3 \<Longrightarrow> linkAt ix b u \<noteq> 0 \<Longrightarrow>
      probe (linkAt ix b u) (validMask4 (hdr ix b) (3 + 4 * u)) (int (3 + 4 * u)) =
        Some (map_option snd (pick (\<lambda>j. slotTest ix b w g (3 + 4 * u + j)) [0, 1, 2, 3]))"
  shows "overLinks probe (hdr ix b) (lmeta ix b) =
    Some (map_option snd (pick (slotTest ix b w g) linkSlots))"
proof -
  let ?p = "slotTest ix b w g"
  let ?seg = "\<lambda>u. pick (\<lambda>j. ?p (3 + 4 * u + j)) [0, 1, 2, 3]"
  have none: "?seg u = None" if "u < 3" "linkAt ix b u = 0" for u
    unfolding pick_None using slotTest_unattached [OF wf that] less_4 by blast
  have step: "overLink probe (hdr ix b) (linkAt ix b u) (3 + 4 * u) = Some (map_option snd (?seg u))"
    if "u < 3" "linkAt ix b u \<noteq> 0" for u
  proof (cases "validMask4 (hdr ix b) (3 + 4 * u) = 0")
    case True
    have "?seg u = None"
      unfolding pick_None using slotTest_masked [OF wf(1) that(1) refl True] less_4 by blast
    with True show ?thesis by (simp add: overLink_def)
  next
    case False
    with probe [OF that] show ?thesis by (simp add: overLink_def)
  qed
  have rhs: "map_option snd (pick ?p linkSlots) = (case ?seg 0 of Some r \<Rightarrow> Some (snd r) | None \<Rightarrow>
      (case ?seg 1 of Some r \<Rightarrow> Some (snd r) | None \<Rightarrow> map_option snd (?seg 2)))"
    unfolding linkSlots_def pick_append pick_shift by (auto split: option.splits)
  have l0: "linkAt ix b 0 = getSingle (lmeta ix b)" "linkAt ix b 1 = getPairStart (lmeta ix b)"
    using linkAt_simps [of ix b] by simp_all
  have l2: "linkAt ix b 2 = getPairStart (lmeta ix b) + 1" "linkAt ix b 2 \<noteq> 0"
    if "getPairStart (lmeta ix b) \<noteq> 0"
    using that linkAt_simps [of ix b] wf l0 unfolding wf_index_def links_wf_def by auto
  have order: "linkAt ix b 1 \<noteq> 0 \<Longrightarrow> linkAt ix b 0 \<noteq> 0"
    using wf by (auto simp: wf_index_def links_wf_def)
  have pair0: "linkAt ix b 2 = 0" if "getPairStart (lmeta ix b) = 0"
    using that linkAt_simps(3) [of ix b] by simp
  show ?thesis
  proof (cases "getSingle (lmeta ix b) = 0")
    case True
    then have "?seg 0 = None" "?seg 1 = None" "?seg 2 = None"
      using none [of 0] none [of 1] none [of 2] l0 order pair0 by auto
    then show ?thesis unfolding rhs using True by (simp add: overLinks_def)
  next
    case False
    have s0: "overLink probe (hdr ix b) (getSingle (lmeta ix b)) 3 = Some (map_option snd (?seg 0))"
      using step [of 0] False l0 by simp
    show ?thesis
    proof (cases "getPairStart (lmeta ix b) = 0")
      case True
      then have "?seg 1 = None" "?seg 2 = None"
        using none [of 1] none [of 2] l0 pair0 by auto
      then show ?thesis unfolding rhs using True False s0
        by (simp add: overLinks_def Let_def split: option.splits)
    next
      case pair: False
      have s1: "overLink probe (hdr ix b) (getPairStart (lmeta ix b)) 7 = Some (map_option snd (?seg 1))"
        using step [of 1] pair l0 by simp
      have s2: "overLink probe (hdr ix b) (getPairStart (lmeta ix b) + 1) 11 =
          Some (map_option snd (?seg 2))"
        using step [of 2] l2 [OF pair] by simp
      show ?thesis unfolding rhs using False pair s0 s1 s2
        by (simp add: overLinks_def Let_def split: option.splits)
    qed
  qed
qed

end
