(* ===== verification/MapState.thy ===== *)
theory MapState
  imports LinkSearch
begin

text \<open>
  The map object (types.go) and what its operations share: the generations of the index, the
  guard on the bin state every operation starts with, and the interface \<open>slot_codec\<close> between
  the search and a package's slots. A pointer to an index is its position in \<open>indexes\<close>, the
  list of all generations allocated so far; \<open>None\<close> is a nil pointer.
\<close>

section \<open>State\<close>

definition ResizeInactive :: "32 word" where [simp]: "ResizeInactive = 0"
definition ResizeReserved :: "32 word" where [simp]: "ResizeReserved = 1"
definition ResizeActive :: "32 word" where [simp]: "ResizeActive = 2"

record resizeContext =
  oldIndex :: "nat option"
  newIndex' :: "nat option"
  numBins :: "64 word"
  numChunks :: "64 word"
  ctxActive :: "32 word"
  chunkClaimed :: "64 word"
  chunksDone :: "64 word"
  linkNextResize :: "32 word"

record ('v, 'c) Map =
  active :: nat
  hashConfig :: 'c
  resizeCtx :: "nat option"
  indexes :: "'v index list"
  contexts :: "resizeContext list"

definition getActiveIndex :: "('v, 'c) Map \<Rightarrow> nat" where
  "getActiveIndex m = active m"

definition indexAt :: "('v, 'c) Map \<Rightarrow> nat \<Rightarrow> 'v index option" where
  "indexAt m i = nth_opt (indexes m) i"

definition getNextIndex :: "('v, 'c) Map \<Rightarrow> nat \<Rightarrow> nat option" where
  "getNextIndex m i = do { ix \<leftarrow> indexAt m i; indexNext ix }"

definition putIndex :: "('v, 'c) Map \<Rightarrow> nat \<Rightarrow> 'v index \<Rightarrow> ('v, 'c) Map" where
  "putIndex m i ix = m\<lparr>indexes := (indexes m)[i := ix]\<rparr>"

definition atomicLoadHeader :: "'v index \<Rightarrow> 64 word \<Rightarrow> 64 word option" where
  "atomicLoadHeader ix b = map_option Header (getBinByIndex ix b)"

definition atomicAndHeader :: "'v index \<Rightarrow> 64 word \<Rightarrow> 64 word \<Rightarrow> 'v index option" where
  "atomicAndHeader ix b msk = do {
     pb \<leftarrow> getBinByIndex ix b;
     storeHeader ix b (Header pb AND msk) }"

text \<open>
  The guard on the bin state: \<open>Some (Some idx')\<close> sends the operation back to \<open>retry\<close> with
  index \<open>idx'\<close>. \<open>cpu.Yield\<close> and \<open>runtime.Gosched\<close> do not change the state.
\<close>

definition binGuard :: "('v, 'c) Map \<Rightarrow> nat \<Rightarrow> 64 word \<Rightarrow> nat option option" where
  "binGuard m idx h0 =
     (if getBinState h0 \<noteq> BinNoTransfer
      then if getBinState h0 = BinDoneTransfer then map_option Some (getNextIndex m idx)
           else Some (Some (getActiveIndex m))
      else Some None)"

section \<open>The abstract state\<close>

text \<open>
  An index between operations: well formed, no slot reserved, no bin being transferred.
\<close>

definition settled :: "'v index \<Rightarrow> bool" where
  "settled ix \<longleftrightarrow> wf_index ix \<and> alloc_ok ix \<and>
     (\<forall>b. inBin ix b \<longrightarrow> getBinState (hdr ix b) = BinNoTransfer \<and>
        (\<forall>i<15. getSlotState (hdr ix b) (int i) \<noteq> SlotTrying))"

text \<open>A generation the map has left: every bin transferred, the successor published.\<close>

definition retired :: "'v index \<Rightarrow> nat \<Rightarrow> bool" where
  "retired ix i \<longleftrightarrow> shape ix \<and> indexNext ix = Some (Suc i) \<and>
     (\<forall>b. inBin ix b \<longrightarrow> getBinState (hdr ix b) = BinDoneTransfer)"

definition current :: "('v, 'c) Map \<Rightarrow> 'v index" where
  "current m = indexes m ! active m"

text \<open>
  The generations: the last one is the active one, all the others are retired, and no
  generation is larger than its successor.
\<close>

definition ascending :: "'v index list \<Rightarrow> bool" where
  "ascending ixs \<longleftrightarrow> sorted (map (\<lambda>ix. length (bins ix)) ixs)"

definition generations :: "('v, 'c) Map \<Rightarrow> bool" where
  "generations m \<longleftrightarrow> length (indexes m) = Suc (active m) \<and> resizeCtx m = None \<and>
     indexNext (current m) = None \<and> settled (current m) \<and>
     (\<forall>i < active m. retired (indexes m ! i) i) \<and> ascending (indexes m)"

lemma ascending_update:
  "length (bins ix) = length (bins (ixs ! i)) \<Longrightarrow> ascending (ixs[i := ix]) = ascending ixs"
proof -
  assume "length (bins ix) = length (bins (ixs ! i))"
  then have "map (\<lambda>ix. length (bins ix)) (ixs[i := ix]) = map (\<lambda>ix. length (bins ix)) ixs"
    by (cases "i < length ixs") (simp_all add: map_update list_update_same_conv list_update_beyond)
  then show ?thesis by (simp only: ascending_def)
qed

lemma ascending_append:
  "ascending ixs \<Longrightarrow> ixs \<noteq> [] \<Longrightarrow> length (bins (last ixs)) \<le> length (bins ix) \<Longrightarrow> ascending (ixs @ [ix])"
proof -
  assume "ascending ixs" "ixs \<noteq> []" "length (bins (last ixs)) \<le> length (bins ix)"
  moreover from this obtain ys y where "ixs = ys @ [y]" by (metis append_butlast_last_id)
  ultimately show ?thesis by (auto simp: ascending_def sorted_append intro: order_trans)
qed

lemma indexAt_active [simp]: "generations m \<Longrightarrow> indexAt m (active m) = Some (current m)"
  by (simp add: generations_def indexAt_def current_def)

lemma generations_settled: "generations m \<Longrightarrow> settled (current m)"
  by (simp add: generations_def)

lemma settledD:
  assumes "settled ix"
  shows "wf_index ix" "alloc_ok ix" "shape ix" "inBin ix b \<Longrightarrow> getBinState (hdr ix b) = 0"
    and "inBin ix b \<Longrightarrow> i < 15 \<Longrightarrow> isValid ix b i \<or> isInvalid ix b i"
  using assms slot_state_cases [of i "hdr ix b"]
  by (auto simp: settled_def wf_index_def isValid_def isInvalid_def states_wf_def)

lemma putIndex_simps [simp]:
  "active (putIndex m i ix) = active m" "hashConfig (putIndex m i ix) = hashConfig m"
  "resizeCtx (putIndex m i ix) = resizeCtx m" "contexts (putIndex m i ix) = contexts m"
  "length (indexes (putIndex m i ix)) = length (indexes m)"
  by (simp_all add: putIndex_def)

lemma putIndex_current:
  assumes "generations m" "settled ix" "indexNext ix = indexNext (current m)"
    "length (bins ix) = length (bins (current m))"
  shows "generations (putIndex m (active m) ix)" "current (putIndex m (active m) ix) = ix"
proof -
  show "current (putIndex m (active m) ix) = ix"
    using assms by (simp add: generations_def current_def putIndex_def)
  then show "generations (putIndex m (active m) ix)"
    using assms by (simp add: generations_def) (simp add: putIndex_def ascending_update current_def)
qed

text \<open>An operation that starts at an older generation follows the chain to the active one.\<close>

lemma binGuard_settled:
  "settled ix \<Longrightarrow> inBin ix b \<Longrightarrow> binGuard m idx (hdr ix b) = Some None"
  using settledD(4) [of ix b] by (simp add: binGuard_def)

lemma binGuard_retired:
  assumes "generations m" "i < active m" "inBin (indexes m ! i) b"
  shows "indexAt m i = Some (indexes m ! i)"
    and "binGuard m i (hdr (indexes m ! i) b) = Some (Some (Suc i))"
proof -
  from assms show "indexAt m i = Some (indexes m ! i)"
    by (simp add: generations_def indexAt_def)
  with assms show "binGuard m i (hdr (indexes m ! i) b) = Some (Some (Suc i))"
    by (simp add: generations_def retired_def binGuard_def getNextIndex_def)
qed

section \<open>The interface between search and slots\<close>

text \<open>
  What a package tells the search: \<open>tag\<close>, the word of a key in \<open>Slot.Key\<close>; \<open>matches\<close>, its
  test of a slot whose word agrees; \<open>content\<close>, the pair a slot stores; \<open>ok\<close>, the slots it
  makes visible. The law says that on those the search finds exactly the stored pair.
\<close>

locale slot_codec =
  fixes tag :: "'k \<Rightarrow> 64 word"
    and matches :: "'k \<Rightarrow> 'v Slot \<Rightarrow> bool"
    and content :: "'v Slot \<Rightarrow> ('k \<times> 'b) option"
    and ok :: "'v Slot \<Rightarrow> bool"
  assumes finds: "ok s \<Longrightarrow> Key s = tag k \<and> matches k s \<longleftrightarrow> (\<exists>v. content s = Some (k, v))"
begin

lemma slotTest_content:
  assumes ew: "entries_wf content hash ok ix" "inBin ix b"
    and g: "\<And>i s. g i s = (if matches k s then Some (r i s) else None)"
  shows "slotTest ix b (tag k) g i = (case view ix b i of
    Some s \<Rightarrow> if \<exists>v. content s = Some (k, v) then Some (r i s) else None | None \<Rightarrow> None)"
  using entries_wfD(1) [OF ew] finds [of _ k]
  by (auto simp: slotTest_def g split: option.splits)

lemma search_cases:
  assumes wf: "wf_index ix" and ew: "entries_wf content hash ok ix"
    and b: "b = binOf ix (hash k)"
    and g: "\<And>i s. g i s = (if matches k s then Some (r i s) else None)"
  obtains (found) i s v where
    "pick (slotTest ix b (tag k) g) [0..<15] = Some (i, r i s)" "i < 15"
    "view ix b i = Some s" "content s = Some (k, v)" "Key s = tag k" "matches k s" "ok s"
    "absMap content hash ix k = Some v"
  | (missing) "pick (slotTest ix b (tag k) g) [0..<15] = None"
    "absMap content hash ix k = None" "\<And>i v. slotEntry content ix b i \<noteq> Some (k, v)"
proof -
  have sh: "shape ix" using wf by (simp add: wf_index_def)
  have in_b: "inBin ix b" using b binOf_in [OF sh] by simp
  note st = slotTest_content [OF ew in_b g]
  show ?thesis
  proof (cases "pick (slotTest ix b (tag k) g) [0..<15]")
    case None
    have "slotEntry content ix b i \<noteq> Some (k, v)" for i v
    proof
      assume e: "slotEntry content ix b i = Some (k, v)"
      then have "i < 15" by (rule slotEntry_less)
      with None have "slotTest ix b (tag k) g i = None" by (simp add: pick_None)
      with e show False by (auto simp: st slotEntry_def split: option.splits if_splits)
    qed
    moreover from this have "absMap content hash ix k = None"
      using absMap_None [OF ew sh] b by simp
    ultimately show ?thesis using None that(2) by blast
  next
    case (Some p)
    obtain i x where p: "p = (i, x)" by force
    from pick_Some Some p have "i < 15" "slotTest ix b (tag k) g i = Some x" by force+
    then obtain s v where s: "view ix b i = Some s" "content s = Some (k, v)" "x = r i s"
      by (auto simp: st split: option.splits if_splits)
    have o: "ok s" using entries_wfD(1) [OF ew in_b s(1)] .
    moreover have "slotEntry content ix b i = Some (k, v)" using s by (simp add: slotEntry_def)
    then have "absMap content hash ix k = Some v" using absMap_Some [OF ew sh] b by blast
    moreover have "Key s = tag k" "matches k s" using finds [OF o, of k] s(2) by auto
    ultimately show ?thesis using that(1) Some p s \<open>i < 15\<close> by metis
  qed
qed

end

end
