(* ===== verification/SlotUpdate.thy ===== *)
theory SlotUpdate
  imports MapState
begin

text \<open>
  The writes of the update operations, and the three ways they change the abstract map of a
  settled index: publishing a free slot (Insert), rewriting a visible slot (Put) and clearing
  one (Delete). A slot is written word by word, or as one 16-byte compare-and-swap; the
  header is written by compare-and-swap or by an atomic AND.
\<close>

section \<open>Writing a slot\<close>

definition storeSlotKey :: "'v index \<Rightarrow> SlotRef \<Rightarrow> 64 word \<Rightarrow> 'v index option" where
  "storeSlotKey ix r k = do { s \<leftarrow> loadSlot ix r; storeSlot ix r (s\<lparr>Key := k\<rparr>) }"

definition atomicStoreSlotVal :: "'v index \<Rightarrow> SlotRef \<Rightarrow> 'v \<Rightarrow> 'v index option" where
  "atomicStoreSlotVal ix r v = do { s \<leftarrow> loadSlot ix r; storeSlot ix r (s\<lparr>Val := v\<rparr>) }"

definition atomicLoadSlotVal :: "'v index \<Rightarrow> SlotRef \<Rightarrow> 'v option" where
  "atomicLoadSlotVal ix r = map_option Val (loadSlot ix r)"

definition loadSlotKey :: "'v index \<Rightarrow> SlotRef \<Rightarrow> 64 word option" where
  "loadSlotKey ix r = map_option Key (loadSlot ix r)"

text \<open>internal/asm: compare both words of the slot and swap them, as one access.\<close>

definition DWCAS ::
  "('v \<Rightarrow> 'v \<Rightarrow> bool) \<Rightarrow> 'v index \<Rightarrow> SlotRef \<Rightarrow> 64 word \<Rightarrow> 'v \<Rightarrow> 64 word \<Rightarrow> 'v \<Rightarrow>
     (bool \<times> 'v index) option" where
  "DWCAS same ix r oldKey oldVal newKey newVal = do {
     s \<leftarrow> loadSlot ix r;
     (if Key s = oldKey \<and> same (Val s) oldVal
      then do { ix' \<leftarrow> storeSlot ix r (s\<lparr>Key := newKey, Val := newVal\<rparr>); Some (True, ix') }
      else Some (False, ix)) }"

lemma loadSlot_storeSlot:
  assumes "loadSlot ix r = Some s0" "storeSlot ix r s = Some ix'"
  shows "loadSlot ix' r = Some s"
  using storeSlot_effect [OF assms(1), of s] assms(2) by force

lemma storeSlot_twice:
  assumes "storeSlot ix r s = Some ix'"
  shows "storeSlot ix' r s' = storeSlot ix r s'"
proof (cases r)
  case (PrimarySlot b i)
  with assms show ?thesis
    by (auto simp: getBinByIndex_def slotAt_def nth_opt_def split: if_splits bind_splits)
next
  case (LinkSlot l i)
  with assms show ?thesis
    by (auto simp: getLinkBucket_def linkSlotAt_def nth_opt_def Let_def
        split: if_splits bind_splits)
qed

lemma storeKeyVal:
  assumes "loadSlot ix r = Some s0" "storeSlot ix r (s0\<lparr>Key := k, Val := v\<rparr>) = Some ix'"
  obtains ix1 where "storeSlotKey ix r k = Some ix1" "atomicStoreSlotVal ix1 r v = Some ix'"
proof -
  obtain ix1 where ix1: "storeSlot ix r (s0\<lparr>Key := k\<rparr>) = Some ix1"
    using storeSlot_effect [OF assms(1), of "s0\<lparr>Key := k\<rparr>"] by blast
  then have "loadSlot ix1 r = Some (s0\<lparr>Key := k\<rparr>)" using assms(1) loadSlot_storeSlot by blast
  with ix1 assms have "storeSlotKey ix r k = Some ix1" "atomicStoreSlotVal ix1 r v = Some ix'"
    using storeSlot_twice [OF ix1] by (simp_all add: storeSlotKey_def atomicStoreSlotVal_def)
  then show ?thesis by (rule that)
qed

section \<open>Three changes of a settled index\<close>

lemma settled_frame:
  assumes "settled ix" "same_frame ix ix'" "lmeta ix' = lmeta ix" "wf_index ix'"
    and "\<And>b. getBinState (hdr ix' b) = getBinState (hdr ix b)"
    and "\<And>b i. inBin ix b \<Longrightarrow> i < 15 \<Longrightarrow> getSlotState (hdr ix' b) (int i) \<noteq> SlotTrying"
  shows "settled ix'"
proof -
  have sg: "same_geometry ix ix'" using assms(2) by (rule same_frame_geometry)
  have "alloc_ok ix'"
    using assms(1,2,3) unfolding settled_def alloc_ok_def same_frame_def linkAt_def
      same_geometry_inBin [OF sg] by (simp add: same_geometry_def)
  with assms show ?thesis
    by (simp add: settled_def same_geometry_inBin [OF sg])
qed

lemma not_Trying: "i < 15 \<Longrightarrow> getSlotState h (int i) \<noteq> SlotTrying \<longleftrightarrow> stHi h i \<or> \<not> stLo h i"
  using slot_state_cases(2) [of i h] by blast

lemma settled_not_Trying:
  "settled ix \<Longrightarrow> inBin ix b \<Longrightarrow> i < 15 \<Longrightarrow> stHi (hdr ix b) i \<or> \<not> stLo (hdr ix b) i"
  using not_Trying [of i "hdr ix b"] by (simp add: settled_def)

lemma settled_links_extend:
  assumes "settled ix" "links_extend ix ix'" "wf_index ix'" "alloc_ok ix'"
  shows "settled ix'"
  using assms same_geometry_inBin [of ix ix'] by (simp add: settled_def links_extend_def)

lemma links_extend_abs:
  assumes ext: "links_extend ix ix'" and wf: "wf_index ix"
  shows "absMap content hash ix' = absMap content hash ix"
    and "entries_wf content hash ok ix \<Longrightarrow> entries_wf content hash ok ix'"
proof -
  have sg: "same_geometry ix ix'" using ext by (simp add: links_extend_def)
  have sh: "shape ix" "states_wf ix" using wf by (simp_all add: wf_index_def)
  have v: "view ix' b i = view ix b i" if "inBin ix b" for b i
    using links_extend_view [OF ext sh(2) that] .
  have inb: "inBin ix' b = inBin ix b" "binOf ix' h = binOf ix h" for b h
    using same_geometry_inBin [OF sg] same_geometry_binOf [OF sg] by auto
  have "binEntries content ix' b = binEntries content ix b" if "inBin ix b" for b
    using v [OF that] by (simp add: binEntries_def slotEntry_def [abs_def])
  then show "absMap content hash ix' = absMap content hash ix"
    using binOf_in [OF sh(1)] by (simp add: absMap_def fun_eq_iff inb)
  show "entries_wf content hash ok ix'" if ew: "entries_wf content hash ok ix"
    unfolding entries_wf_def inb slotEntry_def
    using entries_wfD [OF ew] entries_unique [OF ew] v unfolding slotEntry_def by metis
qed

text \<open>Insert: the slot goes from Invalid over Trying to Valid, and is written in between.\<close>

lemma publish:
  assumes st: "settled ix" and ew: "entries_wf content hash ok ix" and b: "b = binOf ix (hash k)"
    and absent: "absMap content hash ix k = None"
    and i: "i < 15" "isInvalid ix b i" "slotRef ix b i = Some r"
    and s: "ok s" "content s = Some (k, v)"
  defines "h1 \<equiv> setSlotStateAndVersion (hdr ix b) (int i) SlotTrying"
  obtains ix1 ix2 ix3 s0 where
    "storeHeader ix b h1 = Some ix1" "slotRef ix1 b i = Some r" "loadSlot ix1 r = Some s0"
    "storeSlot ix1 r s = Some ix2" "inBin ix1 b" "hdr ix1 b = h1" "inBin ix2 b" "hdr ix2 b = h1"
    "storeHeader ix2 b (setSlotStateAndVersion h1 (int i) SlotValid) = Some ix3"
    "settled ix3" "entries_wf content hash ok ix3" "same_frame ix ix3"
    "absMap content hash ix3 = (absMap content hash ix)(k \<mapsto> v)" "linksExact ix3 = linksExact ix"
proof -
  have wf: "wf_index ix" and sh: "shape ix" using settledD [OF st] by auto
  have in_b: "inBin ix b" using b binOf_in [OF sh] by simp
  have ref: "slotRef ix b i \<noteq> None" using i(3) by simp
  have states: "SlotTrying \<in> {0, 1, 2}" "SlotValid \<in> {0, 1, 2}" by simp_all
  obtain ix1 where a: "storeHeader ix b h1 = Some ix1" "same_frame ix ix1" "lmeta ix1 = lmeta ix"
    "slotRef ix1 = slotRef ix" "slotIn ix1 = slotIn ix" "\<And>r. loadSlot ix1 r = loadSlot ix r"
    "\<And>b'. hdr ix1 b' = (if b' = b then h1 else hdr ix b')" "wf_index ix1"
    using setSlotState_effect [OF wf in_b i(1) ref states(1), folded h1_def] by metis
  have in1: "inBin ix1 b" using in_b same_geometry_inBin [OF same_frame_geometry [OF a(2)]] by simp
  obtain ix2 where c: "storeSlot ix1 r s = Some ix2" "same_frame ix1 ix2" "hdr ix2 = hdr ix1"
    "lmeta ix2 = lmeta ix1" "slotRef ix2 = slotRef ix1" "wf_index ix2"
    "\<And>b' j. inBin ix1 b' \<Longrightarrow> j < 15 \<Longrightarrow>
       slotIn ix2 b' j = (if b' = b \<and> j = i then Some s else slotIn ix1 b' j)"
    using storeSlotAt_effect [OF a(8) in1 i(1), of r s] i(3) unfolding a(4) by blast
  have in2: "inBin ix2 b" using in1 same_geometry_inBin [OF same_frame_geometry [OF c(2)]] by simp
  have h2: "hdr ix2 b = h1" by (simp add: c(3) a(7))
  let ?h3 = "setSlotStateAndVersion h1 (int i) SlotValid"
  have "slotRef ix2 b i \<noteq> None" using ref by (simp add: c(5) a(4))
  then obtain ix3 where d: "storeHeader ix2 b ?h3 = Some ix3" "same_frame ix2 ix3"
    "lmeta ix3 = lmeta ix2" "slotIn ix3 = slotIn ix2"
    "\<And>b'. hdr ix3 b' = (if b' = b then ?h3 else hdr ix2 b')" "wf_index ix3"
    "\<And>b'. getBinState (hdr ix3 b') = getBinState (hdr ix2 b')"
    using setSlotState_effect [OF c(6) in2 i(1) _ states(2), unfolded h2] by metis
  have sf: "same_frame ix ix3"
    using a(2) c(2) d(2) by (blast intro: same_frame_trans)
  have hi: "stHi (hdr ix3 b') j = (if b' = b \<and> j = i then True else stHi (hdr ix b') j)"
    "stLo (hdr ix3 b') j = (if b' = b \<and> j = i then False else stLo (hdr ix b') j)"
    if "j < 15" for b' j
    using that i(1) by (auto simp: d(5) c(3) a(7) h1_def stHi_setSlot stLo_setSlot bit_3)
  have bs: "getBinState (hdr ix3 b') = getBinState (hdr ix b')" for b'
    using d(7) [of b'] i(1) by (auto simp: c(3) a(7) h1_def getBinState_setSlot split: if_splits)
  have st3: "settled ix3"
  proof (rule settled_frame [OF st sf _ d(6) bs])
    show "lmeta ix3 = lmeta ix" by (simp add: d(3) c(4) a(3))
    show "getSlotState (hdr ix3 b') (int j) \<noteq> SlotTrying" if "inBin ix b'" "j < 15" for b' j
      unfolding not_Trying [OF that(2)] hi [OF that(2)]
      using settled_not_Trying [OF st that] by simp
  qed
  have v3: "view ix3 b' j = (if b' = b \<and> j = i then Some s else view ix b' j)" if "inBin ix b'" for b' j
  proof (cases "j < 15")
    case True
    have "inBin ix1 b'" using that same_geometry_inBin [OF same_frame_geometry [OF a(2)]] by simp
    from c(7) [OF this True] show ?thesis
      unfolding view_def isValid_def hi [OF True] d(4) a(5) using True by auto
  qed (use i(1) in \<open>simp add: view_def\<close>)
  have "slotEntry content ix b i = None"
    using i(2) by (simp add: slotEntry_def view_def isValid_def isInvalid_def)
  then have before: "slotEntry content ix b i = None \<and> absMap content hash ix k = None \<or>
      (\<exists>v0. slotEntry content ix b i = Some (k, v0))" using absent by simp
  note up = entries_update [OF ew sh same_frame_geometry [OF sf] b before v3]
  have "entries_wf content hash ok ix3"
    "absMap content hash ix3 = (absMap content hash ix)(k \<mapsto> v)"
    using up s by auto
  moreover have "slotRef ix1 b i = Some r" using i(3) by (simp add: a(4))
  moreover have "\<exists>s0. loadSlot ix1 r = Some s0"
    using slotRef_load [of ix1 b i r] a(8) in1 i(1) calculation(3) by (simp add: wf_index_def)
  moreover have "linksExact ix3 = linksExact ix"
    by (rule linksExact_frame [OF sf]) (simp add: d(3) c(4) a(3))
  ultimately show ?thesis
    using that a(1) c(1) d(1) in1 in2 h2 st3 sf a(7) [of b] by auto
qed

text \<open>Put: a visible slot is rewritten in place; the header does not change.\<close>

lemma rewrite_slot:
  assumes st: "settled ix" and ew: "entries_wf content hash ok ix" and b: "b = binOf ix (hash k)"
    and i: "slotEntry content ix b i = Some (k, v0)" "slotRef ix b i = Some r"
    and s: "ok s" "content s = Some (k, v)"
  obtains ix' where "storeSlot ix r s = Some ix'" "settled ix'" "entries_wf content hash ok ix'"
    "same_frame ix ix'" "absMap content hash ix' = (absMap content hash ix)(k \<mapsto> v)"
    "linksExact ix' = linksExact ix"
proof -
  have wf: "wf_index ix" and sh: "shape ix" using settledD [OF st] by auto
  have in_b: "inBin ix b" using b binOf_in [OF sh] by simp
  have i15: "i < 15" using i(1) by (rule slotEntry_less)
  obtain ix' where c: "storeSlot ix r s = Some ix'" "same_frame ix ix'" "hdr ix' = hdr ix"
    "lmeta ix' = lmeta ix" "slotRef ix' = slotRef ix" "wf_index ix'"
    "\<And>b' j. inBin ix b' \<Longrightarrow> j < 15 \<Longrightarrow>
       slotIn ix' b' j = (if b' = b \<and> j = i then Some s else slotIn ix b' j)"
    using storeSlotAt_effect [OF wf in_b i15 i(2), of s] by blast
  have "settled ix'"
    by (rule settled_frame [OF st c(2,4,6)]) (use st in \<open>auto simp: c(3) settled_def\<close>)
  moreover have v: "view ix' b' j = (if b' = b \<and> j = i then Some s else view ix b' j)"
    if "inBin ix b'" for b' j
    using c(7) [OF that] i(1) i15
    by (auto simp: view_def isValid_def c(3) slotEntry_def split: if_splits)
  ultimately show ?thesis
    using entries_update [OF ew sh same_frame_geometry [OF c(2)] b _ v] i(1) s c(1,2) linksExact_frame [OF c(2,4)] that
    by auto
qed

text \<open>
  Delete: a visible slot becomes Invalid. Its words may have been overwritten before (the
  allocator clears the pointer first), or stay behind (inline).
\<close>

lemma clear_slot:
  assumes st: "settled ix" and ew: "entries_wf content hash ok ix" and b: "b = binOf ix (hash k)"
    and i: "slotEntry content ix b i = Some (k, v0)" "slotRef ix b i = Some r"
    and bits: "\<And>j. j < 15 \<Longrightarrow> stHi h' j = (if j = i then False else stHi (hdr ix b) j)"
      "\<And>j. j < 15 \<Longrightarrow> stLo h' j = (if j = i then False else stLo (hdr ix b) j)"
      "getBinState h' = getBinState (hdr ix b)"
    and pre: "ix0 = ix \<or> storeSlot ix r s = Some ix0"
  obtains ix' where "storeHeader ix0 b h' = Some ix'" "settled ix'" "entries_wf content hash ok ix'"
    "same_frame ix ix'" "absMap content hash ix' = (absMap content hash ix)(k := None)"
    "hdr ix0 b = hdr ix b" "inBin ix0 b" "linksExact ix' = linksExact ix"
proof -
  have wf: "wf_index ix" and sh: "shape ix" using settledD [OF st] by auto
  have in_b: "inBin ix b" using b binOf_in [OF sh] by simp
  have i15: "i < 15" using i(1) by (rule slotEntry_less)
  have c: "same_frame ix ix0 \<and> hdr ix0 = hdr ix \<and> lmeta ix0 = lmeta ix \<and> wf_index ix0 \<and>
      slotRef ix0 = slotRef ix \<and>
      (\<forall>b' j. inBin ix b' \<and> j < 15 \<and> (b', j) \<noteq> (b, i) \<longrightarrow> slotIn ix0 b' j = slotIn ix b' j)"
  proof (cases "ix0 = ix")
    case True
    with wf show ?thesis by simp
  next
    case False
    with pre have "storeSlot ix r s = Some ix0" by simp
    moreover obtain ix1 where "storeSlot ix r s = Some ix1" "same_frame ix ix1" "hdr ix1 = hdr ix"
      "lmeta ix1 = lmeta ix" "slotRef ix1 = slotRef ix" "wf_index ix1"
      "\<And>b' j. inBin ix b' \<Longrightarrow> j < 15 \<Longrightarrow>
         slotIn ix1 b' j = (if b' = b \<and> j = i then Some s else slotIn ix b' j)"
      using storeSlotAt_effect [OF wf in_b i15 i(2), of s] by blast
    ultimately show ?thesis by simp
  qed
  have in0: "inBin ix0 b"
    using in_b c same_geometry_inBin [OF same_frame_geometry, of ix ix0 b] by simp
  have h0: "hdr ix0 b = hdr ix b" using c by simp
  have bits0: "\<And>j. j < 15 \<Longrightarrow> stHi h' j = (if j = i then False else stHi (hdr ix0 b) j)"
    "\<And>j. j < 15 \<Longrightarrow> stLo h' j = (if j = i then False else stLo (hdr ix0 b) j)"
    "getBinState h' = getBinState (hdr ix0 b)"
    using bits by (simp_all add: h0)
  have c6: "wf_index ix0" using c by simp
  obtain ix' where d: "storeHeader ix0 b h' = Some ix'" "same_frame ix0 ix'"
    "lmeta ix' = lmeta ix0" "slotIn ix' = slotIn ix0"
    "\<And>b'. hdr ix' b' = (if b' = b then h' else hdr ix0 b')" "wf_index ix'"
    "\<And>b'. getBinState (hdr ix' b') = getBinState (hdr ix0 b')"
    using writeState_effect [OF c6 in0 i15 _ _ bits0] by metis
  have sf: "same_frame ix ix'" using c d(2) by (blast intro: same_frame_trans)
  have st': "settled ix'"
  proof (rule settled_frame [OF st sf _ d(6)])
    show "lmeta ix' = lmeta ix" using c by (simp add: d(3))
    show "getBinState (hdr ix' b') = getBinState (hdr ix b')" for b' using c by (simp add: d(7))
    show "getSlotState (hdr ix' b') (int j) \<noteq> SlotTrying" if "inBin ix b'" "j < 15" for b' j
      unfolding not_Trying [OF that(2)]
      using settled_not_Trying [OF st that] c bits(1,2) [OF that(2)] by (auto simp: d(5))
  qed
  have v: "view ix' b' j = (if b' = b \<and> j = i then None else view ix b' j)" if "inBin ix b'" for b' j
    using c bits that by (auto simp: view_def isValid_def d(4,5))
  have before: "slotEntry content ix b i = None \<and> absMap content hash ix k = None \<or>
      (\<exists>v0. slotEntry content ix b i = Some (k, v0))" using i(1) by simp
  note up = entries_update [OF ew sh same_frame_geometry [OF sf] b before v]
  have "linksExact ix' = linksExact ix"
    by (rule linksExact_frame [OF sf]) (use c in \<open>simp add: d(3)\<close>)
  with up show ?thesis using that [OF d(1) st' _ sf _ h0 in0] by simp
qed

end
