(* ===== verification/ResizeLinks.thy ===== *)
theory ResizeLinks
  imports SlotUpdate
begin

text \<open>
  The part of resize.go that fills the new index: links taken from the top of its arena, the
  choice of a slot in a new bin, and \<open>insertIntoNewIndex\<close>. The lemmas show that an insertion
  into a new bin with fewer than fifteen entries succeeds, and what it costs in links.
\<close>

section \<open>Definitions\<close>

text \<open>\<open>^uint32(0)\<close> and \<open>^uint32(1)\<close> are -1 and -2 in two's complement.\<close>

definition nextSingleLinkForResize :: "32 word \<Rightarrow> 32 word \<times> 32 word" where
  "nextSingleLinkForResize linkNextR =
     (let newVal = linkNextR + NOT 0
      in (if newVal = 0 then NO_LINK else newVal, newVal))"

definition nextLinkPairForResize :: "32 word \<Rightarrow> 32 word \<times> 32 word" where
  "nextLinkPairForResize linkNextR =
     (let newVal = linkNextR + NOT 1
      in (if newVal \<le> 1 then NO_LINK else newVal, newVal))"

definition attachSingleForResize ::
  "'v index \<Rightarrow> 64 word \<Rightarrow> 32 word \<Rightarrow> (32 word \<times> 'v index \<times> 32 word) option" where
  "attachSingleForResize ix b linkNextR =
     (let (linkIdx, linkNextR') = nextSingleLinkForResize linkNextR
      in do {
        pb \<leftarrow> getBinByIndex ix b;
        ix' \<leftarrow> storeLinkMeta ix b (setSingle (LinkMeta pb) linkIdx);
        Some (linkIdx, ix', linkNextR') })"

definition attachPairForResize ::
  "'v index \<Rightarrow> 64 word \<Rightarrow> 32 word \<Rightarrow> (32 word \<times> 'v index \<times> 32 word) option" where
  "attachPairForResize ix b linkNextR =
     (let (ps, linkNextR') = nextLinkPairForResize linkNextR
      in do {
        pb \<leftarrow> getBinByIndex ix b;
        ix' \<leftarrow> storeLinkMeta ix b (setPairStart (LinkMeta pb) ps);
        Some (ps, ix', linkNextR') })"

text \<open>
  The second half of \<open>findFreeSlotOrChain\<close>, from the test of the pair on. \<open>h\<close> and \<open>lm\<close> are
  the header and the link descriptor loaded at the start.
\<close>

definition findFreeInPair ::
  "'v index \<Rightarrow> 64 word \<Rightarrow> 64 word \<Rightarrow> 64 word \<Rightarrow> 32 word \<Rightarrow> (int \<times> 'v index \<times> 32 word) option" where
  "findFreeInPair ix b h lm linkNextR =
     (if getPairStart lm = NO_LINK
      then do {
        (ps, ix', linkNextR') \<leftarrow> attachPairForResize ix b linkNextR;
        Some (if ps \<noteq> NO_LINK then PRIMARY_SLOTS + LINK_SLOTS else -1, ix', linkNextR') }
      else
        (let m0 = invalidMask4 h 7; m1 = invalidMask4 h 11
         in if m0 \<noteq> 0 then Some (PRIMARY_SLOTS + LINK_SLOTS + lowestSlot m0, ix, linkNextR)
            else if m1 \<noteq> 0
            then Some (PRIMARY_SLOTS + 2 * LINK_SLOTS + lowestSlot m1, ix, linkNextR)
            else Some (-1, ix, linkNextR)))"

definition findFreeSlotOrChain ::
  "'v index \<Rightarrow> 64 word \<Rightarrow> 32 word \<Rightarrow> (int \<times> 'v index \<times> 32 word) option" where
  "findFreeSlotOrChain ix b linkNextR = do {
     pb \<leftarrow> getBinByIndex ix b;
     let h = Header pb;
     let lm = LinkMeta pb;
     let m = invalidMask3 h;
     (if m \<noteq> 0 then Some (lowestSlot m, ix, linkNextR)
      else if getSingle lm = NO_LINK
      then do {
        (l, ix', linkNextR') \<leftarrow> attachSingleForResize ix b linkNextR;
        (if l \<noteq> NO_LINK then Some (PRIMARY_SLOTS, ix', linkNextR')
         else findFreeInPair ix' b h lm linkNextR') }
      else
        (let m = invalidMask4 h 3
         in if m \<noteq> 0 then Some (PRIMARY_SLOTS + lowestSlot m, ix, linkNextR)
            else findFreeInPair ix b h lm linkNextR)) }"

text \<open>
  \<open>insertIntoNewIndex\<close>. In \<open>allocator\<close> the word stored as \<open>Slot.Key\<close> is the hash itself; in
  \<open>inline\<close> it is the key. A slot index of -1 makes the code write outside the slots of the
  bin, which is a fault here; \<open>place_in_new\<close> below shows that it does not happen.
\<close>

definition insertIntoNewIndex ::
  "'v index \<Rightarrow> 64 word \<Rightarrow> 64 word \<Rightarrow> 'v \<Rightarrow> 32 word \<Rightarrow> ('v index \<times> 32 word) option" where
  "insertIntoNewIndex ix hash key val linkNextR = do {
     let b = binOf ix hash;
     _ \<leftarrow> getBin ix hash;
     (slotIndex, ix1, linkNextR') \<leftarrow> findFreeSlotOrChain ix b linkNextR;
     slot \<leftarrow> Option.bind (getSlotByIndex ix1 b slotIndex) id;
     ix2 \<leftarrow> storeSlotKey ix1 slot key;
     ix3 \<leftarrow> atomicStoreSlotVal ix2 slot val;
     pb \<leftarrow> getBinByIndex ix3 b;
     ix4 \<leftarrow> storeHeader ix3 b (setSlotStateAndVersion (Header pb) slotIndex SlotValid);
     Some (ix4, linkNextR') }"

section \<open>Counting the slots of a bin\<close>

definition validCount :: "'v index \<Rightarrow> 64 word \<Rightarrow> nat" where
  "validCount ix b = card {i. i < 15 \<and> isValid ix b i}"

text \<open>
  A new index while it is being filled: nobody else uses it, so no slot is reserved; links
  are handed out downwards, and a bin has links only when its entries need them.
\<close>

definition filling :: "'v index \<Rightarrow> 32 word \<Rightarrow> bool" where
  "filling ix linkNextR \<longleftrightarrow> wf_index ix \<and> unat linkNextR \<le> length (links ix) \<and>
     (\<forall>b. inBin ix b \<longrightarrow> getBinState (hdr ix b) = BinNoTransfer \<and>
        (\<forall>i<15. getSlotState (hdr ix b) (int i) \<noteq> SlotTrying) \<and>
        (\<forall>u<3. linkAt ix b u \<noteq> 0 \<longrightarrow> unat linkNextR \<le> unat (linkAt ix b u)) \<and>
        (linkAt ix b 0 \<noteq> 0 \<longrightarrow> 4 \<le> validCount ix b) \<and>
        (linkAt ix b 1 \<noteq> 0 \<longrightarrow> 8 \<le> validCount ix b))"

lemma validCount_le:
  assumes "\<And>i. i < n \<Longrightarrow> isValid ix b i" "n \<le> 15"
  shows "n \<le> validCount ix b"
proof -
  have "{i. i < n} \<subseteq> {i. i < 15 \<and> isValid ix b i}" using assms by auto
  then show ?thesis using card_mono [of "{i. i < 15 \<and> isValid ix b i}" "{i. i < n}"]
    by (simp add: validCount_def)
qed

lemma validCount_less:
  assumes "validCount ix b < 15"
  shows "\<exists>i<15. \<not> isValid ix b i"
proof (rule ccontr)
  assume "\<not> (\<exists>i<15. \<not> isValid ix b i)"
  then have "15 \<le> validCount ix b" by (intro validCount_le) auto
  with assms show False by simp
qed

lemma linkCount_bound:
  assumes "filling ix l" "inBin ix b"
  shows "linkCount ix b \<le> validCount ix b div 4 + validCount ix b div 8"
proof -
  let ?n = "validCount ix b"
  have "linkAt ix b 0 \<noteq> 0 \<Longrightarrow> 4 \<le> ?n" "linkAt ix b 1 \<noteq> 0 \<Longrightarrow> 8 \<le> ?n"
    using assms by (simp_all add: filling_def)
  moreover have "4 \<le> n \<Longrightarrow> 1 \<le> n div 4" "8 \<le> n \<Longrightarrow> 2 \<le> n div 4" "8 \<le> n \<Longrightarrow> 1 \<le> n div 8"
    for n :: nat by (simp_all add: less_eq_div_iff_mult_less_eq)
  then have "4 \<le> n \<Longrightarrow> 1 \<le> n div 4 + n div 8" "8 \<le> n \<Longrightarrow> 3 \<le> n div 4 + n div 8" for n :: nat
    by (simp_all add: trans_le_add1) (metis add_mono numeral_3_eq_3 numeral_2_eq_2 One_nat_def add.commute plus_1_eq_Suc)
  ultimately have "linkAt ix b 0 \<noteq> 0 \<Longrightarrow> 1 \<le> ?n div 4 + ?n div 8"
    "linkAt ix b 1 \<noteq> 0 \<Longrightarrow> 3 \<le> ?n div 4 + ?n div 8" by blast+
  moreover have "linkCount ix b \<le>
      (if linkAt ix b 1 \<noteq> 0 then 3 else if linkAt ix b 0 \<noteq> 0 then 1 else 0)"
    by (simp add: linkCount_def)
  ultimately show ?thesis by (simp split: if_splits)
qed

section \<open>Choosing a slot in a new bin\<close>

lemma filling_states:
  assumes "filling ix l" "inBin ix b" "i < 15"
  shows "isInvalid ix b i \<longleftrightarrow> \<not> isValid ix b i"
proof -
  have "\<not> (stHi (hdr ix b) i \<and> stLo (hdr ix b) i)"
    using assms unfolding filling_def wf_index_def states_wf_def by blast
  moreover have "stHi (hdr ix b) i \<or> \<not> stLo (hdr ix b) i"
    using assms slot_state_cases(2) [OF assms(3), of "hdr ix b"] by (simp add: filling_def)
  ultimately show ?thesis by (auto simp: isValid_def isInvalid_def)
qed

text \<open>Attaching a link of the resize: what changes and what it costs.\<close>

lemma attachForResize_wf:
  assumes fl: "filling ix l" and b: "inBin ix b"
    and ix': "storeLinkMeta ix b lm = Some ix'"
    and l': "unat l' \<le> unat l"
    and links: "\<forall>u<3. resolveLink lm (int u) \<noteq> linkAt ix b u \<longrightarrow>
      unat l' \<le> unat (resolveLink lm (int u)) \<and> unat (resolveLink lm (int u)) < unat l"
    and inj: "\<forall>u<3. \<forall>u'<3. resolveLink lm (int u) \<noteq> linkAt ix b u \<and>
      resolveLink lm (int u') \<noteq> linkAt ix b u' \<and> resolveLink lm (int u) = resolveLink lm (int u') \<longrightarrow>
      u = u'"
    and order: "getPairStart lm \<noteq> 0 \<longrightarrow> getSingle lm \<noteq> 0 \<and> getPairStart lm + 1 \<noteq> 0"
    and ext: "\<forall>u. linkAt ix b u \<noteq> 0 \<longrightarrow> resolveLink lm (int u) = linkAt ix b u"
  shows "wf_index ix'" "links_extend ix ix'" "lmeta ix' b = lm" "same_frame ix ix'"
    "\<And>b' u. linkAt ix' b' u = (if b' = b then resolveLink lm (int u) else linkAt ix b' u)"
    "\<And>b' u. inBin ix b' \<Longrightarrow> u < 3 \<Longrightarrow> linkAt ix' b' u \<noteq> 0 \<Longrightarrow> unat l' \<le> unat (linkAt ix' b' u)"
proof -
  have wf: "wf_index ix" and top: "unat l \<le> length (links ix)"
    and above: "\<And>b u. inBin ix b \<Longrightarrow> u < 3 \<Longrightarrow> linkAt ix b u \<noteq> 0 \<Longrightarrow> unat l \<le> unat (linkAt ix b u)"
    using fl by (auto simp: filling_def)
  obtain ix1 where "storeLinkMeta ix b lm = Some ix1" "same_frame ix ix1"
    "\<And>b'. lmeta ix1 b' = (if b' = b then lm else lmeta ix b')" "hdr ix1 = hdr ix"
    "\<And>r. loadSlot ix1 r = loadSlot ix r"
    using storeLinkMeta_effect [OF b, of lm] by blast
  with ix' have e: "same_frame ix ix'" "\<And>b'. lmeta ix' b' = (if b' = b then lm else lmeta ix b')"
    "hdr ix' = hdr ix" "\<And>r. loadSlot ix' r = loadSlot ix r" by auto
  show la: "linkAt ix' b' u = (if b' = b then resolveLink lm (int u) else linkAt ix b' u)" for b' u
    by (simp add: linkAt_def e(2))
  show le: "links_extend ix ix'"
    using e ext by (auto simp: links_extend_def same_frame_def la fun_eq_iff)
  show "lmeta ix' b = lm" "same_frame ix ix'" by (simp_all add: e)
  have new: "linkAt ix' b u = linkAt ix b u \<or> unat l' \<le> unat (linkAt ix' b u) \<and>
      unat (linkAt ix' b u) < unat l \<and> linkAt ix b u = 0" if "u < 3" for u
    using links ext that by (auto simp: la)
  show "wf_index ix'"
  proof (rule attach_wf [OF wf b le])
    show "linkAt ix' b' u = linkAt ix b' u" if "b' \<noteq> b" for b' u using that by (simp add: la)
    show "unat (linkAt ix' b u) \<le> length (links ix)" if "u < 3" for u
      using new [OF that] top wf b that by (auto simp: wf_index_def links_wf_def)
    show "linkAt ix' b u \<noteq> linkAt ix b' u'"
      if "u < 3" "u' < 3" "inBin ix b'" "linkAt ix' b u \<noteq> linkAt ix b u" for u b' u'
    proof (cases "linkAt ix b' u' = 0")
      case True
      have "linkAt ix' b u \<noteq> 0" using new [OF that(1)] that(4) by auto
      with True show ?thesis by simp
    next
      case False
      then show ?thesis using above [OF that(3,2)] new [OF that(1)] that(4) by auto
    qed
    show "u = u'" if "u < 3" "u' < 3" "linkAt ix' b u \<noteq> linkAt ix b u"
      "linkAt ix' b u' \<noteq> linkAt ix b u'" "linkAt ix' b u = linkAt ix' b u'" for u u'
      using inj that by (simp add: la)
    show "linkAt ix' b 1 \<noteq> 0 \<Longrightarrow> linkAt ix' b 0 \<noteq> 0 \<and> linkAt ix' b 2 \<noteq> 0"
      using order by (simp add: la resolveLink_def)
  qed
  show "unat l' \<le> unat (linkAt ix' b' u)"
    if "inBin ix b'" "u < 3" "linkAt ix' b' u \<noteq> 0" for b' u
    using above [OF that(1,2)] new [OF that(2)] l' that(3) by (cases "b' = b") (auto simp: la)
qed


text \<open>What \<open>findFreeSlotOrChain\<close> guarantees to \<open>insertIntoNewIndex\<close>.\<close>

definition chained ::
  "'v index \<Rightarrow> 32 word \<Rightarrow> 64 word \<Rightarrow> nat \<Rightarrow> 'v index \<Rightarrow> 32 word \<Rightarrow> bool" where
  "chained ix l b i ix' l' \<longleftrightarrow>
     i < 15 \<and> isInvalid ix b i \<and> slotRef ix' b i \<noteq> None \<and>
     links_extend ix ix' \<and> same_frame ix ix' \<and> wf_index ix' \<and> unat l' \<le> unat l \<and>
     (\<forall>b' u. b' \<noteq> b \<longrightarrow> linkAt ix' b' u = linkAt ix b' u) \<and>
     (\<forall>b' u. inBin ix b' \<and> u < 3 \<and> linkAt ix' b' u \<noteq> 0 \<longrightarrow> unat l' \<le> unat (linkAt ix' b' u)) \<and>
     unat l + linkCount ix b = unat l' + linkCount ix' b \<and>
     (linkAt ix' b 0 \<noteq> 0 \<longrightarrow> 3 \<le> validCount ix b) \<and>
     (linkAt ix' b 1 \<noteq> 0 \<longrightarrow> 7 \<le> validCount ix b)"

lemma chained_same:
  assumes "filling ix l" "inBin ix b" "i < 15" "isInvalid ix b i" "slotRef ix b i \<noteq> None"
  shows "chained ix l b i ix l"
  using assms unfolding chained_def filling_def by auto

lemma mask3_full:
  assumes "filling ix l" "inBin ix b" "invalidMask3 (hdr ix b) = 0" "j < 3"
  shows "isValid ix b j"
  using assms filling_states [OF assms(1,2), of j]
  by (auto simp: invalidMask3_0 isInvalid_def)

lemma mask4_full:
  assumes "filling ix l" "inBin ix b" "base = 3 \<or> base = 7 \<or> base = 11"
    "invalidMask4 (hdr ix b) base = 0" "base \<le> j" "j < base + 4"
  shows "isValid ix b j"
proof -
  have "j < 15" using assms(3,6) by auto
  then show ?thesis
    using invalidMask4_0 [OF assms(3-6)] filling_states [OF assms(1,2)] by (auto simp: isInvalid_def)
qed

lemma mask4_found:
  assumes fl: "filling ix l" and b: "inBin ix b" and u: "u < 3" and at: "linkAt ix b u \<noteq> 0"
    and base: "base = 3 + 4 * u" and m: "invalidMask4 (hdr ix b) base \<noteq> 0"
  obtains i where "int base + lowestSlot (invalidMask4 (hdr ix b) base) = int i"
    "chained ix l b i ix l"
proof -
  have "base = 3 \<or> base = 7 \<or> base = 11" using u base by auto
  then obtain i where i: "base \<le> i" "i < base + 4"
    "int base + lowestSlot (invalidMask4 (hdr ix b) base) = int i" "isInvalid ix b i"
    using invalidMask4_lowest [OF _ m] by (metis isInvalid_def)
  then have "(i - 3) div 4 = u" "3 \<le> i" "i < 15" using base u by auto
  then have "slotRef ix b i \<noteq> None" using at by (simp add: slotRef_link [OF b])
  with i that fl b \<open>i < 15\<close> show ?thesis using chained_same by blast
qed

lemma unattached_invalid:
  assumes "wf_index ix" "inBin ix b" "u < 3" "linkAt ix b u = 0"
  shows "isInvalid ix b (3 + 4 * u)"
proof -
  have "slotRef ix b (3 + 4 * u) = None" using assms(2,4) by (simp add: slotRef_link)
  then show ?thesis using assms(1-3) unfolding wf_index_def states_wf_def by auto
qed

lemma attachSingleForResize_spec:
  assumes fl: "filling ix l" and b: "inBin ix b" and none: "getSingle (lmeta ix b) = 0"
    and l: "2 \<le> unat l" and full: "3 \<le> validCount ix b"
  obtains ix' l' where "attachSingleForResize ix b l = Some (l', ix', l')" "l' \<noteq> 0"
    "chained ix l b 3 ix' l'"
proof -
  have l': "unat (l - 1) = unat l - 1" using l by (intro unat_pred) auto
  then have n0: "l - 1 \<noteq> 0" using l by (metis One_nat_def Suc_1 diff_is_0_eq not_less_eq_eq unat_0)
  have eq: "l + NOT 0 = l - 1" by simp
  let ?lm = "setSingle (lmeta ix b) (l - 1)"
  have wf: "wf_index ix" using fl by (simp add: filling_def)
  have p0: "getPairStart (lmeta ix b) = 0"
    using wf b none linkAt_simps [of ix b] by (auto simp: wf_index_def links_wf_def)
  obtain ix' where ix': "storeLinkMeta ix b ?lm = Some ix'"
    using b by (auto simp: storeLinkMeta_def)
  have at: "attachSingleForResize ix b l = Some (l - 1, ix', l - 1)"
    unfolding attachSingleForResize_def nextSingleLinkForResize_def Let_def eq
    by (simp only: getBinByIndex_in [OF b] Option.bind.simps lmeta_def [symmetric] ix' n0 if_False
        prod.case)
  have r: "resolveLink ?lm (int u) = (if u = 0 then l - 1 else linkAt ix b u)" for u
    using p0 by (auto simp: resolveLink_def linkAt_def link_simps)
  have la0: "linkAt ix b 0 = 0" "linkAt ix b 1 = 0" using none p0 linkAt_simps [of ix b] by auto
  have new: "u = 0" if "resolveLink ?lm (int u) \<noteq> linkAt ix b u" for u
    using that by (auto simp: r split: if_splits)
  have p1: "unat (l - 1) \<le> unat l" using l' by simp
  have p2: "\<forall>u<3. resolveLink ?lm (int u) \<noteq> linkAt ix b u \<longrightarrow>
      unat (l - 1) \<le> unat (resolveLink ?lm (int u)) \<and> unat (resolveLink ?lm (int u)) < unat l"
    using l l' by (simp add: r)
  have p3: "\<forall>u<3. \<forall>u'<3. resolveLink ?lm (int u) \<noteq> linkAt ix b u \<and>
      resolveLink ?lm (int u') \<noteq> linkAt ix b u' \<and> resolveLink ?lm (int u) = resolveLink ?lm (int u') \<longrightarrow>
      u = u'"
    using new by blast
  have p4: "getPairStart ?lm \<noteq> 0 \<longrightarrow> getSingle ?lm \<noteq> 0 \<and> getPairStart ?lm + 1 \<noteq> 0"
    using p0 by (simp add: link_simps)
  have p5: "\<forall>u. linkAt ix b u \<noteq> 0 \<longrightarrow> resolveLink ?lm (int u) = linkAt ix b u"
    using la0(1) by (metis r)
  note w' = attachForResize_wf(1,2,4,5,6) [OF fl b ix' p1 p2 p3 p4 p5]
  have "inBin ix' b" using b same_geometry_inBin [OF same_frame_geometry [OF w'(3)]] by simp
  moreover have la': "linkAt ix' b 0 = l - 1" "linkAt ix' b 1 = 0"
    "\<And>b' u. b' \<noteq> b \<Longrightarrow> linkAt ix' b' u = linkAt ix b' u"
    using r [of 0] r [of 1] la0 by (simp_all add: w'(4))
  ultimately have "slotRef ix' b 3 \<noteq> None" using n0 by (simp add: slotRef_link)
  moreover have "isInvalid ix b 3" using unattached_invalid [OF wf b, of 0] la0 by simp
  moreover have "linkCount ix' b = 1" "linkCount ix b = 0"
    using n0 la0 la' by (simp_all add: linkCount_def)
  ultimately have "chained ix l b 3 ix' (l - 1)"
    using w'(1,2,3,5) l' l full la0 la' unfolding chained_def by auto
  with at n0 show ?thesis by (rule that)
qed

lemma attachPairForResize_spec:
  assumes fl: "filling ix l" and b: "inBin ix b" and single: "getSingle (lmeta ix b) \<noteq> 0"
    and none: "getPairStart (lmeta ix b) = 0"
    and l: "4 \<le> unat l" and full: "7 \<le> validCount ix b"
  obtains ix' l' where "attachPairForResize ix b l = Some (l', ix', l')" "l' \<noteq> 0"
    "chained ix l b 7 ix' l'"
proof -
  have l2: "(2 :: 32 word) \<le> l" using l by (simp add: word_le_nat_alt)
  then have l': "unat (l - 2) = unat l - 2" by (simp add: unat_sub)
  then have n1: "\<not> l - 2 \<le> 1" using l by (simp add: word_le_nat_alt)
  then have n0: "l - 2 \<noteq> 0" by auto
  have "l \<noteq> 0" "l - 2 + 1 = l - 1" using l by auto
  then have l'': "unat (l - 2 + 1) = unat l - 1" using unat_pred by simp
  then have l''0: "l - 2 + 1 \<noteq> 0" using l by auto
  have eq: "l + NOT 1 = l - 2" by simp
  let ?lm = "setPairStart (lmeta ix b) (l - 2)"
  have wf: "wf_index ix" using fl by (simp add: filling_def)
  obtain ix' where ix': "storeLinkMeta ix b ?lm = Some ix'"
    using b by (auto simp: storeLinkMeta_def)
  have at: "attachPairForResize ix b l = Some (l - 2, ix', l - 2)"
    unfolding attachPairForResize_def nextLinkPairForResize_def Let_def eq
    by (simp only: getBinByIndex_in [OF b] Option.bind.simps lmeta_def [symmetric] ix' n1 if_False
        prod.case)
  have r: "resolveLink ?lm (int u) =
      (if u = 1 then l - 2 else if u = 2 then l - 2 + 1 else linkAt ix b u)" for u
    using n0 by (auto simp: resolveLink_def linkAt_def link_simps)
  have la0: "linkAt ix b 0 \<noteq> 0" "linkAt ix b 1 = 0" "linkAt ix b 2 = 0"
    using single none linkAt_simps [of ix b] by auto
  have p1: "unat (l - 2) \<le> unat l" using l' by simp
  have p2: "\<forall>u<3. resolveLink ?lm (int u) \<noteq> linkAt ix b u \<longrightarrow>
      unat (l - 2) \<le> unat (resolveLink ?lm (int u)) \<and> unat (resolveLink ?lm (int u)) < unat l"
    using l l' l'' by (simp add: r diff_le_mono2 del: diff_add_cancel)
  have p3: "\<forall>u<3. \<forall>u'<3. resolveLink ?lm (int u) \<noteq> linkAt ix b u \<and>
      resolveLink ?lm (int u') \<noteq> linkAt ix b u' \<and> resolveLink ?lm (int u) = resolveLink ?lm (int u') \<longrightarrow>
      u = u'"
    by (auto simp: r less_Suc_eq numeral_eq_Suc split: if_splits)
  have p4: "getPairStart ?lm \<noteq> 0 \<longrightarrow> getSingle ?lm \<noteq> 0 \<and> getPairStart ?lm + 1 \<noteq> 0"
    using single l''0 by (simp add: link_simps)
  have p5: "\<forall>u. linkAt ix b u \<noteq> 0 \<longrightarrow> resolveLink ?lm (int u) = linkAt ix b u"
    using la0(2,3) by (metis r)
  note w' = attachForResize_wf(1,2,4,5,6) [OF fl b ix' p1 p2 p3 p4 p5]
  have "inBin ix' b" using b same_geometry_inBin [OF same_frame_geometry [OF w'(3)]] by simp
  moreover have la': "linkAt ix' b 0 = linkAt ix b 0" "linkAt ix' b 1 = l - 2"
    "\<And>b' u. b' \<noteq> b \<Longrightarrow> linkAt ix' b' u = linkAt ix b' u"
    using r [of 0] r [of 1] by (simp_all add: w'(4))
  ultimately have "slotRef ix' b 7 \<noteq> None" using n0 by (simp add: slotRef_link)
  moreover have "isInvalid ix b 7" using unattached_invalid [OF wf b, of 1] la0 by simp
  moreover have "linkCount ix' b = 3" "linkCount ix b = 1"
    using n0 la0 la' by (simp_all add: linkCount_def)
  ultimately have "chained ix l b 7 ix' (l - 2)"
    using w'(1,2,3,5) l' l full la0 la' unfolding chained_def by auto
  with at n0 show ?thesis by (rule that)
qed

lemma findFreeInPair_spec:
  assumes fl: "filling ix l" and b: "inBin ix b" and single: "getSingle (lmeta ix b) \<noteq> 0"
    and l: "4 \<le> unat l" and full: "\<And>j. j < 7 \<Longrightarrow> isValid ix b j" and room: "validCount ix b < 15"
  obtains i ix' l' where
    "findFreeInPair ix b (hdr ix b) (lmeta ix b) l = Some (int i, ix', l')" "chained ix l b i ix' l'"
proof (cases "getPairStart (lmeta ix b) = 0")
  case True
  have "7 \<le> validCount ix b" using full by (intro validCount_le) auto
  from attachPairForResize_spec [OF fl b single True l this]
  obtain ix' l' where a: "attachPairForResize ix b l = Some (l', ix', l')" "l' \<noteq> 0"
    "chained ix l b 7 ix' l'" .
  then have "findFreeInPair ix b (hdr ix b) (lmeta ix b) l = Some (int 7, ix', l')"
    using True by (simp add: findFreeInPair_def)
  then show ?thesis using a(3) by (rule that)
next
  case False
  have wf: "wf_index ix" using fl by (simp add: filling_def)
  have at: "linkAt ix b 1 \<noteq> 0" "linkAt ix b 2 \<noteq> 0"
    using False wf b linkAt_simps [of ix b] unfolding wf_index_def links_wf_def by auto
  show ?thesis
  proof (cases "invalidMask4 (hdr ix b) 7 = 0")
    case m0: False
    from mask4_found [OF fl b _ at(1) _ m0] obtain i where
      "7 + lowestSlot (invalidMask4 (hdr ix b) 7) = int i" "chained ix l b i ix l" by auto
    then show ?thesis using False m0 that by (simp add: findFreeInPair_def)
  next
    case m0: True
    have "invalidMask4 (hdr ix b) 11 \<noteq> 0"
    proof
      assume m1: "invalidMask4 (hdr ix b) 11 = 0"
      have "isValid ix b j" if "j < 15" for j
        using full [of j] mask4_full [OF fl b _ m0, of j] mask4_full [OF fl b _ m1, of j] that
        by (cases "j < 7"; cases "j < 11") auto
      then have "15 \<le> validCount ix b" by (intro validCount_le) auto
      with room show False by simp
    qed
    from mask4_found [OF fl b _ at(2) _ this] obtain i where
      "11 + lowestSlot (invalidMask4 (hdr ix b) 11) = int i" "chained ix l b i ix l" by auto
    then show ?thesis
      using False m0 \<open>invalidMask4 (hdr ix b) 11 \<noteq> 0\<close> that by (simp add: findFreeInPair_def)
  qed
qed

lemma findFreeSlotOrChain_spec:
  assumes fl: "filling ix l" and b: "inBin ix b" and room: "validCount ix b < 15"
    and l: "3 \<le> validCount ix b \<Longrightarrow> 4 \<le> unat l"
  obtains i ix' l' where "findFreeSlotOrChain ix b l = Some (int i, ix', l')"
    "chained ix l b i ix' l'"
proof (cases "invalidMask3 (hdr ix b) = 0")
  case False
  then obtain j where j: "j < 3" "lowestSlot (invalidMask3 (hdr ix b)) = int j" "isInvalid ix b j"
    using invalidMask3_lowest by (metis isInvalid_def)
  then have "chained ix l b j ix l" by (intro chained_same fl b) (auto simp: slotRef_primary)
  then show ?thesis
    using False j b that by (simp add: findFreeSlotOrChain_def hdr_def)
next
  case True
  have v3: "isValid ix b j" if "j < 3" for j using mask3_full [OF fl b True that] .
  then have c3: "3 \<le> validCount ix b" by (intro validCount_le) auto
  have start: "findFreeSlotOrChain ix b l =
    (if getSingle (lmeta ix b) = NO_LINK
     then do { (k, ix', l') \<leftarrow> attachSingleForResize ix b l;
        (if k \<noteq> NO_LINK then Some (PRIMARY_SLOTS, ix', l')
         else findFreeInPair ix' b (hdr ix b) (lmeta ix b) l') }
     else (let m = invalidMask4 (hdr ix b) 3
       in if m \<noteq> 0 then Some (PRIMARY_SLOTS + lowestSlot m, ix, l)
          else findFreeInPair ix b (hdr ix b) (lmeta ix b) l))"
    unfolding findFreeSlotOrChain_def Let_def getBinByIndex_in [OF b] Option.bind.simps
      hdr_def [symmetric] lmeta_def [symmetric] True by simp
  show ?thesis
  proof (cases "getSingle (lmeta ix b) = 0")
    case none: True
    have "2 \<le> unat l" using l [OF c3] by simp
    from attachSingleForResize_spec [OF fl b none this c3] obtain ix' l' where
      "attachSingleForResize ix b l = Some (l', ix', l')" "l' \<noteq> 0" "chained ix l b 3 ix' l'" .
    then show ?thesis using none that [of 3 ix' l'] by (simp add: start)
  next
    case single: False
    then have at: "linkAt ix b 0 \<noteq> 0" using linkAt_simps [of ix b] by simp
    show ?thesis
    proof (cases "invalidMask4 (hdr ix b) 3 = 0")
      case m: False
      from mask4_found [OF fl b _ at _ m] obtain i where
        "3 + lowestSlot (invalidMask4 (hdr ix b) 3) = int i" "chained ix l b i ix l" by auto
      then show ?thesis using single m that by (simp add: start)
    next
      case m: True
      have "isValid ix b j" if "j < 7" for j
        using v3 [of j] mask4_full [OF fl b _ m, of j] that by (cases "j < 3") auto
      from findFreeInPair_spec [OF fl b single l [OF c3] this room] obtain i ix' l' where
        "findFreeInPair ix b (hdr ix b) (lmeta ix b) l = Some (int i, ix', l')"
        "chained ix l b i ix' l'" by blast
      then show ?thesis using single m that by (simp add: start)
    qed
  qed
qed


section \<open>Insertion into the new index\<close>

lemma validCount_valid:
  assumes "i < 15" "\<not> isValid ix b i"
    and "\<And>b' j. j < 15 \<Longrightarrow> isValid ix' b' j = (if b' = b \<and> j = i then True else isValid ix b' j)"
  shows "validCount ix' b' = (if b' = b then Suc (validCount ix b) else validCount ix b')"
proof -
  have "{j. j < 15 \<and> isValid ix' b' j} =
      (if b' = b then insert i {j. j < 15 \<and> isValid ix b j} else {j. j < 15 \<and> isValid ix b' j})"
    using assms by auto
  with assms(2) show ?thesis by (simp add: validCount_def)
qed

lemma place_in_new:
  assumes fl: "filling ix l" and ew: "entries_wf content hash ok ix"
    and absent: "absMap content hash ix k = None" and s: "ok s" "content s = Some (k, v)"
    and room: "validCount ix (binOf ix (hash k)) < 15"
    and links: "3 \<le> validCount ix (binOf ix (hash k)) \<longrightarrow> 4 \<le> unat l"
  defines "c \<equiv> binOf ix (hash k)"
  obtains ix' l' where "insertIntoNewIndex ix (hash k) (Key s) (Val s) l = Some (ix', l')"
    "filling ix' l'" "entries_wf content hash ok ix'" "same_frame ix ix'"
    "absMap content hash ix' = (absMap content hash ix)(k \<mapsto> v)"
    "\<And>b'. validCount ix' b' = (if b' = c then Suc (validCount ix c) else validCount ix b')"
    "\<And>b'. b' \<noteq> c \<Longrightarrow> linkCount ix' b' = linkCount ix b'"
    "unat l + linkCount ix c = unat l' + linkCount ix' c"
proof -
  have wf: "wf_index ix" using fl by (simp add: filling_def)
  then have sh: "shape ix" "states_wf ix" by (simp_all add: wf_index_def)
  have b: "inBin ix c" using binOf_in [OF sh(1)] by (simp add: c_def)
  have room': "validCount ix c < 15" and links': "3 \<le> validCount ix c \<Longrightarrow> 4 \<le> unat l"
    using room links by (simp_all add: c_def)
  obtain i ix1 l' where find: "findFreeSlotOrChain ix c l = Some (int i, ix1, l')"
    and ch: "chained ix l c i ix1 l'"
    using findFreeSlotOrChain_spec [OF fl b room' links'] .
  from ch have i: "i < 15" "isInvalid ix c i" and le: "links_extend ix ix1" and wf1: "wf_index ix1"
    and sf1: "same_frame ix ix1" and ref: "slotRef ix1 c i \<noteq> None"
    by (simp_all add: chained_def)
  obtain r where r: "slotRef ix1 c i = Some r" using ref by blast
  have in1: "inBin ix1 c" using b same_geometry_inBin [OF same_frame_geometry [OF sf1]] by simp
  have ew1: "entries_wf content hash ok ix1" and ab1: "absMap content hash ix1 = absMap content hash ix"
    using links_extend_abs [OF le wf] ew by auto
  have h1: "hdr ix1 = hdr ix" using le by (simp add: links_extend_def)
  have inv1: "isInvalid ix1 c i" using i(2) by (simp add: isInvalid_def h1)
  have sh1: "shape ix1" using wf1 by (simp add: wf_index_def)
  obtain s0 where s0: "loadSlot ix1 r = Some s0"
    using slotRef_load [OF sh1 _ in1 i(1) r] wf1 by (auto simp: wf_index_def)
  have seq: "s0\<lparr>Key := Key s, Val := Val s\<rparr> = s" by simp
  obtain ix3 where st: "storeSlot ix1 r s = Some ix3" "same_frame ix1 ix3" "hdr ix3 = hdr ix1"
    "lmeta ix3 = lmeta ix1" "slotRef ix3 = slotRef ix1" "wf_index ix3"
    "\<And>b' j. inBin ix1 b' \<Longrightarrow> j < 15 \<Longrightarrow>
       slotIn ix3 b' j = (if b' = c \<and> j = i then Some s else slotIn ix1 b' j)"
    using storeSlotAt_effect [OF wf1 in1 i(1) r, of s] by metis
  obtain ix2 where kv: "storeSlotKey ix1 r (Key s) = Some ix2"
    "atomicStoreSlotVal ix2 r (Val s) = Some ix3"
    using storeKeyVal [OF s0, where k = "Key s" and v = "Val s" and ix' = ix3] st(1)
    unfolding seq by blast
  have in3: "inBin ix3 c" using in1 same_geometry_inBin [OF same_frame_geometry [OF st(2)]] by simp
  have ref3: "slotRef ix3 c i \<noteq> None" using ref by (simp add: st(5))
  have valid: "SlotValid \<in> {0, 1, 2}" by simp
  obtain ix4 where w: "storeHeader ix3 c (setSlotStateAndVersion (hdr ix3 c) (int i) SlotValid) = Some ix4"
    "same_frame ix3 ix4" "lmeta ix4 = lmeta ix3" "slotIn ix4 = slotIn ix3"
    "\<And>b'. hdr ix4 b' = (if b' = c then setSlotStateAndVersion (hdr ix3 c) (int i) SlotValid
       else hdr ix3 b')" "wf_index ix4"
    "\<And>b' j. j < 15 \<Longrightarrow> isValid ix4 b' j =
       (if b' = c \<and> j = i then SlotValid = 2 else isValid ix3 b' j)"
    "\<And>b'. getBinState (hdr ix4 b') = getBinState (hdr ix3 b')"
    using setSlotState_effect [OF st(6) in3 i(1) ref3 valid] by metis
  have "getSlotByIndex ix1 c (int i) = Some (Some r)"
    using r by (cases "getSlotByIndex ix1 c (int i)") (auto simp: slotRef_def)
  then have run: "insertIntoNewIndex ix (hash k) (Key s) (Val s) l = Some (ix4, l')"
    using find kv w(1) b in3
    by (simp add: insertIntoNewIndex_def getBin_def c_def [symmetric] hdr_def [symmetric])
  have sf: "same_frame ix ix4" using sf1 st(2) w(2) by (blast intro: same_frame_trans)
  have sg: "same_geometry ix ix4" "same_geometry ix1 ix4"
    using sf st(2) w(2) same_frame_trans same_frame_geometry by blast+
  have iv: "isValid ix4 b' j = (if b' = c \<and> j = i then True else isValid ix b' j)" if "j < 15" for b' j
    using w(7) [OF that] by (simp add: isValid_def st(3) h1)
  have "\<not> isValid ix c i" using i(2) by (simp add: isValid_def isInvalid_def)
  note vc = validCount_valid [OF i(1) this iv]
  have la: "linkAt ix4 b' u = linkAt ix1 b' u" for b' u by (simp add: linkAt_def w(3) st(4))
  have v4: "view ix4 b' j = (if b' = c \<and> j = i then Some s else view ix1 b' j)" if "inBin ix1 b'" for b' j
  proof (cases "j < 15")
    case True
    then show ?thesis
      unfolding view_def w(4) iv [OF True] using st(7) [OF that True]
      by (auto simp: isValid_def h1)
  qed (use i(1) in \<open>simp add: view_def\<close>)
  have "slotEntry content ix1 c i = None"
    using inv1 by (simp add: slotEntry_def view_def isValid_def isInvalid_def)
  then have before: "slotEntry content ix1 c i = None \<and> absMap content hash ix1 k = None \<or>
      (\<exists>v0. slotEntry content ix1 c i = Some (k, v0))" using absent ab1 by simp
  have c1: "c = binOf ix1 (hash k)"
    using same_geometry_binOf [OF same_frame_geometry [OF sf1]] by (simp add: c_def)
  note up = entries_update [OF ew1 sh1 sg(2) c1 before v4]
  have ab4: "entries_wf content hash ok ix4" "absMap content hash ix4 = (absMap content hash ix)(k \<mapsto> v)"
    using up s unfolding ab1 by auto
  have fl4: "filling ix4 l'"
    unfolding filling_def
  proof (intro conjI allI impI)
    show "wf_index ix4" by (rule w(6))
    have "unat l' \<le> unat l" using ch by (simp add: chained_def)
    then show "unat l' \<le> length (links ix4)"
      using fl sg(1) by (simp add: filling_def same_geometry_def)
  next
    fix b' assume "inBin ix4 b'"
    then have b': "inBin ix b'" "inBin ix1 b'" using same_geometry_inBin [OF sg(1)] same_geometry_inBin [OF sg(2)]
      by auto
    show "getBinState (hdr ix4 b') = BinNoTransfer"
      using fl b'(1) by (simp add: w(8) st(3) h1 filling_def)
    show "getSlotState (hdr ix4 b') (int j) \<noteq> SlotTrying" if "j < 15" for j
    proof -
      have "getSlotState (hdr ix b') (int j) \<noteq> SlotTrying" using fl b'(1) that by (simp add: filling_def)
      then show ?thesis
        using that i(1) by (auto simp: w(5) st(3) h1 getSlotState_setSlot)
    qed
    show "unat l' \<le> unat (linkAt ix4 b' u)" if "u < 3" "linkAt ix4 b' u \<noteq> 0" for u
      using ch b'(1) that by (simp add: chained_def la)
    have other: "linkAt ix1 b' u = linkAt ix b' u" if "b' \<noteq> c" for u
      using ch that by (simp add: chained_def)
    show "4 \<le> validCount ix4 b'" if "linkAt ix4 b' 0 \<noteq> 0"
    proof (cases "b' = c")
      case True
      then show ?thesis using ch that by (simp add: chained_def vc la)
    next
      case False
      then show ?thesis using fl b'(1) that by (simp add: vc filling_def la other)
    qed
    show "8 \<le> validCount ix4 b'" if "linkAt ix4 b' 1 \<noteq> 0"
    proof (cases "b' = c")
      case True
      then show ?thesis using ch that by (simp add: chained_def vc la)
    next
      case False
      then show ?thesis using fl b'(1) that by (simp add: vc filling_def la other)
    qed
  qed
  have lc: "linkCount ix4 b' = linkCount ix1 b'" for b' by (simp add: linkCount_def la)
  have "linkCount ix4 b' = linkCount ix b'" if "b' \<noteq> c" for b'
    using ch that by (simp add: lc) (simp add: linkCount_def chained_def)
  moreover have "unat l + linkCount ix c = unat l' + linkCount ix4 c"
    using ch by (simp add: chained_def lc)
  ultimately show ?thesis using that run fl4 ab4 sf vc by blast
qed

end
