(* ===== verification/ResizeBins.thy ===== *)
theory ResizeBins
  imports ResizeLinks
begin

text \<open>
  \<open>transferBin\<close> of resize.go, for both packages: the package supplies the transfer of one
  slot (the body of the loop of \<open>transferValidSlots\<close>) and the locale \<open>slot_transfer\<close> states
  what it must do. The main lemma: transferring a bin moves exactly its entries to the new
  index, within a bounded number of links, and leaves every other bin alone.
\<close>

section \<open>Definitions\<close>

text \<open>What a transfer works on: the two indices of the context and its link counter.\<close>

record 'v xfer =
  xold :: "'v index"
  xnew :: "'v index"
  xnext :: "32 word"

text \<open>
  \<open>transferValidSlots\<close>: \<open>base\<close> is the pointer to slot 0 of the bucket, as a function from the
  slot number; \<open>moveSlot\<close> is the package's loop body.
\<close>

definition transferSlots ::
  "(64 word \<Rightarrow> SlotRef \<Rightarrow> 'v xfer \<Rightarrow> 'v xfer option) \<Rightarrow> 32 word \<Rightarrow> (int \<Rightarrow> SlotRef) \<Rightarrow> 64 word \<Rightarrow>
     'v xfer \<Rightarrow> 'v xfer option" where
  "transferSlots moveSlot vm baseSlot sentinel st =
     forBits (\<lambda>slotIdx. moveSlot sentinel (baseSlot slotIdx)) vm st"

text \<open>
  \<open>atomic.OrUint64\<close> returns the header before the bit was set; the final header is computed
  from it.
\<close>

definition transferBin ::
  "(64 word \<Rightarrow> SlotRef \<Rightarrow> 'v xfer \<Rightarrow> 'v xfer option) \<Rightarrow> (64 word \<Rightarrow> 64 word) \<Rightarrow> 64 word \<Rightarrow>
     'v xfer \<Rightarrow> 'v xfer option" where
  "transferBin moveSlot transferSentinel binIndex st = do {
     oldBin \<leftarrow> getBinByIndex (xold st) binIndex;
     let h = Header oldBin;
     old1 \<leftarrow> storeHeader (xold st) binIndex (h OR push_bit binStateShift (ucast BinInTransfer));
     let sentinel = transferSentinel binIndex;
     st1 \<leftarrow> transferSlots moveSlot (validMask3 h) (PrimarySlot binIndex) sentinel (st\<lparr>xold := old1\<rparr>);
     pb \<leftarrow> getBinByIndex (xold st1) binIndex;
     let lm = LinkMeta pb;
     let s = getSingle lm;
     st2 \<leftarrow> (if s \<noteq> NO_LINK then transferSlots moveSlot (validMask4 h 3) (LinkSlot s) sentinel st1
             else Some st1);
     let p = getPairStart lm;
     st3 \<leftarrow> (if p \<noteq> NO_LINK then do {
               st' \<leftarrow> transferSlots moveSlot (validMask4 h 7) (LinkSlot p) sentinel st2;
               transferSlots moveSlot (validMask4 h 11) (LinkSlot (p + 1)) sentinel st' }
             else Some st2);
     old2 \<leftarrow> storeHeader (xold st3) binIndex (setBinState h BinDoneTransfer);
     Some (st3\<lparr>xold := old2\<rparr>) }"

section \<open>Masks of the two generations\<close>

lemma imask_mask:
  assumes "shape ix"
  obtains n where "n \<le> 33" "imask ix = Bit_Operations.mask n" "length (bins ix) = 2 ^ n"
proof -
  from assms obtain n where n: "n \<le> 33" "length (bins ix) = 2 ^ n" "Suc (unat (imask ix)) = 2 ^ n"
    by (auto simp: shape_def)
  have "imask ix = of_nat (unat (imask ix))" by simp
  also have "unat (imask ix) = 2 ^ n - 1" using n(3) by simp
  also have "of_nat (2 ^ n - 1) = (Bit_Operations.mask n :: 64 word)"
    by (simp add: of_nat_diff mask_eq_exp_minus_1)
  finally have "imask ix = Bit_Operations.mask n" .
  with n show ?thesis by (intro that)
qed

lemma binOf_nested:
  assumes "shape old" "shape new" "length (bins old) \<le> length (bins new)"
  shows "binOf new h AND imask old = binOf old h"
proof -
  obtain n where n: "imask old = Bit_Operations.mask n" "length (bins old) = 2 ^ n"
    using imask_mask [OF assms(1)] .
  obtain k where k: "imask new = Bit_Operations.mask k" "length (bins new) = 2 ^ k"
    using imask_mask [OF assms(2)] .
  have "n \<le> k" using assms(3) n k by simp
  then show ?thesis
    by (intro bit_word_eqI) (auto simp: binOf_def n k bit_simps)
qed

section \<open>The bin state of a header\<close>

lemma binState_frame:
  assumes "wf_index ix" "inBin ix b" "\<And>n. n < 30 \<Longrightarrow> bit h' n = bit (hdr ix b) n"
  obtains ix' where "storeHeader ix b h' = Some ix'" "same_frame ix ix'" "wf_index ix'"
    "lmeta ix' = lmeta ix" "slotRef ix' = slotRef ix" "slotIn ix' = slotIn ix"
    "\<And>b' i. i < 15 \<Longrightarrow> isValid ix' b' i = isValid ix b' i"
    "\<And>b'. hdr ix' b' = (if b' = b then h' else hdr ix b')"
proof -
  obtain ix' where e: "storeHeader ix b h' = Some ix'" "same_frame ix ix'"
    "\<And>b'. hdr ix' b' = (if b' = b then h' else hdr ix b')" "lmeta ix' = lmeta ix"
    "\<And>r. loadSlot ix' r = loadSlot ix r"
    using storeHeader_effect [OF assms(2), of h'] by metis
  have sg: "same_geometry ix ix'" using e(2) by (rule same_frame_geometry)
  have st: "stHi (hdr ix' b') i = stHi (hdr ix b') i" "stLo (hdr ix' b') i = stLo (hdr ix b') i"
    if "i < 15" for b' i using that assms(3) by (auto simp: e(3))
  have sr: "slotRef ix' = slotRef ix" "slotIn ix' = slotIn ix"
    using slotRef_frame [OF sg e(4)] slotIn_frame [OF sg e(4,5)] by auto
  have "states_wf ix'"
    using assms(1) by (simp add: states_wf_def st isInvalid_def same_geometry_inBin [OF sg] sr wf_index_def)
  then have "wf_index ix'"
    using assms(1) links_wf_frame [OF sg e(4)] same_geometry_shape [OF sg] by (simp add: wf_index_def)
  moreover have "isValid ix' b' i = isValid ix b' i" if "i < 15" for b' i
    using st [OF that] by (simp add: isValid_def)
  ultimately show ?thesis using that e(1-4) sr by blast
qed

lemma bit_setInTransfer:
  "n < 30 \<Longrightarrow> bit (h OR push_bit binStateShift (ucast BinInTransfer) :: 64 word) n = bit h n"
  by (simp add: bit_simps del: push_bit_numeral push_bit_of_1 push_bit_eq_mult)

lemma bit_setBinState_low: "n < 30 \<Longrightarrow> bit (setBinState h s) n = bit h n"
  by (simp add: bit_setBinState)

section \<open>Sums over the bins an old bin is split into\<close>

definition shards :: "'v index \<Rightarrow> 'v index \<Rightarrow> 64 word \<Rightarrow> 64 word set" where
  "shards old new b = {c. inBin new c \<and> c AND imask old = b}"

lemma finite_shards [simp]: "finite (shards old new b)"
  by (rule finite_subset [of _ UNIV]) auto

lemma div_sum_le: "finite A \<Longrightarrow> (\<Sum>c\<in>A. f c div n) \<le> (\<Sum>c\<in>A. f c :: nat) div n"
proof (induction rule: finite_induct)
  case (insert a A)
  have "f a div n + sum f A div n \<le> (f a + sum f A) div n"
    using div_add1_eq [of "f a" "sum f A" n] by linarith
  with insert show ?case by simp
qed simp

lemma shards_links:
  assumes "filling new l"
  shows "(\<Sum>c\<in>shards old new b. linkCount new c) \<le>
    (\<Sum>c\<in>shards old new b. validCount new c) div 4 + (\<Sum>c\<in>shards old new b. validCount new c) div 8"
proof -
  let ?v = "validCount new" and ?D = "shards old new b"
  have "(\<Sum>c\<in>?D. linkCount new c) \<le> (\<Sum>c\<in>?D. ?v c div 4 + ?v c div 8)"
    by (rule sum_mono) (use linkCount_bound [OF assms] in \<open>simp add: shards_def\<close>)
  also have "\<dots> = (\<Sum>c\<in>?D. ?v c div 4) + (\<Sum>c\<in>?D. ?v c div 8)" by (rule sum.distrib)
  also have "\<dots> \<le> (\<Sum>c\<in>?D. ?v c) div 4 + (\<Sum>c\<in>?D. ?v c) div 8"
    using div_sum_le [of ?D ?v 4] div_sum_le [of ?D ?v 8] by simp
  finally show ?thesis .
qed

section \<open>Moving the entries of one bin\<close>

text \<open>
  The state after the slots \<open>qs\<close> of bin \<open>b\<close> have been moved, seen from the indices \<open>o0\<close>
  and \<open>n0\<close> and the link counter \<open>l0\<close> at its start.
\<close>

definition moving ::
  "('v Slot \<Rightarrow> ('k \<times> 'b) option) \<Rightarrow> ('k \<Rightarrow> 64 word) \<Rightarrow> ('v Slot \<Rightarrow> bool) \<Rightarrow> 'v index \<Rightarrow> 'v index \<Rightarrow>
     32 word \<Rightarrow> 64 word \<Rightarrow> nat list \<Rightarrow> 'v xfer \<Rightarrow> bool" where
  "moving content hash ok o0 n0 l0 b qs st \<longleftrightarrow>
     same_frame o0 (xold st) \<and> wf_index (xold st) \<and> lmeta (xold st) = lmeta o0 \<and>
     slotRef (xold st) = slotRef o0 \<and> hdr (xold st) = hdr o0 \<and>
     (\<forall>b' j. inBin o0 b' \<and> j < 15 \<and> \<not> (b' = b \<and> j \<in> set qs) \<longrightarrow>
        slotIn (xold st) b' j = slotIn o0 b' j) \<and>
     filling (xnew st) (xnext st) \<and> entries_wf content hash ok (xnew st) \<and>
     same_frame n0 (xnew st) \<and>
     (\<forall>k v. absMap content hash (xnew st) k = Some v \<longleftrightarrow> absMap content hash n0 k = Some v \<or>
        (\<exists>i \<in> set qs. slotEntry content o0 b i = Some (k, v))) \<and>
     (\<Sum>c\<in>shards o0 n0 b. validCount (xnew st) c) = length qs \<and>
     unat (xnext st) + (\<Sum>c\<in>shards o0 n0 b. linkCount (xnew st) c) = unat l0 \<and>
     (\<forall>c. c \<notin> shards o0 n0 b \<longrightarrow> validCount (xnew st) c = validCount n0 c \<and>
        linkCount (xnew st) c = linkCount n0 c)"

text \<open>What a bin transfer starts from.\<close>

definition ready ::
  "('v Slot \<Rightarrow> ('k \<times> 'b) option) \<Rightarrow> ('k \<Rightarrow> 64 word) \<Rightarrow> ('v Slot \<Rightarrow> bool) \<Rightarrow> 'v index \<Rightarrow> 'v index \<Rightarrow>
     32 word \<Rightarrow> 64 word \<Rightarrow> bool" where
  "ready content hash ok o0 n0 l0 b \<longleftrightarrow>
     wf_index o0 \<and> inBin o0 b \<and>
     (\<forall>i s. view o0 b i = Some s \<longrightarrow> ok s \<and>
        (\<exists>k v. content s = Some (k, v) \<and> binOf o0 (hash k) = b)) \<and>
     (\<forall>i j k v v'. slotEntry content o0 b i = Some (k, v) \<and> slotEntry content o0 b j = Some (k, v') \<longrightarrow>
        i = j) \<and>
     filling n0 l0 \<and> entries_wf content hash ok n0 \<and> length (bins o0) \<le> length (bins n0) \<and>
     (\<forall>k. binOf o0 (hash k) = b \<longrightarrow> absMap content hash n0 k = None) \<and>
     (\<forall>c \<in> shards o0 n0 b. validCount n0 c = 0 \<and> linkCount n0 c = 0) \<and>
     (4 \<le> validCount o0 b \<longrightarrow> validCount o0 b div 4 + validCount o0 b div 8 + 4 \<le> unat l0)"

lemma ready_bin:
  assumes "ready content hash ok o0 n0 l0 b" "slotEntry content o0 b i = Some (k, v)"
  shows "binOf o0 (hash k) = b"
proof -
  obtain s where "view o0 b i = Some s" "content s = Some (k, v)"
    using assms(2) by (cases "view o0 b i") (auto simp: slotEntry_def)
  moreover from this(1) obtain k' v' where "content s = Some (k', v')" "binOf o0 (hash k') = b"
    using assms(1) unfolding ready_def by blast
  ultimately show ?thesis by simp
qed

lemma moving_start:
  "ready content hash ok o0 n0 l0 b \<Longrightarrow>
     moving content hash ok o0 n0 l0 b [] \<lparr>xold = o0, xnew = n0, xnext = l0\<rparr>"
  by (simp add: moving_def ready_def)

section \<open>The slots of a bin, segment by segment\<close>

lemma isValid_stHi:
  assumes "wf_index ix" "inBin ix b" "i < 15"
  shows "isValid ix b i \<longleftrightarrow> stHi (hdr ix b) i"
  using assms unfolding isValid_def wf_index_def states_wf_def by blast

lemma segment_primary:
  assumes "wf_index ix" "inBin ix b"
  shows "transferSlots moveSlot (validMask3 (hdr ix b)) (PrimarySlot b) sentinel st =
    forEach (\<lambda>i. moveSlot sentinel (the (slotRef ix b i))) (filter (isValid ix b) primarySlots) st"
proof -
  have v: "filter (\<lambda>i. stHi (hdr ix b) i) primarySlots = filter (isValid ix b) primarySlots"
    by (rule filter_cong [OF refl]) (auto simp: primarySlots_def isValid_stHi [OF assms])
  have c: "candidates [stHi (hdr ix b) 0, stHi (hdr ix b) 1, stHi (hdr ix b) 2] =
      map int (filter (\<lambda>i. stHi (hdr ix b) i) primarySlots)"
    unfolding primarySlots_def by (rule candidates_filter3)
  show ?thesis
    unfolding transferSlots_def validMask3_spread forBits_spread3 c forEach_map v
  proof (rule forEach_cong)
    fix i s assume "i \<in> set (filter (isValid ix b) primarySlots)"
    then have "i \<in> set primarySlots" by (simp only: set_filter mem_Collect_eq)
    then have "i < 3" by (auto simp: primarySlots_def)
    then show "moveSlot sentinel (PrimarySlot b (int i)) s = moveSlot sentinel (the (slotRef ix b i)) s"
      by (simp add: slotRef_primary)
  qed
qed

definition linkSegment :: "nat \<Rightarrow> nat list" where
  "linkSegment u = map ((+) (3 + 4 * u)) [0, 1, 2, 3]"

lemma linkSlots_segments: "linkSlots = linkSegment 0 @ linkSegment 1 @ linkSegment 2"
  by (simp add: linkSlots_def linkSegment_def)

lemma set_linkSegment: "i \<in> set (linkSegment u) \<longleftrightarrow> 3 + 4 * u \<le> i \<and> i < 7 + 4 * u"
  by (auto simp: linkSegment_def)

lemma segment_link:
  assumes "wf_index ix" "inBin ix b" "u < 3" "linkAt ix b u \<noteq> 0" "base = 3 + 4 * u"
  shows "transferSlots moveSlot (validMask4 (hdr ix b) base) (LinkSlot (linkAt ix b u)) sentinel st =
    forEach (\<lambda>i. moveSlot sentinel (the (slotRef ix b i))) (filter (isValid ix b) (linkSegment u)) st"
proof -
  have b: "base = 3 \<or> base = 7 \<or> base = 11" using assms(3,5) by auto
  have v: "stHi (hdr ix b) i = isValid ix b i" if "i \<in> set (linkSegment u)" for i
    using that assms(3) by (intro isValid_stHi [OF assms(1,2), symmetric]) (auto simp: set_linkSegment)
  let ?p = "\<lambda>j. stHi (hdr ix b) (base + j)"
  have f: "filter (isValid ix b) (linkSegment u) = map ((+) base) (filter ?p [0, 1, 2, 3])"
  proof -
    have "filter (isValid ix b) (linkSegment u) = filter (\<lambda>i. stHi (hdr ix b) i) (linkSegment u)"
      by (rule filter_cong [OF refl]) (simp add: v)
    then show ?thesis by (simp add: linkSegment_def assms(5) filter_map comp_def)
  qed
  have "validMask4 (hdr ix b) base = spread [?p 0, ?p 1, ?p 2, ?p 3]"
    using validMask4_spread [OF b] by simp
  then have "forBits g (validMask4 (hdr ix b) base) st = forEach (\<lambda>j. g (int j)) (filter ?p [0, 1, 2, 3]) st"
    for g :: "int \<Rightarrow> 'b xfer \<Rightarrow> 'b xfer option"
    using candidates_filter4 [of ?p] by (simp only: forBits_spread4 forEach_map)
  then have "transferSlots moveSlot (validMask4 (hdr ix b) base) (LinkSlot (linkAt ix b u)) sentinel st =
      forEach (\<lambda>j. moveSlot sentinel (LinkSlot (linkAt ix b u) (int j))) (filter ?p [0, 1, 2, 3]) st"
    unfolding transferSlots_def .
  also have "\<dots> = forEach (\<lambda>j. moveSlot sentinel (the (slotRef ix b (base + j)))) (filter ?p [0, 1, 2, 3]) st"
  proof (rule forEach_cong)
    fix j s assume "j \<in> set (filter ?p [0, 1, 2, 3])"
    then have "j \<in> set [0, 1, 2, 3]" by (simp only: set_filter mem_Collect_eq)
    then have "j < 4" by auto
    then show "moveSlot sentinel (LinkSlot (linkAt ix b u) (int j)) s =
        moveSlot sentinel (the (slotRef ix b (base + j))) s"
      using assms(4,5) slotRef_link [OF assms(2), of "base + j"] by simp
  qed
  finally show ?thesis unfolding f forEach_map .
qed

lemma segment_unattached:
  assumes "wf_index ix" "inBin ix b" "u < 3" "linkAt ix b u = 0"
  shows "filter (isValid ix b) (linkSegment u) = []"
proof -
  have "\<not> isValid ix b i" if "i \<in> set (linkSegment u)" for i
  proof -
    from that have i: "3 \<le> i" "(i - 3) div 4 = u" "i < 15"
      using assms(3) by (auto simp: set_linkSegment)
    then have "slotRef ix b i = None" using assms(4) by (simp add: slotRef_link [OF assms(2)])
    then have "isInvalid ix b i"
      using assms(1,2) i(3) unfolding wf_index_def states_wf_def by auto
    then show ?thesis by (simp add: isValid_def isInvalid_def)
  qed
  then show ?thesis by (simp add: filter_empty_conv)
qed

lemma map_of_binEntries:
  assumes "\<And>i j k v v'. slotEntry content ix b i = Some (k, v) \<Longrightarrow>
    slotEntry content ix b j = Some (k, v') \<Longrightarrow> i = j"
  shows "map_of (binEntries content ix b) k = Some v \<longleftrightarrow> (\<exists>i. slotEntry content ix b i = Some (k, v))"
proof -
  have "distinct (map fst (binEntries content ix b))"
    unfolding binEntries_def by (rule distinct_map_filter) (use assms in auto)
  then show ?thesis by (simp add: map_of_eq_Some_iff set_binEntries)
qed

section \<open>The interface of the packages\<close>

text \<open>
  \<open>avoids sentinel s\<close>: the slot's word is not the sentinel. The law: on a visible slot the
  package's loop body reads the slot, publishes the sentinel, and inserts what it read.
\<close>

locale slot_transfer = slot_codec tag matches content ok
  for tag :: "'k \<Rightarrow> 64 word" and matches :: "'k \<Rightarrow> 'v Slot \<Rightarrow> bool"
    and content :: "'v Slot \<Rightarrow> ('k \<times> 'b) option" and ok :: "'v Slot \<Rightarrow> bool" +
  fixes hash :: "'k \<Rightarrow> 64 word"
    and moveSlot :: "64 word \<Rightarrow> SlotRef \<Rightarrow> 'v xfer \<Rightarrow> 'v xfer option"
    and avoids :: "64 word \<Rightarrow> 'v Slot \<Rightarrow> bool"
  assumes moves: "loadSlot (xold st) r = Some s \<Longrightarrow> ok s \<Longrightarrow> content s = Some (k, v) \<Longrightarrow>
    avoids sentinel s \<Longrightarrow> storeSlotKey (xold st) r sentinel = Some old' \<Longrightarrow>
    insertIntoNewIndex (xnew st) (hash k) (Key s) (Val s) (xnext st) = Some (new', next') \<Longrightarrow>
    moveSlot sentinel r st = Some \<lparr>xold = old', xnew = new', xnext = next'\<rparr>"
begin

lemma move_step:
  assumes rd: "ready content hash ok o0 n0 l0 b" and mv: "moving content hash ok o0 n0 l0 b qs st"
    and i: "i < 15" "isValid o0 b i" "i \<notin> set qs" and few: "length qs < validCount o0 b"
    and av: "\<And>s. view o0 b i = Some s \<Longrightarrow> avoids sentinel s"
  shows "\<exists>st'. moveSlot sentinel (the (slotRef o0 b i)) st = Some st' \<and>
    moving content hash ok o0 n0 l0 b (qs @ [i]) st'"
proof -
  have wf: "wf_index o0" and b: "inBin o0 b" using rd by (simp_all add: ready_def)
  have m: "same_frame o0 (xold st)" "wf_index (xold st)" "lmeta (xold st) = lmeta o0"
    "slotRef (xold st) = slotRef o0" "hdr (xold st) = hdr o0"
    "\<And>b' j. inBin o0 b' \<Longrightarrow> j < 15 \<Longrightarrow> \<not> (b' = b \<and> j \<in> set qs) \<Longrightarrow>
        slotIn (xold st) b' j = slotIn o0 b' j"
    "filling (xnew st) (xnext st)" "entries_wf content hash ok (xnew st)" "same_frame n0 (xnew st)"
    and abs: "\<And>k v. absMap content hash (xnew st) k = Some v \<longleftrightarrow> absMap content hash n0 k = Some v \<or>
        (\<exists>i \<in> set qs. slotEntry content o0 b i = Some (k, v))"
    and cnt: "(\<Sum>c\<in>shards o0 n0 b. validCount (xnew st) c) = length qs"
      "unat (xnext st) + (\<Sum>c\<in>shards o0 n0 b. linkCount (xnew st) c) = unat l0"
    and out: "\<And>c. c \<notin> shards o0 n0 b \<Longrightarrow> validCount (xnew st) c = validCount n0 c \<and>
        linkCount (xnew st) c = linkCount n0 c"
    using mv unfolding moving_def by blast+
  have sg: "same_geometry n0 (xnew st)" using m(9) by (rule same_frame_geometry)
  have inold: "inBin (xold st) b" using b same_geometry_inBin [OF same_frame_geometry [OF m(1)]] by simp
  have ref0: "slotRef o0 b i \<noteq> None"
    using wf b i(1,2) by (auto simp: wf_index_def states_wf_def isValid_def isInvalid_def)
  then obtain r where r: "slotRef o0 b i = Some r" by blast
  obtain s where s: "slotIn o0 b i = Some s"
    using slotIn_in [of o0 b i] wf b i(1) ref0 by (auto simp: wf_index_def)
  then have vw: "view o0 b i = Some s" using i by (simp add: view_def)
  then obtain k v where ok: "ok s" and c: "content s = Some (k, v)" and bk: "binOf o0 (hash k) = b"
    using rd unfolding ready_def by blast
  have se: "slotEntry content o0 b i = Some (k, v)" using vw c by (simp add: slotEntry_def)
  have "slotIn (xold st) b i = Some s" using m(6) [OF b i(1)] i(3) s by simp
  then have ld: "loadSlot (xold st) r = Some s" by (simp add: slotIn_def m(4) r)
  obtain old' where o': "storeSlot (xold st) r (s\<lparr>Key := sentinel\<rparr>) = Some old'"
    "same_frame (xold st) old'" "hdr old' = hdr (xold st)" "lmeta old' = lmeta (xold st)"
    "slotRef old' = slotRef (xold st)" "wf_index old'"
    "\<And>b' j. inBin (xold st) b' \<Longrightarrow> j < 15 \<Longrightarrow>
       slotIn old' b' j = (if b' = b \<and> j = i then Some (s\<lparr>Key := sentinel\<rparr>) else slotIn (xold st) b' j)"
    using storeSlotAt_effect [OF m(2) inold i(1), of r "s\<lparr>Key := sentinel\<rparr>"] r unfolding m(4) by metis
  have sk: "storeSlotKey (xold st) r sentinel = Some old'" using ld o'(1) by (simp add: storeSlotKey_def)
  let ?c = "binOf (xnew st) (hash k)"
  have shn: "shape o0" "shape (xnew st)" "shape n0"
    using wf m(7) rd by (auto simp: wf_index_def filling_def ready_def)
  have "length (bins o0) \<le> length (bins (xnew st))"
    using rd sg by (simp add: ready_def same_geometry_def)
  then have inD: "?c \<in> shards o0 n0 b"
    using binOf_nested [OF shn(1,2)] bk binOf_in [OF shn(2)] same_geometry_inBin [OF sg]
    by (simp add: shards_def)
  have absent: "absMap content hash (xnew st) k = None"
  proof (rule ccontr)
    assume "absMap content hash (xnew st) k \<noteq> None"
    then obtain v' where "absMap content hash n0 k = Some v' \<or>
        (\<exists>j \<in> set qs. slotEntry content o0 b j = Some (k, v'))" using abs by blast
    moreover have "absMap content hash n0 k = None" using rd bk by (simp add: ready_def)
    ultimately obtain j where "j \<in> set qs" "slotEntry content o0 b j = Some (k, v')" by auto
    moreover from this have "j = i" using rd se unfolding ready_def by blast
    ultimately show False using i(3) by simp
  qed
  have "validCount (xnew st) ?c \<le> length qs"
    using member_le_sum [OF inD, of "validCount (xnew st)"] cnt(1) by simp
  moreover have le15: "validCount o0 b \<le> 15"
    using card_mono [of "{i. i < 15}" "{i. i < 15 \<and> isValid o0 b i}"] by (auto simp: validCount_def)
  ultimately have room: "validCount (xnew st) ?c < 15" using few by simp
  have links: "3 \<le> validCount (xnew st) ?c \<longrightarrow> 4 \<le> unat (xnext st)"
  proof
    assume "3 \<le> validCount (xnew st) ?c"
    then have "3 \<le> length qs" using \<open>validCount (xnew st) ?c \<le> length qs\<close> by simp
    then have "4 \<le> validCount o0 b" using few by simp
    then have big: "validCount o0 b div 4 + validCount o0 b div 8 + 4 \<le> unat l0"
      using rd by (simp add: ready_def)
    have "(\<Sum>c\<in>shards o0 n0 b. linkCount (xnew st) c) \<le> length qs div 4 + length qs div 8"
      using shards_links [OF m(7), of o0 b] cnt(1) by (simp add: shards_def same_geometry_inBin [OF sg])
    also have "\<dots> \<le> validCount o0 b div 4 + validCount o0 b div 8"
      using few by (intro add_mono div_le_mono) auto
    finally show "4 \<le> unat (xnext st)" using big cnt(2) by linarith
  qed
  obtain new' next' where n': "insertIntoNewIndex (xnew st) (hash k) (Key s) (Val s) (xnext st) = Some (new', next')"
    "filling new' next'" "entries_wf content hash ok new'" "same_frame (xnew st) new'"
    "absMap content hash new' = (absMap content hash (xnew st))(k \<mapsto> v)"
    "\<And>b'. validCount new' b' = (if b' = ?c then Suc (validCount (xnew st) ?c) else validCount (xnew st) b')"
    "\<And>b'. b' \<noteq> ?c \<Longrightarrow> linkCount new' b' = linkCount (xnew st) b'"
    "unat (xnext st) + linkCount (xnew st) ?c = unat next' + linkCount new' ?c"
    by (rule place_in_new [OF m(7,8) absent ok c room links]) (rule that)
  let ?st = "\<lparr>xold = old', xnew = new', xnext = next'\<rparr>"
  have run: "moveSlot sentinel r st = Some ?st"
    by (rule moves [OF ld ok c av [OF vw] sk n'(1)])
  have vsum: "(\<Sum>c\<in>shards o0 n0 b. validCount new' c) = Suc (length qs)"
    using sum_upd_one [OF finite_shards inD, of "validCount new'" "validCount (xnew st)"] cnt(1)
    by (simp add: n'(6))
  have lsum: "unat next' + (\<Sum>c\<in>shards o0 n0 b. linkCount new' c) = unat l0"
    using sum_upd_one [OF finite_shards inD, of "linkCount new'" "linkCount (xnew st)"] cnt(2)
      n'(7,8) by simp
  have "moving content hash ok o0 n0 l0 b (qs @ [i]) ?st"
    unfolding moving_def
  proof (intro conjI allI impI)
    show "same_frame o0 (xold ?st)" using m(1) o'(2) by (auto intro: same_frame_trans)
    show "slotIn (xold ?st) b' j = slotIn o0 b' j"
      if "inBin o0 b' \<and> j < 15 \<and> \<not> (b' = b \<and> j \<in> set (qs @ [i]))" for b' j
      using that m(6) [of b' j] o'(7) [of b' j]
        same_geometry_inBin [OF same_frame_geometry [OF m(1)], of b'] by auto
    show "same_frame n0 (xnew ?st)" using m(9) n'(4) by (auto intro: same_frame_trans)
    show "absMap content hash (xnew ?st) k' = Some v' \<longleftrightarrow> absMap content hash n0 k' = Some v' \<or>
        (\<exists>j \<in> set (qs @ [i]). slotEntry content o0 b j = Some (k', v'))" for k' v'
      using abs [of k' v'] se absent abs [of k] by (auto simp: n'(5))
    show "validCount (xnew ?st) c = validCount n0 c" "linkCount (xnew ?st) c = linkCount n0 c"
      if "c \<notin> shards o0 n0 b" for c
    proof -
      have "c \<noteq> ?c" using inD that by blast
      then show "validCount (xnew ?st) c = validCount n0 c" "linkCount (xnew ?st) c = linkCount n0 c"
        using out [OF that] n'(6) [of c] n'(7) [of c] by auto
    qed
  qed (use m o' n' vsum lsum in simp_all)
  then show ?thesis using run r by simp
qed

lemma moves_all:
  assumes rd: "ready content hash ok o0 n0 l0 b"
    and av: "\<And>i s. view o0 b i = Some s \<Longrightarrow> avoids sentinel s"
    and mv: "moving content hash ok o0 n0 l0 b qs st"
    and qs: "distinct (qs @ rs)" "\<And>i. i \<in> set (qs @ rs) \<Longrightarrow> i < 15 \<and> isValid o0 b i"
  shows "\<exists>st'. forEach (\<lambda>i. moveSlot sentinel (the (slotRef o0 b i))) rs st = Some st' \<and>
    moving content hash ok o0 n0 l0 b (qs @ rs) st'"
  using mv qs
proof (induction rs arbitrary: qs st)
  case Nil
  then show ?case by simp
next
  case (Cons i rs)
  have "card (set (qs @ i # rs)) \<le> validCount o0 b"
    unfolding validCount_def by (rule card_mono) (use Cons.prems(3) in auto)
  then have "length (qs @ i # rs) \<le> validCount o0 b"
    using distinct_card [OF Cons.prems(2)] by simp
  then have few: "length qs < validCount o0 b" by simp
  obtain st1 where st1: "moveSlot sentinel (the (slotRef o0 b i)) st = Some st1"
    "moving content hash ok o0 n0 l0 b (qs @ [i]) st1"
    using move_step [OF rd Cons.prems(1) _ _ _ few av] Cons.prems(2,3) by force
  have "\<exists>st'. forEach (\<lambda>i. moveSlot sentinel (the (slotRef o0 b i))) rs st1 = Some st' \<and>
      moving content hash ok o0 n0 l0 b ((qs @ [i]) @ rs) st'"
    by (rule Cons.IH [OF st1(2)]) (use Cons.prems(2,3) in auto)
  with st1(1) show ?case by simp
qed

text \<open>Marking the bin as in transfer changes nothing a transfer depends on.\<close>

lemma ready_marked:
  assumes rd: "ready content hash ok o0 n0 l0 b" and sf: "same_frame o0 o1" and wf: "wf_index o1"
    and same: "lmeta o1 = lmeta o0" "slotRef o1 = slotRef o0" "slotIn o1 = slotIn o0"
    "\<And>b' i. i < 15 \<Longrightarrow> isValid o1 b' i = isValid o0 b' i"
  shows "ready content hash ok o1 n0 l0 b" "view o1 = view o0" "validCount o1 = validCount o0"
    "shards o1 n0 b = shards o0 n0 b"
proof -
  have sg: "same_geometry o0 o1" using sf by (rule same_frame_geometry)
  show v: "view o1 = view o0" "validCount o1 = validCount o0" "shards o1 n0 b = shards o0 n0 b"
    using sg same(3,4)
    by (auto simp: view_def validCount_def shards_def fun_eq_iff same_geometry_def
        intro!: arg_cong [where f = card])
  have "binOf o1 = binOf o0" "length (bins o1) = length (bins o0)"
    using sg by (auto simp: same_geometry_def binOf_def)
  with rd wf show "ready content hash ok o1 n0 l0 b"
    unfolding ready_def slotEntry_def v same_geometry_inBin [OF sg] by simp
qed

lemma transferBin_spec:
  assumes rd: "ready content hash ok o0 n0 l0 b"
    and av: "\<And>i s. view o0 b i = Some s \<Longrightarrow> avoids (transferSentinel b) s"
  obtains st' where
    "transferBin moveSlot transferSentinel b \<lparr>xold = o0, xnew = n0, xnext = l0\<rparr> = Some st'"
    "same_frame o0 (xold st')" "wf_index (xold st')" "lmeta (xold st') = lmeta o0"
    "\<And>b'. getBinState (hdr (xold st') b') = (if b' = b then BinDoneTransfer else getBinState (hdr o0 b'))"
    "\<And>b' i. inBin o0 b' \<Longrightarrow> b' \<noteq> b \<Longrightarrow> view (xold st') b' i = view o0 b' i"
    "validCount (xold st') = validCount o0"
    "filling (xnew st') (xnext st')" "entries_wf content hash ok (xnew st')"
    "same_frame n0 (xnew st')"
    "\<And>k. absMap content hash (xnew st') k =
       (if binOf o0 (hash k) = b then absMap content hash o0 k else absMap content hash n0 k)"
    "unat l0 \<le> unat (xnext st') + (validCount o0 b div 4 + validCount o0 b div 8)"
    "unat (xnext st') + (\<Sum>c\<in>shards o0 n0 b. linkCount (xnew st') c) = unat l0"
    "\<And>c. c \<notin> shards o0 n0 b \<Longrightarrow> validCount (xnew st') c = validCount n0 c \<and>
       linkCount (xnew st') c = linkCount n0 c"
proof -
  have wf: "wf_index o0" and b: "inBin o0 b" using rd by (simp_all add: ready_def)
  let ?h = "hdr o0 b"
  let ?h1 = "?h OR push_bit binStateShift (ucast BinInTransfer)"
  obtain o1 where o1: "storeHeader o0 b ?h1 = Some o1" "same_frame o0 o1" "wf_index o1"
    "lmeta o1 = lmeta o0" "slotRef o1 = slotRef o0" "slotIn o1 = slotIn o0"
    "\<And>b' i. i < 15 \<Longrightarrow> isValid o1 b' i = isValid o0 b' i"
    "\<And>b'. hdr o1 b' = (if b' = b then ?h1 else hdr o0 b')"
    by (rule binState_frame [OF wf b bit_setInTransfer]) (assumption | rule that)+
  note rm = ready_marked [OF rd o1(2-7)]
  have rd1: "ready content hash ok o1 n0 l0 b" by (rule rm(1))
  have av1: "avoids (transferSentinel b) s" if "view o1 b i = Some s" for i s
    using that av by (simp add: rm(2))
  let ?F = "\<lambda>i. moveSlot (transferSentinel b) (the (slotRef o0 b i))"
  let ?V = "filter (isValid o0 b)"
  let ?seg = "\<lambda>u. ?V (linkSegment u)"
  let ?st1 = "\<lparr>xold = o1, xnew = n0, xnext = l0\<rparr>"
  have all15: "i < 15" if "i \<in> set (primarySlots @ linkSlots)" for i
    using that upt_15 by (metis atLeastLessThan_iff set_upt)
  have prefix: "\<exists>st'. forEach ?F rs st = Some st' \<and> moving content hash ok o1 n0 l0 b (qs @ rs) st'"
    if "moving content hash ok o1 n0 l0 b qs st" "distinct (qs @ rs)"
      "set (qs @ rs) \<subseteq> set (?V [0..<15])" for qs rs st
    unfolding o1(5) [symmetric]
    by (rule moves_all [OF rd1 av1 that(1,2)]) (use that(3) o1(7) in auto)
  have seq: "?V [0..<15] = ?V primarySlots @ ?seg 0 @ ?seg 1 @ ?seg 2"
    unfolding upt_15 linkSlots_segments filter_append ..
  have dist: "distinct (?V primarySlots @ ?seg 0 @ ?seg 1 @ ?seg 2)"
    unfolding seq [symmetric] by simp
  have sub: "set (?V primarySlots @ ?seg 0 @ ?seg 1 @ ?seg 2) = set (?V [0..<15])" by (simp only: seq)
  have start: "moving content hash ok o1 n0 l0 b [] ?st1" by (rule moving_start [OF rd1])
  have d: "distinct ([] @ ?V primarySlots)" "distinct (?V primarySlots @ ?seg 0)"
    "distinct ((?V primarySlots @ ?seg 0) @ ?seg 1)"
    "distinct (((?V primarySlots @ ?seg 0) @ ?seg 1) @ ?seg 2)"
    using dist by auto
  have t: "set ([] @ ?V primarySlots) \<subseteq> set (?V [0..<15])"
    "set (?V primarySlots @ ?seg 0) \<subseteq> set (?V [0..<15])"
    "set ((?V primarySlots @ ?seg 0) @ ?seg 1) \<subseteq> set (?V [0..<15])"
    "set (((?V primarySlots @ ?seg 0) @ ?seg 1) @ ?seg 2) \<subseteq> set (?V [0..<15])"
    unfolding sub [symmetric] by auto
  obtain sa where sa: "forEach ?F (?V primarySlots) ?st1 = Some sa"
    "moving content hash ok o1 n0 l0 b (?V primarySlots) sa"
    using prefix [OF start d(1) t(1)] by auto
  obtain sb where sb: "forEach ?F (?seg 0) sa = Some sb"
    "moving content hash ok o1 n0 l0 b (?V primarySlots @ ?seg 0) sb"
    using prefix [OF sa(2) d(2) t(2)] by blast
  obtain sc where sc: "forEach ?F (?seg 1) sb = Some sc"
    "moving content hash ok o1 n0 l0 b ((?V primarySlots @ ?seg 0) @ ?seg 1) sc"
    using prefix [OF sb(2) d(3) t(3)] by blast
  obtain sd where sd: "forEach ?F (?seg 2) sc = Some sd"
    "moving content hash ok o1 n0 l0 b (((?V primarySlots @ ?seg 0) @ ?seg 1) @ ?seg 2) sd"
    using prefix [OF sc(2) d(4) t(4)] by blast
  let ?all = "?V [0..<15]"
  have mv: "moving content hash ok o1 n0 l0 b ?all sd" using sd(2) by (simp add: seq)
  have lm: "lmeta (xold sa) = lmeta o0" "inBin (xold sa) b" "inBin (xold sd) b"
    using sa(2) sd(2) o1(2,4) b same_geometry_inBin same_frame_geometry
    unfolding moving_def by metis+
  have sb': "(if getSingle (lmeta o0 b) \<noteq> NO_LINK
      then transferSlots moveSlot (validMask4 ?h 3) (LinkSlot (getSingle (lmeta o0 b))) (transferSentinel b) sa
      else Some sa) = Some sb"
  proof (cases "getSingle (lmeta o0 b) = 0")
    case True
    then show ?thesis
      using sb(1) segment_unattached [OF wf b, of 0] linkAt_simps [of o0 b] by simp
  next
    case False
    then have at: "linkAt o0 b 0 = getSingle (lmeta o0 b)" "linkAt o0 b 0 \<noteq> 0"
      using linkAt_simps [of o0 b] by simp_all
    from segment_link [OF wf b _ at(2), of 3 moveSlot "transferSentinel b" sa] show ?thesis
      using False sb(1) by (simp add: at(1))
  qed
  have sd': "(if getPairStart (lmeta o0 b) \<noteq> NO_LINK
      then do { st' \<leftarrow> transferSlots moveSlot (validMask4 ?h 7) (LinkSlot (getPairStart (lmeta o0 b)))
                  (transferSentinel b) sb;
                transferSlots moveSlot (validMask4 ?h 11) (LinkSlot (getPairStart (lmeta o0 b) + 1))
                  (transferSentinel b) st' }
      else Some sb) = Some sd"
  proof (cases "getPairStart (lmeta o0 b) = 0")
    case True
    then show ?thesis
      using sc(1) sd(1) segment_unattached [OF wf b, of 1] segment_unattached [OF wf b, of 2]
        linkAt_simps [of o0 b] by simp
  next
    case False
    then have at: "linkAt o0 b 1 = getPairStart (lmeta o0 b)" "linkAt o0 b 1 \<noteq> 0"
      "linkAt o0 b 2 = getPairStart (lmeta o0 b) + 1" using linkAt_simps [of o0 b] by simp_all
    then have "linkAt o0 b 2 \<noteq> 0" using wf b unfolding wf_index_def links_wf_def by blast
    then show ?thesis
      using False sc(1) sd(1) segment_link [OF wf b _ at(2), of 7 moveSlot "transferSentinel b" sb] at
        segment_link [OF wf b, of 2 11 moveSlot "transferSentinel b" sc] by simp
  qed
  have sp: "transferSlots moveSlot (validMask3 ?h) (PrimarySlot b) (transferSentinel b) ?st1 = Some sa"
    unfolding segment_primary [OF wf b] by (rule sa(1))
  have md: "wf_index (xold sd)" "same_frame o1 (xold sd)" "hdr (xold sd) = hdr o1"
    "lmeta (xold sd) = lmeta o1" "slotRef (xold sd) = slotRef o1"
    "\<And>b' j. inBin o1 b' \<Longrightarrow> j < 15 \<Longrightarrow> b' \<noteq> b \<Longrightarrow> slotIn (xold sd) b' j = slotIn o1 b' j"
    "filling (xnew sd) (xnext sd)" "entries_wf content hash ok (xnew sd)" "same_frame n0 (xnew sd)"
    and mabs: "\<And>k v. absMap content hash (xnew sd) k = Some v \<longleftrightarrow> absMap content hash n0 k = Some v \<or>
        (\<exists>i \<in> set ?all. slotEntry content o1 b i = Some (k, v))"
    and mcnt: "(\<Sum>c\<in>shards o1 n0 b. validCount (xnew sd) c) = length ?all"
      "unat (xnext sd) + (\<Sum>c\<in>shards o1 n0 b. linkCount (xnew sd) c) = unat l0"
    and mout: "\<And>c. c \<notin> shards o1 n0 b \<Longrightarrow> validCount (xnew sd) c = validCount n0 c \<and>
        linkCount (xnew sd) c = linkCount n0 c"
    using mv unfolding moving_def by blast+
  have low: "bit (setBinState ?h BinDoneTransfer) n = bit (hdr (xold sd) b) n" if "n < 30" for n
    using that by (simp only: md(3) o1(8) if_True refl bit_setBinState_low bit_setInTransfer)
  obtain o2 where o2: "storeHeader (xold sd) b (setBinState ?h BinDoneTransfer) = Some o2"
    "same_frame (xold sd) o2" "wf_index o2" "lmeta o2 = lmeta (xold sd)"
    "slotRef o2 = slotRef (xold sd)" "slotIn o2 = slotIn (xold sd)"
    "\<And>b' i. i < 15 \<Longrightarrow> isValid o2 b' i = isValid (xold sd) b' i"
    "\<And>b'. hdr o2 b' = (if b' = b then setBinState ?h BinDoneTransfer else hdr (xold sd) b')"
    by (rule binState_frame [OF md(1) lm(3) low]) (assumption | rule that)+
  let ?st = "sd\<lparr>xold := o2\<rparr>"
  have run: "transferBin moveSlot transferSentinel b \<lparr>xold = o0, xnew = n0, xnext = l0\<rparr> = Some ?st"
    unfolding transferBin_def Let_def xfer.simps getBinByIndex_in [OF b] Option.bind.simps
      hdr_def [symmetric] o1(1) sp getBinByIndex_in [OF lm(2)] lmeta_def [symmetric] lm(1) sb' sd' o2(1) ..
  have sf: "same_frame o0 o2" using o1(2) md(2) o2(2) by (blast intro: same_frame_trans)
  have iv: "isValid o2 b' i = isValid o0 b' i" if "i < 15" for b' i
    using o2(7) [OF that] o1(7) [OF that] by (simp add: isValid_def md(3))
  have state: "getBinState (hdr o2 b') = (if b' = b then BinDoneTransfer else getBinState (hdr o0 b'))" for b'
    by (simp add: o2(8) md(3) o1(8) getBinState_setBinState)
  have vw: "view o2 b' i = view o0 b' i" if "inBin o0 b'" "b' \<noteq> b" for b' i
    using that md(6) [of b' i] o1(6) iv same_geometry_inBin [OF same_frame_geometry [OF o1(2)], of b']
    by (auto simp: view_def o2(6))
  have vc: "validCount o2 = validCount o0"
    using iv by (auto simp: validCount_def fun_eq_iff intro!: arg_cong [where f = card])
  have se: "slotEntry content o1 b i = slotEntry content o0 b i" for i
    by (simp add: slotEntry_def rm(2))
  have mem: "i \<in> set ?all" if "slotEntry content o0 b i = Some e" for i e
    using that by (auto simp: slotEntry_def view_def split: if_splits)
  have ab0: "absMap content hash o0 k = Some v \<longleftrightarrow> (\<exists>i. slotEntry content o0 b i = Some (k, v))"
    if "binOf o0 (hash k) = b" for k v
    unfolding absMap_def that by (rule map_of_binEntries) (use rd in \<open>auto simp: ready_def\<close>)
  have ab: "absMap content hash (xnew sd) k =
      (if binOf o0 (hash k) = b then absMap content hash o0 k else absMap content hash n0 k)" for k
  proof (cases "binOf o0 (hash k) = b")
    case True
    then have "absMap content hash n0 k = None" using rd by (simp add: ready_def)
    then have "absMap content hash (xnew sd) k = Some v \<longleftrightarrow> absMap content hash o0 k = Some v" for v
      unfolding mabs ab0 [OF True] se using mem by auto
    with True show ?thesis by (metis not_None_eq)
  next
    case False
    have "slotEntry content o0 b i \<noteq> Some (k, v)" for i v
      using ready_bin [OF rd] False by blast
    then have "absMap content hash (xnew sd) k = Some v \<longleftrightarrow> absMap content hash n0 k = Some v" for v
      unfolding mabs se by simp
    with False show ?thesis by (metis not_None_eq)
  qed
  have "length ?all = validCount o0 b"
    using distinct_card [of ?all] by (simp add: validCount_def)
  then have links: "unat l0 \<le> unat (xnext sd) + (validCount o0 b div 4 + validCount o0 b div 8)"
    using shards_links [OF md(7), of o1 b] mcnt same_geometry_inBin [OF same_frame_geometry [OF md(9)]]
    by (simp add: shards_def)
  show ?thesis
    by (rule that [OF run]) (use sf o2 md(4,7,8,9) o1(4) state vw vc ab links mcnt(2) mout rm(4) in simp_all)
qed

end

end
