(* ===== verification/NewIndex.thy ===== *)
theory NewIndex
  imports ResizeBins
begin

text \<open>
  Construction: \<open>nextPowerOf2\<close> (hash.go), and the state \<open>newIndex\<close> (index.go) builds for
  \<open>New\<close> and for a resize. A fresh index is settled and holds nothing.
\<close>

section \<open>The next power of two\<close>

definition nextPowerOf2 :: "64 word \<Rightarrow> 64 word" where
  "nextPowerOf2 n = (if n \<le> 1 then 1 else push_bit (64 - LeadingZeros64 (n - 1)) 1)"

lemma LeadingZeros64_bounds:
  assumes "w \<noteq> 0"
  shows "LeadingZeros64 w < 64" "2 ^ (63 - LeadingZeros64 w) \<le> unat w"
    "unat w < 2 ^ (64 - LeadingZeros64 w)"
proof -
  let ?p = "\<lambda>i. \<not> bit w (63 - i)"
  have low: "\<not> bit w (63 - i)" if "i < LeadingZeros64 w" for i
    using nth_mem [of i "takeWhile ?p [0..<64]"] that takeWhile_nth [of i ?p "[0..<64]"]
      length_takeWhile_le [of ?p "[0..<64]"] set_takeWhileD [of "takeWhile ?p [0..<64] ! i" ?p]
    by (simp add: LeadingZeros64_def)
  show lt: "LeadingZeros64 w < 64"
  proof (rule ccontr)
    assume "\<not> LeadingZeros64 w < 64"
    then have "\<not> bit w j" if "j < 64" for j using low [of "63 - j"] that by simp
    then have "w = 0" by (intro bit_word_eqI) simp
    with assms show False by simp
  qed
  have hit: "bit w (63 - LeadingZeros64 w)"
    using nth_length_takeWhile [of ?p "[0..<64]"] lt by (simp add: LeadingZeros64_def)
  show "2 ^ (63 - LeadingZeros64 w) \<le> unat w"
  proof (rule ccontr)
    assume "\<not> 2 ^ (63 - LeadingZeros64 w) \<le> unat w"
    then have "take_bit (63 - LeadingZeros64 w) (unat w) = unat w"
      by (simp add: take_bit_nat_eq_self_iff)
    then have "\<not> bit (unat w) (63 - LeadingZeros64 w)" by (metis bit_take_bit_iff less_irrefl)
    with hit show False by (simp add: bit_unsigned_iff)
  qed
  have "bit w n \<Longrightarrow> n < 64 - LeadingZeros64 w" for n
    using low [of "63 - n"] bit_imp_le_length [of w n] by (cases "n < 64") force+
  then have "take_bit (64 - LeadingZeros64 w) w = w"
    by (intro bit_word_eqI) (auto simp: bit_simps)
  then have "unat w = take_bit (64 - LeadingZeros64 w) (unat w)"
    by (metis unsigned_take_bit_eq)
  then show "unat w < 2 ^ (64 - LeadingZeros64 w)" by (metis take_bit_nat_less_exp)
qed

text \<open>The result is the least power of two that is not below the argument, up to 2^63.\<close>

lemma nextPowerOf2_cases:
  assumes "unat n \<le> 2 ^ 63"
  obtains k where "k \<le> 63" "nextPowerOf2 n = 2 ^ k" "unat n \<le> 2 ^ k"
    "0 < k \<Longrightarrow> 2 ^ (k - 1) < unat n"
proof (cases "n \<le> 1")
  case True
  then have "unat n \<le> 1" by (simp add: word_le_nat_alt)
  with True show ?thesis by (intro that [of 0]) (simp_all add: nextPowerOf2_def)
next
  case False
  let ?w = "n - 1"
  have "n \<noteq> 0" "?w \<noteq> 0" using False by auto
  then have u: "unat ?w = unat n - 1" "unat n \<noteq> 0" by (simp_all add: unat_minus_one unat_eq_0)
  note b = LeadingZeros64_bounds [OF \<open>?w \<noteq> 0\<close>]
  let ?k = "64 - LeadingZeros64 ?w"
  have "?k \<noteq> 64"
  proof
    assume "?k = 64"
    then have "LeadingZeros64 ?w = 0" by linarith
    with b(2) have "2 ^ 63 \<le> unat ?w" by simp
    with u assms show False by linarith
  qed
  then have k: "?k \<le> 63" "0 < ?k" using b(1) by linarith+
  have k1: "?k - 1 = 63 - LeadingZeros64 ?w" by simp
  have "nextPowerOf2 n = 2 ^ ?k" using False by (simp add: nextPowerOf2_def push_bit_eq_mult)
  moreover have "unat n \<le> 2 ^ ?k" using b(3) u by linarith
  moreover have "2 ^ (?k - 1) < unat n" unfolding k1 using b(2) u by linarith
  ultimately show ?thesis using k(1) that by blast
qed

section \<open>A fresh index\<close>

lemma nextPowerOf2_big:
  assumes "2 ^ 63 < unat n"
  shows "nextPowerOf2 n = 0"
proof -
  have n: "n \<noteq> 0" "\<not> n \<le> 1" using assms by (auto simp: word_le_nat_alt)
  then have u: "unat (n - 1) = unat n - 1" by (simp add: unat_minus_one)
  have "n - 1 \<noteq> 0" using u assms by auto
  note lz = LeadingZeros64_bounds [OF this]
  have "LeadingZeros64 (n - 1) = 0"
  proof (rule ccontr)
    assume "LeadingZeros64 (n - 1) \<noteq> 0"
    then have "(2::nat) ^ (64 - LeadingZeros64 (n - 1)) \<le> 2 ^ 63" by (intro power_increasing) auto
    then show False using lz(3) u assms by linarith
  qed
  then show ?thesis using n by (simp add: nextPowerOf2_def)
qed

lemma unat_exp: "n < 64 \<Longrightarrow> unat (2 ^ n :: 64 word) = 2 ^ n"
proof -
  assume "n < 64"
  then have "(2::nat) ^ n < 2 ^ 64" by (intro power_strict_increasing) simp_all
  moreover have "(2 ^ n :: 64 word) = of_nat (2 ^ n)" by simp
  ultimately show ?thesis by (simp only: unsigned_of_nat take_bit_eq_mod) simp
qed

lemma fresh_sizes:
  assumes "n \<le> 33"
  shows "unat (2 ^ n :: 64 word) = 2 ^ n" "unat ((2 ^ n :: 64 word) div 8) = 2 ^ n div 8"
    "unat ((2 ^ n :: 64 word) - 1) = 2 ^ n - 1"
    "unat (ucast ((2 ^ n :: 64 word) div 8) :: 32 word) = 2 ^ n div 8"
proof -
  have lt: "(2::nat) ^ n \<le> 2 ^ 33" using assms by (rule power_increasing) simp
  show p: "unat (2 ^ n :: 64 word) = 2 ^ n" using assms by (simp add: unat_exp)
  then show d: "unat ((2 ^ n :: 64 word) div 8) = 2 ^ n div 8" by (simp add: unat_div)
  have "(2 ^ n :: 64 word) \<noteq> 0" using p by (metis power_not_zero unat_0 zero_neq_numeral)
  then show "unat ((2 ^ n :: 64 word) - 1) = 2 ^ n - 1" using p by (simp add: unat_minus_one)
  have "(2::nat) ^ n div 8 \<le> 2 ^ 33 div 8" using lt by (rule div_le_mono)
  then have "(2::nat) ^ n div 8 < 2 ^ 32" by simp
  then show "unat (ucast ((2 ^ n :: 64 word) div 8) :: 32 word) = 2 ^ n div 8"
    by (simp add: unsigned_ucast_eq d take_bit_eq_mod)
qed

lemma newIndex_shape:
  assumes "n \<le> 33"
  shows "shape (newIndex zv (2 ^ n))"
  using assms unfolding shape_def newIndex_def
  by (auto simp: fresh_sizes zeroPrimaryBucket_def zeroLinkBucket_def)

lemma newIndex_reads:
  assumes "inBin (newIndex zv k) b"
  shows "hdr (newIndex zv k) b = 0" "lmeta (newIndex zv k) b = 0" "linkAt (newIndex zv k) b u = 0"
  using assms
  by (simp_all add: inBin_def hdr_def lmeta_def newIndex_def zeroPrimaryBucket_def linkAt_def
      resolveLink_def getSingle_def getPairStart_def)

lemma newIndex_invalid:
  assumes "inBin (newIndex zv k) b"
  shows "isInvalid (newIndex zv k) b i" "view (newIndex zv k) b i = None"
    "validCount (newIndex zv k) b = 0" "linkCount (newIndex zv k) b = 0"
    "getBinState (hdr (newIndex zv k) b) = BinNoTransfer"
    "i < 15 \<Longrightarrow> getSlotState (hdr (newIndex zv k) b) (int i) \<noteq> SlotTrying"
  using newIndex_reads [OF assms] not_Trying [of i 0]
  by (simp_all add: isInvalid_def view_def isValid_def validCount_def linkCount_def getBinState_eq
      getSlotState_eq)

lemma newIndex_wf:
  assumes "n \<le> 33"
  shows "wf_index (newIndex zv (2 ^ n))"
  using newIndex_shape [OF assms, of zv] newIndex_reads [of zv "2 ^ n"]
    newIndex_invalid(1) [of zv "2 ^ n"]
  by (auto simp: wf_index_def links_wf_def states_wf_def isInvalid_def)

lemma newIndex_settled:
  assumes "n \<le> 33"
  shows "settled (newIndex zv (2 ^ n))" "entries_wf content hash ok (newIndex zv (2 ^ n))"
    "absMap content hash (newIndex zv (2 ^ n)) k = None" "indexNext (newIndex zv (2 ^ n)) = None"
    "length (bins (newIndex zv (2 ^ n))) = 2 ^ n"
proof -
  let ?ix = "newIndex zv (2 ^ n)"
  have "alloc_ok ?ix"
    using newIndex_reads(3) [of zv "2 ^ n"] assms
    by (auto simp: alloc_ok_def) (simp_all add: newIndex_def fresh_sizes)
  then show "settled ?ix"
    using newIndex_wf [OF assms] newIndex_invalid(5,6) [of zv "2 ^ n"] by (simp add: settled_def)
  have none: "slotEntry content ?ix b i = None" if "inBin ?ix b" for b i
    using newIndex_invalid(2) [OF that] by (simp add: slotEntry_def)
  then show ew: "entries_wf content hash ok ?ix"
    using newIndex_invalid(2) [of zv "2 ^ n"] by (auto simp: entries_wf_def)
  have sh: "shape ?ix" by (rule newIndex_shape [OF assms])
  show "absMap content hash ?ix k = None"
    using absMap_None [OF ew sh, of k] none [OF binOf_in [OF sh]] by simp
  show "indexNext ?ix = None" "length (bins ?ix) = 2 ^ n"
    using assms by (simp_all add: newIndex_def fresh_sizes)
qed


section \<open>New\<close>

text \<open>\<open>zv\<close> is the zero value of a slot's second word, \<open>cfg\<close> what \<open>initHashConfig\<close> returned.\<close>

definition New :: "'v \<Rightarrow> 'c \<Rightarrow> 64 word \<Rightarrow> ('v, 'c) Map" where
  "New zv cfg initialSize =
     (let initialSize = (if initialSize = 0 then 16 else initialSize);
          size = nextPowerOf2 initialSize
      in \<lparr>active = 0, hashConfig = cfg, resizeCtx = None,
          indexes = [newIndex zv size], contexts = []\<rparr>)"

lemma New_generations:
  assumes "unat initialSize \<le> 2 ^ 33"
  obtains n where "n \<le> 33" "generations (New zv cfg initialSize)"
    "current (New zv cfg initialSize) = newIndex zv (2 ^ n)"
    "hashConfig (New zv cfg initialSize) = cfg"
proof -
  let ?s = "if initialSize = 0 then 16 else initialSize"
  have le: "unat ?s \<le> 2 ^ 33" using assms by auto
  then have "unat ?s \<le> 2 ^ 63" by simp
  then obtain k where k: "nextPowerOf2 ?s = 2 ^ k" "0 < k \<Longrightarrow> 2 ^ (k - 1) < unat ?s"
    by (rule nextPowerOf2_cases) (rule that)
  have "k \<le> 33"
  proof (rule ccontr)
    assume "\<not> k \<le> 33"
    then have "(2::nat) ^ 33 \<le> 2 ^ (k - 1)" by (intro power_increasing) auto
    then show False using k(2) \<open>\<not> k \<le> 33\<close> le by linarith
  qed
  moreover have "New zv cfg initialSize = \<lparr>active = 0, hashConfig = cfg, resizeCtx = None,
      indexes = [newIndex zv (2 ^ k)], contexts = []\<rparr>"
    unfolding New_def Let_def k(1) ..
  ultimately show ?thesis
    using that [of k] newIndex_settled(1,4) [OF \<open>k \<le> 33\<close>, of zv]
    by (simp add: generations_def current_def ascending_def)
qed

end
