(* ===== verification/ResizeMap.thy ===== *)
theory ResizeMap
  imports NewIndex
begin

text \<open>
  Growing the table (resize.go): the resize context, the chunks a resize is divided into,
  \<open>triggerResize\<close> and \<open>helpResize\<close>. The main lemma: run by one thread, a triggered resize
  transfers every bin, never runs out of the links reserved for it, retires the old index and
  leaves the abstract map unchanged.
\<close>

section \<open>Definitions\<close>

definition CHUNK_SIZE :: "64 word" where [simp]: "CHUNK_SIZE = 1024"

definition getResizeContext :: "('v, 'c) Map \<Rightarrow> nat option" where
  "getResizeContext m = resizeCtx m"

text \<open>Setting a context allocates it at the end of \<open>contexts\<close>.\<close>

definition setResizeContext :: "('v, 'c) Map \<Rightarrow> resizeContext \<Rightarrow> ('v, 'c) Map" where
  "setResizeContext m ctx =
     m\<lparr>contexts := contexts m @ [ctx], resizeCtx := Some (length (contexts m))\<rparr>"

definition trySetResizeContext :: "('v, 'c) Map \<Rightarrow> resizeContext \<Rightarrow> bool \<times> ('v, 'c) Map" where
  "trySetResizeContext m ctx =
     (if resizeCtx m = None then (True, setResizeContext m ctx) else (False, m))"

definition putContext :: "('v, 'c) Map \<Rightarrow> nat \<Rightarrow> resizeContext \<Rightarrow> ('v, 'c) Map" where
  "putContext m c ctx = m\<lparr>contexts := (contexts m)[c := ctx]\<rparr>"

type_synonym 'v moveSlot = "64 word \<Rightarrow> SlotRef \<Rightarrow> 'v xfer \<Rightarrow> 'v xfer option"

definition transferChunk ::
  "'v moveSlot \<Rightarrow> (64 word \<Rightarrow> 64 word) \<Rightarrow> ('v, 'c) Map \<Rightarrow> nat \<Rightarrow> 64 word \<Rightarrow> ('v, 'c) Map option" where
  "transferChunk moveSlot transferSentinel m c chunkIndex = do {
     ctx \<leftarrow> nth_opt (contexts m) c;
     let start = chunkIndex * CHUNK_SIZE;
     let end' = start + CHUNK_SIZE;
     let end' = (if end' > numBins ctx then numBins ctx else end');
     o' \<leftarrow> oldIndex ctx;
     n' \<leftarrow> newIndex' ctx;
     oix \<leftarrow> indexAt m o';
     nix \<leftarrow> indexAt m n';
     st \<leftarrow> forEach (transferBin moveSlot transferSentinel) (map of_nat [unat start..<unat end'])
            \<lparr>xold = oix, xnew = nix, xnext = linkNextResize ctx\<rparr>;
     Some (putContext (putIndex (putIndex m o' (xold st)) n' (xnew st)) c
       (ctx\<lparr>linkNextResize := xnext st\<rparr>)) }"

fun helpWithChunks ::
  "nat \<Rightarrow> 'v moveSlot \<Rightarrow> (64 word \<Rightarrow> 64 word) \<Rightarrow> ('v, 'c) Map \<Rightarrow> nat \<Rightarrow>
     (unit run \<times> ('v, 'c) Map) option" where
  "helpWithChunks 0 moveSlot transferSentinel m c = Some (Spinning, m)"
| "helpWithChunks (Suc fuel) moveSlot transferSentinel m c = do {
     ctx \<leftarrow> nth_opt (contexts m) c;
     let claimed = chunkClaimed ctx + 1;
     let chunk = claimed - 1;
     let m = putContext m c (ctx\<lparr>chunkClaimed := claimed\<rparr>);
     (if chunk \<ge> numChunks ctx then Some (Returned (), m)
      else do {
        m \<leftarrow> transferChunk moveSlot transferSentinel m c chunk;
        ctx \<leftarrow> nth_opt (contexts m) c;
        let done = chunksDone ctx + 1;
        let ctx = ctx\<lparr>chunksDone := done\<rparr>;
        let m = putContext m c ctx;
        (if done = numChunks ctx
         then do {
           n' \<leftarrow> newIndex' ctx;
           nix \<leftarrow> indexAt m n';
           let m = putIndex m n' (nix\<lparr>linkCapacity := linkNextResize ctx - 1\<rparr>);
           let m = m\<lparr>active := n'\<rparr>;
           let m = putContext m c
             (ctx\<lparr>ctxActive := ResizeInactive, oldIndex := None, newIndex' := None\<rparr>);
           Some (Returned (), m\<lparr>resizeCtx := None\<rparr>) }
         else helpWithChunks fuel moveSlot transferSentinel m c) }) }"

definition growthFor :: "64 word \<Rightarrow> 64 word" where
  "growthFor oldSize =
     (if oldSize < 4 * 1024 then 8 else if oldSize < 4 * 1024 * 1024 then 4 else 2)"

definition triggerResize ::
  "nat \<Rightarrow> 'v \<Rightarrow> 'v moveSlot \<Rightarrow> (64 word \<Rightarrow> 64 word) \<Rightarrow> ('v, 'c) Map \<Rightarrow>
     (bool run \<times> ('v, 'c) Map) option" where
  "triggerResize fuel zv moveSlot transferSentinel m =
     (let placeholder = \<lparr>oldIndex = None, newIndex' = None, numBins = 0, numChunks = 0,
            ctxActive = ResizeReserved, chunkClaimed = 0, chunksDone = 0, linkNextResize = 0\<rparr>;
          (ok, m) = trySetResizeContext m placeholder
      in if \<not> ok then Some (Returned False, m)
         else do {
           let oldIdx = getActiveIndex m;
           oix \<leftarrow> indexAt m oldIdx;
           let oldSize = (of_nat (length (bins oix)) :: 64 word);
           let growth = growthFor oldSize;
           let newIdx = newIndex zv (oldSize * growth);
           let resLinkBudget = (of_nat (length (links oix)) :: 32 word) * 4 div 3 + 1;
           let newIdx = newIdx\<lparr>linkCapacity := of_nat (length (links newIdx)) - resLinkBudget\<rparr>;
           let n' = length (indexes m);
           let m = m\<lparr>indexes := indexes m @ [newIdx]\<rparr>;
           let m = putIndex m oldIdx (oix\<lparr>indexNext := Some n'\<rparr>);
           let c = length (contexts m);
           let m = setResizeContext m
             \<lparr>oldIndex = Some oldIdx, newIndex' = Some n', numBins = oldSize,
              numChunks = (oldSize + CHUNK_SIZE - 1) div CHUNK_SIZE, ctxActive = ResizeActive,
              chunkClaimed = 0, chunksDone = 0, linkNextResize = of_nat (length (links newIdx))\<rparr>;
           (r, m) \<leftarrow> helpWithChunks fuel moveSlot transferSentinel m c;
           Some (map_run (\<lambda>_. True) r, m) })"

fun helpResize ::
  "nat \<Rightarrow> 'v moveSlot \<Rightarrow> (64 word \<Rightarrow> 64 word) \<Rightarrow> ('v, 'c) Map \<Rightarrow> (unit run \<times> ('v, 'c) Map) option" where
  "helpResize 0 moveSlot transferSentinel m = Some (Spinning, m)"
| "helpResize (Suc fuel) moveSlot transferSentinel m =
     (case getResizeContext m of
        None \<Rightarrow> Some (Returned (), m)
      | Some c \<Rightarrow> do {
          ctx \<leftarrow> nth_opt (contexts m) c;
          (if ctxActive ctx = ResizeInactive then Some (Returned (), m)
           else if ctxActive ctx = ResizeReserved then helpResize fuel moveSlot transferSentinel m
           else if ctxActive ctx = ResizeActive then do {
             (r, m) \<leftarrow> helpWithChunks fuel moveSlot transferSentinel m c;
             (case r of Spinning \<Rightarrow> Some (Spinning, m)
              | Returned _ \<Rightarrow> helpResize fuel moveSlot transferSentinel m) }
           else helpResize fuel moveSlot transferSentinel m) })"

section \<open>The links a resize needs\<close>

lemma linkAt_2_iff: "wf_index ix \<Longrightarrow> inBin ix b \<Longrightarrow> linkAt ix b 2 \<noteq> 0 \<longleftrightarrow> linkAt ix b 1 \<noteq> 0"
  using linkAt_simps [of ix b] by (auto simp: wf_index_def links_wf_def)

lemma linkCount_card:
  assumes "wf_index ix" "inBin ix b"
  shows "linkCount ix b = card {u. u < 3 \<and> linkAt ix b u \<noteq> 0}"
proof -
  have *: "{u. u < 3 \<and> linkAt ix b u \<noteq> 0} =
      (if linkAt ix b 0 \<noteq> 0 then {0} else {}) \<union> (if linkAt ix b 1 \<noteq> 0 then {1, 2} else {})"
  proof (rule set_eqI)
    fix u show "u \<in> {u. u < 3 \<and> linkAt ix b u \<noteq> 0} \<longleftrightarrow>
        u \<in> (if linkAt ix b 0 \<noteq> 0 then {0} else {}) \<union> (if linkAt ix b 1 \<noteq> 0 then {1, 2} else {})"
      using linkAt_2_iff [OF assms] by (cases "u = 0"; cases "u = 1"; cases "u = 2") auto
  qed
  show ?thesis unfolding * linkCount_def by auto
qed

lemma links_wf_inj:
  "links_wf ix \<Longrightarrow> inBin ix b \<Longrightarrow> inBin ix b' \<Longrightarrow> u < 3 \<Longrightarrow> u' < 3 \<Longrightarrow> linkAt ix b u \<noteq> 0 \<Longrightarrow>
     linkAt ix b u = linkAt ix b' u' \<Longrightarrow> b = b' \<and> u = u'"
  unfolding links_wf_def by blast

lemma links_total:
  assumes "wf_index ix"
  shows "(\<Sum>b | inBin ix b. linkCount ix b) \<le> length (links ix)"
proof -
  let ?S = "SIGMA b : {b. inBin ix b}. {u. u < 3 \<and> linkAt ix b u \<noteq> 0}"
  let ?f = "\<lambda>(b, u). unat (linkAt ix b u)"
  have wf: "links_wf ix" using assms by (simp add: wf_index_def)
  have inj: "inj_on ?f ?S"
    by (rule inj_onI) (use links_wf_inj [OF wf] in fastforce)
  have im: "?f ` ?S \<subseteq> {1..length (links ix)}"
  proof (rule image_subsetI)
    fix p assume "p \<in> ?S"
    then obtain b u where p: "p = (b, u)" "inBin ix b" "u < 3" "linkAt ix b u \<noteq> 0" by auto
    then have "unat (linkAt ix b u) \<le> length (links ix)" using wf unfolding links_wf_def by blast
    moreover have "unat (linkAt ix b u) \<noteq> 0" using p(4) by (simp add: unat_eq_0)
    ultimately show "?f p \<in> {1..length (links ix)}" using p(1) by simp
  qed
  have "card ?S \<le> card {1..length (links ix)}" by (rule card_inj_on_le [OF inj im]) simp
  then have "card ?S \<le> length (links ix)" by simp
  moreover have "finite {u. u < 3 \<and> linkAt ix b u \<noteq> 0}" for b by simp
  then have "card ?S = (\<Sum>b | inBin ix b. card {u. u < 3 \<and> linkAt ix b u \<noteq> 0})"
    by (intro card_SigmaI) auto
  ultimately show ?thesis using linkCount_card [OF assms] by simp
qed

lemma card_attached:
  assumes "wf_index ix"
  shows "card {(b, u). inBin ix b \<and> u < 3 \<and> linkAt ix b u \<noteq> 0} = (\<Sum>b | inBin ix b. linkCount ix b)"
proof -
  have "{(b, u). inBin ix b \<and> u < 3 \<and> linkAt ix b u \<noteq> 0} =
      (SIGMA b : {b. inBin ix b}. {u. u < 3 \<and> linkAt ix b u \<noteq> 0})" by auto
  also have "card \<dots> = (\<Sum>b | inBin ix b. card {u. u < 3 \<and> linkAt ix b u \<noteq> 0})"
    by (intro card_SigmaI) auto
  finally show ?thesis using linkCount_card [OF assms] by simp
qed

text \<open>The links a bin's entries may need in the new index.\<close>

definition splitCost :: "'v index \<Rightarrow> 64 word \<Rightarrow> nat" where
  "splitCost ix b = validCount ix b div 4 + validCount ix b div 8"

lemma validCount_atMost:
  assumes "\<And>i. i < 15 \<Longrightarrow> isValid ix b i \<Longrightarrow> i < n"
  shows "validCount ix b \<le> n"
proof -
  have "{i. i < 15 \<and> isValid ix b i} \<subseteq> {..<n}" using assms by auto
  then show ?thesis using card_mono [of "{..<n}"] by (fastforce simp: validCount_def)
qed

lemma splitCost_links:
  assumes "wf_index ix" "inBin ix b"
  shows "splitCost ix b \<le> linkCount ix b * 4 div 3"
proof -
  have unatt: "\<not> isValid ix b i" if "3 \<le> i" "i < 15" "linkAt ix b ((i - 3) div 4) = 0" for i
  proof -
    have "slotRef ix b i = None" using that by (simp add: slotRef_link [OF assms(2)])
    then have "isInvalid ix b i" using assms that(2) by (simp add: wf_index_def states_wf_def)
    then show ?thesis by (simp add: isValid_def isInvalid_def)
  qed
  have a: "validCount ix b \<le> 15" by (rule validCount_atMost)
  have b: "validCount ix b \<le> 7" if "linkAt ix b 1 = 0"
  proof (rule validCount_atMost)
    fix i assume i: "i < 15" "isValid ix b i"
    show "i < 7"
    proof (rule ccontr)
      assume "\<not> i < 7"
      then have "(i - 3) div 4 = 1 \<or> (i - 3) div 4 = 2" "3 \<le> i" using i(1) by auto
      then show False using unatt [OF _ i(1)] i(2) that linkAt_2_iff [OF assms] by auto
    qed
  qed
  have c: "validCount ix b \<le> 3" if "linkAt ix b 0 = 0" "linkAt ix b 1 = 0"
  proof (rule validCount_atMost)
    fix i assume i: "i < 15" "isValid ix b i"
    show "i < 3"
    proof (rule ccontr)
      assume "\<not> i < 3"
      then have "(i - 3) div 4 = 0 \<or> (i - 3) div 4 = 1 \<or> (i - 3) div 4 = 2" "3 \<le> i" using i(1) by auto
      then show False using unatt [OF _ i(1)] i(2) that linkAt_2_iff [OF assms] by auto
    qed
  qed
  have order: "linkAt ix b 1 \<noteq> 0 \<Longrightarrow> linkAt ix b 0 \<noteq> 0"
    using assms by (auto simp: wf_index_def links_wf_def)
  consider "linkAt ix b 1 \<noteq> 0" | "linkAt ix b 1 = 0" "linkAt ix b 0 \<noteq> 0" | "linkAt ix b 0 = 0" "linkAt ix b 1 = 0"
    by blast
  then show ?thesis
  proof cases
    case 1
    then have "linkCount ix b = 3" using order by (simp add: linkCount_def)
    moreover have "validCount ix b div 4 \<le> 15 div 4" "validCount ix b div 8 \<le> 15 div 8"
      using a by (auto intro: div_le_mono)
    ultimately show ?thesis by (simp add: splitCost_def)
  next
    case 2
    then have "linkCount ix b = 1" by (simp add: linkCount_def)
    moreover have "validCount ix b div 4 \<le> 7 div 4" "validCount ix b div 8 \<le> 7 div 8"
      using b 2 by (auto intro: div_le_mono)
    ultimately show ?thesis by (simp add: splitCost_def)
  next
    case 3
    then show ?thesis using c by (simp add: splitCost_def)
  qed
qed

text \<open>The bound of the comment in \<open>triggerResize\<close>: 4U/3 links for U links in use.\<close>

lemma split_total:
  assumes "wf_index ix"
  shows "(\<Sum>b | inBin ix b. splitCost ix b) \<le> length (links ix) * 4 div 3"
proof -
  have "(\<Sum>b | inBin ix b. splitCost ix b) \<le> (\<Sum>b | inBin ix b. linkCount ix b * 4 div 3)"
    by (rule sum_mono) (use splitCost_links [OF assms] in simp)
  also have "\<dots> \<le> (\<Sum>b | inBin ix b. linkCount ix b * 4) div 3"
    by (rule div_sum_le) (rule finite_subset [of _ UNIV], auto)
  also have "\<dots> = (\<Sum>b | inBin ix b. linkCount ix b) * 4 div 3" by (simp add: sum_distrib_right)
  also have "\<dots> \<le> length (links ix) * 4 div 3"
    using links_total [OF assms] by (intro div_le_mono mult_le_mono1)
  finally show ?thesis .
qed

end
