(* ===== verification/ResizeRun.thy ===== *)
theory ResizeRun
  imports ResizeMap
begin

text \<open>
  A whole resize: the bins of the old index transferred in order, chunk by chunk, and what
  \<open>triggerResize\<close> leaves behind. The lemmas are proved once for both packages, in the locale
  \<open>slot_transfer\<close>.
\<close>

section \<open>All bins\<close>

lemma unat_of_nat_bin: "k < 2 ^ 33 \<Longrightarrow> unat (of_nat k :: 64 word) = k"
  by (simp add: unsigned_of_nat take_bit_eq_mod)

text \<open>
  The state after the first \<open>k\<close> bins, seen from the start: the old index \<open>o0\<close>, a new index
  \<open>n0\<close> that holds nothing, the link counter \<open>l0\<close>.
\<close>

definition transferred ::
  "('v Slot \<Rightarrow> ('k \<times> 'b) option) \<Rightarrow> ('k \<Rightarrow> 64 word) \<Rightarrow> ('v Slot \<Rightarrow> bool) \<Rightarrow> 'v index \<Rightarrow> 'v index \<Rightarrow>
     32 word \<Rightarrow> nat \<Rightarrow> 'v xfer \<Rightarrow> bool" where
  "transferred content hash ok o0 n0 l0 k st \<longleftrightarrow>
     same_frame o0 (xold st) \<and> wf_index (xold st) \<and>
     (\<forall>b. inBin o0 b \<longrightarrow> getBinState (hdr (xold st) b) =
        (if unat b < k then BinDoneTransfer else getBinState (hdr o0 b))) \<and>
     (\<forall>b i. inBin o0 b \<and> k \<le> unat b \<longrightarrow> view (xold st) b i = view o0 b i) \<and>
     validCount (xold st) = validCount o0 \<and>
     filling (xnew st) (xnext st) \<and> entries_wf content hash ok (xnew st) \<and>
     same_frame n0 (xnew st) \<and>
     (\<forall>x. absMap content hash (xnew st) x =
        (if unat (binOf o0 (hash x)) < k then absMap content hash o0 x else None)) \<and>
     unat l0 \<le> unat (xnext st) + (\<Sum>j<k. splitCost o0 (of_nat j)) \<and>
     unat (xnext st) + (\<Sum>c | inBin n0 c. linkCount (xnew st) c) = unat l0 \<and>
     (\<forall>c. inBin n0 c \<and> k \<le> unat (c AND imask o0) \<longrightarrow>
        validCount (xnew st) c = 0 \<and> linkCount (xnew st) c = 0)"

text \<open>What the resize starts from; \<open>empty_new\<close> is the fresh index.\<close>

definition empty_new ::
  "('v Slot \<Rightarrow> ('k \<times> 'b) option) \<Rightarrow> ('k \<Rightarrow> 64 word) \<Rightarrow> ('v Slot \<Rightarrow> bool) \<Rightarrow> 'v index \<Rightarrow> 32 word \<Rightarrow> bool" where
  "empty_new content hash ok n0 l0 \<longleftrightarrow>
     filling n0 l0 \<and> entries_wf content hash ok n0 \<and> (\<forall>x. absMap content hash n0 x = None) \<and>
     (\<forall>c. inBin n0 c \<longrightarrow> validCount n0 c = 0 \<and> linkCount n0 c = 0)"

definition enough_links :: "'v index \<Rightarrow> 32 word \<Rightarrow> bool" where
  "enough_links o0 l0 \<longleftrightarrow> (links o0 \<noteq> [] \<longrightarrow> length (links o0) * 4 div 3 + 4 \<le> unat l0)"

lemma sum_bins:
  assumes "shape ix"
  shows "(\<Sum>j<length (bins ix). f (of_nat j)) = (\<Sum>b | inBin ix b. f b :: nat)"
proof -
  have len: "length (bins ix) \<le> 2 ^ 33" using shape_length_bins [OF assms] .
  have u: "unat (of_nat j :: 64 word) = j" if "j < length (bins ix)" for j
    using that len by (intro unat_of_nat_bin) simp
  have img: "of_nat ` {..<length (bins ix)} = {b. inBin ix b}"
  proof (intro set_eqI iffI)
    fix b :: "64 word" assume "b \<in> {b. inBin ix b}"
    then show "b \<in> of_nat ` {..<length (bins ix)}"
      by (intro image_eqI [of _ _ "unat b"]) (simp_all add: inBin_def)
  qed (auto simp: inBin_def u)
  have "inj_on (of_nat :: nat \<Rightarrow> 64 word) {..<length (bins ix)}"
    by (rule inj_onI) (metis u lessThan_iff)
  then show ?thesis unfolding img [symmetric] by (simp add: sum.reindex)
qed

lemma splitCost_positive_links:
  assumes "wf_index ix" "inBin ix b" "4 \<le> validCount ix b"
  shows "links ix \<noteq> []"
proof
  assume "links ix = []"
  then have "unat (linkAt ix b u) = 0" if "u < 3" for u
    using assms that by (auto simp: wf_index_def links_wf_def)
  from this [of 0] this [of 1] have "linkCount ix b = 0" by (simp add: linkCount_def unat_eq_0)
  then have "splitCost ix b = 0" using splitCost_links [OF assms(1,2)] by simp
  moreover have "1 \<le> validCount ix b div 4"
    using assms(3) by (simp add: less_eq_div_iff_mult_less_eq)
  ultimately show False by (simp add: splitCost_def)
qed

context slot_transfer
begin

lemma transferred_start:
  assumes "wf_index o0" "empty_new content hash ok n0 l0"
  shows "transferred content hash ok o0 n0 l0 0 \<lparr>xold = o0, xnew = n0, xnext = l0\<rparr>"
  using assms by (simp add: transferred_def empty_new_def)

lemma transferred_step:
  assumes wf0: "wf_index o0" and ew0: "entries_wf content hash ok o0"
    and grow: "length (bins o0) \<le> length (bins n0)" and en: "enough_links o0 l0"
    and av: "\<And>b i s. inBin o0 b \<Longrightarrow> view o0 b i = Some s \<Longrightarrow> avoids (transferSentinel b) s"
    and k: "k < length (bins o0)" and tr: "transferred content hash ok o0 n0 l0 k st"
  shows "\<exists>st'. transferBin moveSlot transferSentinel (of_nat k) st = Some st' \<and>
    transferred content hash ok o0 n0 l0 (Suc k) st'"
proof -
  let ?b = "of_nat k :: 64 word"
  have sh0: "shape o0" using wf0 by (simp add: wf_index_def)
  have ub: "unat ?b = k" using k shape_length_bins [OF sh0] by (intro unat_of_nat_bin) simp
  have t: "same_frame o0 (xold st)" "wf_index (xold st)"
    "\<And>b. inBin o0 b \<Longrightarrow> getBinState (hdr (xold st) b) =
        (if unat b < k then BinDoneTransfer else getBinState (hdr o0 b))"
    "\<And>b i. inBin o0 b \<Longrightarrow> k \<le> unat b \<Longrightarrow> view (xold st) b i = view o0 b i"
    "validCount (xold st) = validCount o0"
    "filling (xnew st) (xnext st)" "entries_wf content hash ok (xnew st)" "same_frame n0 (xnew st)"
    "\<And>x. absMap content hash (xnew st) x =
        (if unat (binOf o0 (hash x)) < k then absMap content hash o0 x else None)"
    "unat l0 \<le> unat (xnext st) + (\<Sum>j<k. splitCost o0 (of_nat j))"
    "unat (xnext st) + (\<Sum>c | inBin n0 c. linkCount (xnew st) c) = unat l0"
    "\<And>c. inBin n0 c \<Longrightarrow> k \<le> unat (c AND imask o0) \<Longrightarrow>
        validCount (xnew st) c = 0 \<and> linkCount (xnew st) c = 0"
    using tr unfolding transferred_def by blast+
  have so: "same_geometry o0 (xold st)" and sn: "same_geometry n0 (xnew st)"
    using t(1,8) by (auto intro: same_frame_geometry)
  have bo: "binOf (xold st) = binOf o0" and imo: "imask (xold st) = imask o0"
    using so by (simp_all add: same_geometry_def binOf_def fun_eq_iff)
  have inb: "inBin o0 ?b" using k ub by (simp add: inBin_def)
  have vb: "view (xold st) ?b i = view o0 ?b i" for i using t(4) [OF inb] ub by simp
  have seb: "slotEntry content (xold st) ?b i = slotEntry content o0 ?b i" for i
    by (simp add: slotEntry_def vb)
  have budget: "splitCost o0 ?b + 4 \<le> unat (xnext st)" if "4 \<le> validCount o0 ?b"
  proof -
    have "(\<Sum>j<Suc k. splitCost o0 (of_nat j)) \<le> (\<Sum>j<length (bins o0). splitCost o0 (of_nat j))"
      using k by (intro sum_mono2) auto
    also have "\<dots> \<le> length (links o0) * 4 div 3"
      using split_total [OF wf0] by (simp only: sum_bins [OF sh0])
    also have "\<dots> + 4 \<le> unat l0"
      using en splitCost_positive_links [OF wf0 inb that] by (simp add: enough_links_def)
    finally show ?thesis using t(10) by simp
  qed
  have rd: "ready content hash ok (xold st) (xnew st) (xnext st) ?b"
    unfolding ready_def vb seb bo t(5) splitCost_def [symmetric]
  proof (intro conjI allI impI ballI)
    show "wf_index (xold st)" "filling (xnew st) (xnext st)" "entries_wf content hash ok (xnew st)"
      by (fact t)+
    show "inBin (xold st) ?b" using inb same_geometry_inBin [OF so] by simp
    show "ok s" "\<exists>k v. content s = Some (k, v) \<and> binOf o0 (hash k) = ?b" if "view o0 ?b i = Some s" for i s
      using entries_wfD [OF ew0 inb that] by auto
    show "i = j" if "slotEntry content o0 ?b i = Some (x, v) \<and> slotEntry content o0 ?b j = Some (x, v')"
      for i j x v v' using entries_unique [OF ew0 inb] that by blast
    show "length (bins (xold st)) \<le> length (bins (xnew st))"
      using so sn grow by (simp add: same_geometry_def)
    show "absMap content hash (xnew st) x = None" if "binOf o0 (hash x) = ?b" for x
      using t(9) [of x] that ub by simp
    show "validCount (xnew st) c = 0" "linkCount (xnew st) c = 0"
      if "c \<in> shards (xold st) (xnew st) ?b" for c
      using t(12) [of c] that ub same_geometry_inBin [OF sn] by (auto simp: shards_def imo)
    show "splitCost o0 ?b + 4 \<le> unat (xnext st)" if "4 \<le> validCount o0 ?b" by (rule budget [OF that])
  qed
  have av': "avoids (transferSentinel ?b) s" if "view (xold st) ?b i = Some s" for i s
    using av [OF inb] that by (simp add: vb)
  have eta: "\<lparr>xold = xold st, xnew = xnew st, xnext = xnext st\<rparr> = st" by simp
  obtain st' where st': "transferBin moveSlot transferSentinel ?b st = Some st'"
    "same_frame (xold st) (xold st')" "wf_index (xold st')" "lmeta (xold st') = lmeta (xold st)"
    "\<And>b'. getBinState (hdr (xold st') b') =
       (if b' = ?b then BinDoneTransfer else getBinState (hdr (xold st) b'))"
    "\<And>b' i. inBin (xold st) b' \<Longrightarrow> b' \<noteq> ?b \<Longrightarrow> view (xold st') b' i = view (xold st) b' i"
    "validCount (xold st') = validCount (xold st)"
    "filling (xnew st') (xnext st')" "entries_wf content hash ok (xnew st')"
    "same_frame (xnew st) (xnew st')"
    "\<And>x. absMap content hash (xnew st') x =
       (if binOf (xold st) (hash x) = ?b then absMap content hash (xold st) x
        else absMap content hash (xnew st) x)"
    "unat (xnext st) \<le> unat (xnext st') + (validCount (xold st) ?b div 4 + validCount (xold st) ?b div 8)"
    "unat (xnext st') + (\<Sum>c\<in>shards (xold st) (xnew st) ?b. linkCount (xnew st') c) = unat (xnext st)"
    "\<And>c. c \<notin> shards (xold st) (xnew st) ?b \<Longrightarrow> validCount (xnew st') c = validCount (xnew st) c \<and>
       linkCount (xnew st') c = linkCount (xnew st) c"
    by (rule transferBin_spec [OF rd, where transferSentinel = transferSentinel, unfolded eta],
        rule av', assumption) (rule that)
  have isb: "b' = ?b \<longleftrightarrow> unat b' = k" if "inBin o0 b'" for b'
    using ub by (metis of_nat_unat ucast_id)
  have ab: "absMap content hash (xold st) x = absMap content hash o0 x" if "binOf o0 (hash x) = ?b" for x
  proof -
    have "slotEntry content (xold st) ?b = slotEntry content o0 ?b" by (rule ext) (rule seb)
    then show ?thesis unfolding absMap_def bo that binEntries_def by simp
  qed
  have "transferred content hash ok o0 n0 l0 (Suc k) st'"
    unfolding transferred_def
  proof (intro conjI allI impI)
    show "same_frame o0 (xold st')" using t(1) st'(2) by (rule same_frame_trans)
    show "same_frame n0 (xnew st')" using t(8) st'(10) by (rule same_frame_trans)
    show "wf_index (xold st')" "filling (xnew st') (xnext st')" "entries_wf content hash ok (xnew st')"
      by (fact st')+
    show "validCount (xold st') = validCount o0" using st'(7) t(5) by simp
    show "getBinState (hdr (xold st') b) =
        (if unat b < Suc k then BinDoneTransfer else getBinState (hdr o0 b))" if "inBin o0 b" for b
      using t(3) [OF that] isb [OF that] by (auto simp: st'(5) less_Suc_eq)
    show "view (xold st') b i = view o0 b i" if "inBin o0 b \<and> Suc k \<le> unat b" for b i
      using that t(4) [of b i] st'(6) [of b i] isb [of b] same_geometry_inBin [OF so, of b] by simp
    show "absMap content hash (xnew st') x =
        (if unat (binOf o0 (hash x)) < Suc k then absMap content hash o0 x else None)" for x
      using isb [OF binOf_in [OF sh0], of "hash x"] ab [of x] t(9) [of x]
      by (auto simp: st'(11) bo less_Suc_eq)
    have "unat (xnext st) \<le> unat (xnext st') + splitCost o0 ?b"
      using st'(12) by (simp add: splitCost_def t(5))
    then show "unat l0 \<le> unat (xnext st') + (\<Sum>j<Suc k. splitCost o0 (of_nat j))"
      using t(10) by simp
    let ?D = "shards (xold st) (xnew st) ?b" and ?A = "{c. inBin n0 c}"
    have D: "?D \<subseteq> ?A" using same_geometry_inBin [OF sn] by (auto simp: shards_def)
    have split: "sum f ?A = sum f (?A - ?D) + sum f ?D" for f :: "64 word \<Rightarrow> nat"
      using D by (intro sum.subset_diff) (simp_all add: finite_subset [OF subset_UNIV])
    have rest: "sum (linkCount (xnew st')) (?A - ?D) = sum (linkCount (xnew st)) (?A - ?D)"
      by (rule sum.cong) (use st'(14) in auto)
    have none: "sum (linkCount (xnew st)) ?D = 0"
      using t(12) D ub by (intro sum.neutral) (auto simp: shards_def imo)
    show "unat (xnext st') + (\<Sum>c | inBin n0 c. linkCount (xnew st') c) = unat l0"
      using t(11) st'(13) unfolding split [of "linkCount (xnew st')"] split [of "linkCount (xnew st)"] rest none
      by linarith
    fix c assume c: "inBin n0 c \<and> Suc k \<le> unat (c AND imask o0)"
    then have "c \<notin> shards (xold st) (xnew st) ?b" using ub by (auto simp: shards_def imo)
    from st'(14) [OF this] show "validCount (xnew st') c = 0" "linkCount (xnew st') c = 0"
      using t(12) [of c] c by auto
  qed
  with st'(1) show ?thesis by blast
qed

lemma transferred_upto:
  assumes "wf_index o0" "entries_wf content hash ok o0" "length (bins o0) \<le> length (bins n0)"
    "enough_links o0 l0"
    "\<And>b i s. inBin o0 b \<Longrightarrow> view o0 b i = Some s \<Longrightarrow> avoids (transferSentinel b) s"
    and "transferred content hash ok o0 n0 l0 k st" "k + n \<le> length (bins o0)"
  shows "\<exists>st'. forEach (transferBin moveSlot transferSentinel) (map of_nat [k..<k + n]) st = Some st' \<and>
    transferred content hash ok o0 n0 l0 (k + n) st'"
  using assms(6,7)
proof (induction n arbitrary: k st)
  case 0
  then show ?case by simp
next
  case (Suc n)
  have "k < length (bins o0)" using Suc.prems(2) by simp
  from transferred_step [OF assms(1-4) _ this Suc.prems(1), of transferSentinel] assms(5)
  obtain st1 where st1: "transferBin moveSlot transferSentinel (of_nat k) st = Some st1"
    "transferred content hash ok o0 n0 l0 (Suc k) st1" by blast
  have "[k..<k + Suc n] = k # [Suc k..<Suc k + n]" by (simp add: upt_rec)
  moreover obtain st' where
    "forEach (transferBin moveSlot transferSentinel) (map of_nat [Suc k..<Suc k + n]) st1 = Some st'"
    "transferred content hash ok o0 n0 l0 (Suc k + n) st'"
    using Suc.IH [OF st1(2)] Suc.prems(2) by auto
  ultimately show ?case using st1(1) by simp
qed

end

section \<open>Fields that no slot depends on\<close>

definition same_core :: "'v index \<Rightarrow> 'v index \<Rightarrow> bool" where
  "same_core ix ix' \<longleftrightarrow> imask ix' = imask ix \<and> bins ix' = bins ix \<and> links ix' = links ix"

lemma same_core_simps [simp]:
  "same_core ix (ix\<lparr>indexNext := n\<rparr>)" "same_core ix (ix\<lparr>linkCapacity := x\<rparr>)"
  by (simp_all add: same_core_def)

lemma same_core_reads:
  assumes "same_core ix ix'"
  shows "hdr ix' = hdr ix" "linkAt ix' = linkAt ix" "inBin ix' = inBin ix" "binOf ix' = binOf ix"
    "shape ix' = shape ix" "slotRef ix' = slotRef ix" "loadSlot ix' = loadSlot ix"
proof -
  show *: "hdr ix' = hdr ix" "linkAt ix' = linkAt ix" "inBin ix' = inBin ix" "binOf ix' = binOf ix"
    "shape ix' = shape ix"
    using assms by (auto simp: same_core_def fun_eq_iff hdr_def linkAt_def lmeta_def inBin_def
        binOf_def shape_def)
  then show "slotRef ix' = slotRef ix" by (simp add: fun_eq_iff slotRef_alt)
  show "loadSlot ix' = loadSlot ix"
  proof
    fix r show "loadSlot ix' r = loadSlot ix r"
      using assms by (cases r) (simp_all add: same_core_def getBinByIndex_def getLinkBucket_def Let_def)
  qed
qed

lemma same_core_abs:
  assumes "same_core ix ix'"
  shows "view ix' = view ix" "validCount ix' = validCount ix" "linkCount ix' = linkCount ix"
    "wf_index ix' = wf_index ix" "filling ix' l = filling ix l"
    "absMap content hash ix' = absMap content hash ix"
    "entries_wf content hash ok ix' = entries_wf content hash ok ix"
proof -
  note r = same_core_reads [OF assms]
  show v: "view ix' = view ix"
    by (simp add: fun_eq_iff view_def isValid_def slotIn_def r)
  show c: "validCount ix' = validCount ix" "linkCount ix' = linkCount ix"
    by (simp_all add: fun_eq_iff validCount_def linkCount_def isValid_def r)
  have ln: "length (links ix') = length (links ix)" using assms by (simp add: same_core_def)
  show w: "wf_index ix' = wf_index ix"
    by (simp add: wf_index_def links_wf_def states_wf_def isInvalid_def r ln)
  show "filling ix' l = filling ix l" by (simp add: filling_def w r c ln)
  have se: "slotEntry content ix' = slotEntry content ix" by (simp add: fun_eq_iff slotEntry_def v)
  show "absMap content hash ix' = absMap content hash ix"
    by (simp add: fun_eq_iff absMap_def binEntries_def se r)
  show "entries_wf content hash ok ix' = entries_wf content hash ok ix"
    by (simp add: entries_wf_def se v r)
qed

section \<open>Chunks\<close>

definition chunkCount :: "nat \<Rightarrow> nat" where
  "chunkCount B = (B + 1023) div 1024"

lemma unat_small: "x \<le> 2 ^ 33 \<Longrightarrow> unat (of_nat x :: 64 word) = x"
  by (simp add: unsigned_of_nat take_bit_eq_mod)

lemma chunk_words:
  assumes "B \<le> 2 ^ 32" "j * 1024 < B"
  shows "unat (of_nat j * CHUNK_SIZE :: 64 word) = j * 1024"
    and "unat (let e = of_nat j * CHUNK_SIZE + CHUNK_SIZE :: 64 word
         in if e > of_nat B then of_nat B else e) = min (j * 1024 + 1024) B"
proof -
  have b: "j * 1024 \<le> 2 ^ 33" "j * 1024 + 1024 \<le> 2 ^ 33" "B \<le> 2 ^ 33" using assms by simp_all
  note u = unat_small [OF b(1)] unat_small [OF b(2)] unat_small [OF b(3)]
  have *: "of_nat j * CHUNK_SIZE = (of_nat (j * 1024) :: 64 word)"
    "of_nat j * CHUNK_SIZE + CHUNK_SIZE = (of_nat (j * 1024 + 1024) :: 64 word)" by simp_all
  show "unat (of_nat j * CHUNK_SIZE :: 64 word) = j * 1024" unfolding *(1) by (rule u(1))
  show "unat (let e = of_nat j * CHUNK_SIZE + CHUNK_SIZE :: 64 word
      in if e > of_nat B then of_nat B else e) = min (j * 1024 + 1024) B"
    unfolding *(2) Let_def word_less_nat_alt if_distrib [of unat] u min_def by auto
qed

lemma chunkCount_words:
  assumes "B \<le> 2 ^ 32"
  shows "(of_nat B + CHUNK_SIZE - 1) div CHUNK_SIZE = (of_nat (chunkCount B) :: 64 word)"
proof -
  have b: "B + 1023 \<le> 2 ^ 33" "chunkCount B \<le> 2 ^ 33"
    using assms div_le_mono [of "B + 1023" "2 ^ 33" 1024] by (simp_all add: chunkCount_def)
  have *: "of_nat B + CHUNK_SIZE - 1 = (of_nat (B + 1023) :: 64 word)" by simp
  have "unat (of_nat (B + 1023) div CHUNK_SIZE :: 64 word) = (B + 1023) div 1024"
    unfolding unat_div unat_small [OF b(1)] by simp
  then show ?thesis
    unfolding * using unat_small [OF b(2)] chunkCount_def [of B]
    by (metis word_unat_eq_iff)
qed

end
