(* ===== verification/ResizeTrigger.thy ===== *)
theory ResizeTrigger
  imports ResizeRun
begin

text \<open>
  \<open>helpWithChunks\<close> and \<open>triggerResize\<close> from start to end, in the locale \<open>slot_transfer\<close>: the
  chunks are claimed in order, the last one publishes the new index, and the map then holds
  what it held before.
\<close>

section \<open>The loop over the chunks\<close>

text \<open>The map when \<open>j\<close> chunks are done and the transfer state is \<open>st\<close>.\<close>

definition atChunk ::
  "('v, 'c) Map \<Rightarrow> nat \<Rightarrow> nat \<Rightarrow> nat \<Rightarrow> resizeContext \<Rightarrow> nat \<Rightarrow> 'v xfer \<Rightarrow> ('v, 'c) Map" where
  "atChunk m oi ni c ctx j st =
     putContext (putIndex (putIndex m oi (xold st)) ni (xnew st)) c
       (ctx\<lparr>chunkClaimed := of_nat j, chunksDone := of_nat j, linkNextResize := xnext st\<rparr>)"

definition published ::
  "('v, 'c) Map \<Rightarrow> nat \<Rightarrow> nat \<Rightarrow> nat \<Rightarrow> resizeContext \<Rightarrow> nat \<Rightarrow> 'v xfer \<Rightarrow> ('v, 'c) Map" where
  "published m oi ni c ctx j st =
     (putContext (putIndex (putIndex m oi (xold st)) ni ((xnew st)\<lparr>linkCapacity := xnext st - 1\<rparr>)) c
       (ctx\<lparr>chunkClaimed := of_nat j, chunksDone := of_nat j, linkNextResize := xnext st,
            ctxActive := ResizeInactive, oldIndex := None, newIndex' := None\<rparr>))
     \<lparr>active := ni, resizeCtx := None\<rparr>"

definition resize_ids :: "('v, 'c) Map \<Rightarrow> nat \<Rightarrow> nat \<Rightarrow> nat \<Rightarrow> bool" where
  "resize_ids m oi ni c \<longleftrightarrow>
     oi < length (indexes m) \<and> ni < length (indexes m) \<and> oi \<noteq> ni \<and> c < length (contexts m)"

lemma list_update_twice:
  "i \<noteq> j \<Longrightarrow> ((xs[i := a])[j := b])[i := a', j := b'] = xs[i := a', j := b']"
  by (metis list_update_overwrite list_update_swap)

lemma atChunk_reads:
  assumes "resize_ids m oi ni c"
  shows "nth_opt (contexts (atChunk m oi ni c ctx j st)) c =
      Some (ctx\<lparr>chunkClaimed := of_nat j, chunksDone := of_nat j, linkNextResize := xnext st\<rparr>)"
    "indexAt (atChunk m oi ni c ctx j st) oi = Some (xold st)"
    "indexAt (atChunk m oi ni c ctx j st) ni = Some (xnew st)"
  using assms
  by (simp_all add: atChunk_def putContext_def putIndex_def indexAt_def nth_opt_def resize_ids_def)

lemma atChunk_again:
  assumes "resize_ids m oi ni c"
  shows "putContext (putIndex (putIndex (putContext (atChunk m oi ni c ctx j st) c y) oi (xold st')) ni
      (xnew st')) c (ctx\<lparr>chunkClaimed := of_nat j', chunksDone := of_nat j', linkNextResize := xnext st'\<rparr>) =
     atChunk m oi ni c ctx j' st'"
  using assms
  by (simp add: atChunk_def putContext_def putIndex_def resize_ids_def list_update_twice)

lemma putContext_twice [simp]: "putContext (putContext m c x) c y = putContext m c y"
  by (simp add: putContext_def)

lemma indexAt_putContext [simp]: "indexAt (putContext m c x) i = indexAt m i"
  by (simp add: putContext_def indexAt_def)

lemma nth_opt_putContext [simp]:
  "c < length (contexts m) \<Longrightarrow> nth_opt (contexts (putContext m c x)) c = Some x"
  by (simp add: putContext_def nth_opt_def)

lemma length_contexts [simp]:
  "length (contexts (putContext m c x)) = length (contexts m)"
  "length (contexts (atChunk m oi ni c ctx j st)) = length (contexts m)"
  by (simp_all add: putContext_def atChunk_def)

lemma transferChunk_run:
  assumes ids: "resize_ids m oi ni c"
    and ctx: "oldIndex ctx = Some oi" "newIndex' ctx = Some ni" "numBins ctx = of_nat B"
    and B: "B \<le> 2 ^ 32" "j * 1024 < B"
    and run: "forEach (transferBin moveSlot ts) (map of_nat [j * 1024..<min (j * 1024 + 1024) B]) st = Some st'"
  shows "transferChunk moveSlot ts
      (putContext (atChunk m oi ni c ctx j st) c
         (ctx\<lparr>chunkClaimed := of_nat (Suc j), chunksDone := of_nat j, linkNextResize := xnext st\<rparr>)) c (of_nat j) =
    Some (putContext (putIndex (putIndex (atChunk m oi ni c ctx j st) oi (xold st')) ni (xnew st')) c
       (ctx\<lparr>chunkClaimed := of_nat (Suc j), chunksDone := of_nat j, linkNextResize := xnext st'\<rparr>))"
proof -
  have c: "c < length (contexts (atChunk m oi ni c ctx j st))" using ids by (simp add: resize_ids_def)
  have eta: "\<lparr>xold = xold st, xnew = xnew st, xnext = xnext st\<rparr> = st" by simp
  define y where "y = ctx\<lparr>chunkClaimed := of_nat (Suc j), chunksDone := of_nat j, linkNextResize := xnext st\<rparr>"
  have y: "oldIndex y = Some oi" "newIndex' y = Some ni" "numBins y = of_nat B" "linkNextResize y = xnext st"
    "y\<lparr>linkNextResize := xnext st'\<rparr> =
      ctx\<lparr>chunkClaimed := of_nat (Suc j), chunksDone := of_nat j, linkNextResize := xnext st'\<rparr>"
    by (simp_all add: y_def ctx)
  show ?thesis
    unfolding y_def [symmetric] transferChunk_def nth_opt_putContext [OF c] indexAt_putContext
      Option.bind.simps y atChunk_reads [OF ids] Let_def chunk_words(1) [OF B]
      chunk_words(2) [OF B, unfolded Let_def] eta run
    by (simp add: putContext_def putIndex_def y)
qed

lemma chunkCount_less: "j < chunkCount B \<longleftrightarrow> j * 1024 < B"
proof -
  have "j < chunkCount B \<longleftrightarrow> Suc j * 1024 \<le> B + 1023"
    unfolding chunkCount_def Suc_le_eq [symmetric] by (rule less_eq_div_iff_mult_less_eq) simp
  then show ?thesis by auto
qed

lemma chunkCount_le: "B \<le> 2 ^ 32 \<Longrightarrow> chunkCount B \<le> 2 ^ 33"
  unfolding chunkCount_def by (rule order_trans [OF div_le_dividend]) simp

lemma of_nat_word_iff:
  assumes "x \<le> 2 ^ 33" "y \<le> 2 ^ 33"
  shows "(of_nat x :: 64 word) = of_nat y \<longleftrightarrow> x = y" "(of_nat x :: 64 word) \<ge> of_nat y \<longleftrightarrow> y \<le> x"
proof -
  show "(of_nat x :: 64 word) = of_nat y \<longleftrightarrow> x = y" by (metis assms unat_small)
  show "(of_nat x :: 64 word) \<ge> of_nat y \<longleftrightarrow> y \<le> x"
    by (simp only: word_le_nat_alt unat_small [OF assms(1)] unat_small [OF assms(2)])
qed

lemma helpWithChunks_step:
  assumes ids: "resize_ids m oi ni c"
    and ctx: "oldIndex ctx = Some oi" "newIndex' ctx = Some ni" "numBins ctx = of_nat B"
      "numChunks ctx = of_nat (chunkCount B)"
    and B: "B \<le> 2 ^ 32" and j: "j < chunkCount B"
    and run: "forEach (transferBin moveSlot ts) (map of_nat [j * 1024..<min (j * 1024 + 1024) B]) st = Some st'"
  shows "helpWithChunks (Suc fuel) moveSlot ts (atChunk m oi ni c ctx j st) c =
    (if Suc j = chunkCount B then Some (Returned (), published m oi ni c ctx (Suc j) st')
     else helpWithChunks fuel moveSlot ts (atChunk m oi ni c ctx (Suc j) st') c)"
proof -
  have c: "c < length (contexts m)" using ids by (simp add: resize_ids_def)
  have J: "j * 1024 < B" using j by (simp add: chunkCount_less)
  have le: "j \<le> 2 ^ 33" "Suc j \<le> 2 ^ 33" "chunkCount B \<le> 2 ^ 33"
    using chunkCount_le [OF B] j by simp_all
  note tc = transferChunk_run [OF ids ctx(1-3) B J run]
  define x where "x = ctx\<lparr>chunkClaimed := of_nat j, chunksDone := of_nat j, linkNextResize := xnext st\<rparr>"
  define z where "z = ctx\<lparr>chunkClaimed := of_nat (Suc j), chunksDone := of_nat j, linkNextResize := xnext st'\<rparr>"
  have x: "chunkClaimed x = of_nat j" "numChunks x = of_nat (chunkCount B)"
    "x\<lparr>chunkClaimed := of_nat (Suc j)\<rparr> =
      ctx\<lparr>chunkClaimed := of_nat (Suc j), chunksDone := of_nat j, linkNextResize := xnext st\<rparr>"
    by (simp_all add: x_def ctx)
  have z: "chunksDone z = of_nat j" "numChunks (z\<lparr>chunksDone := w\<rparr>) = of_nat (chunkCount B)"
    "newIndex' (z\<lparr>chunksDone := w\<rparr>) = Some ni" "linkNextResize (z\<lparr>chunksDone := w\<rparr>) = xnext st'"
    "z\<lparr>chunksDone := of_nat (Suc j)\<rparr> =
      ctx\<lparr>chunkClaimed := of_nat (Suc j), chunksDone := of_nat (Suc j), linkNextResize := xnext st'\<rparr>" for w
    by (simp_all add: z_def ctx)
  let ?a = "atChunk m oi ni c ctx j st"
  let ?p = "putIndex (putIndex ?a oi (xold st')) ni (xnew st')"
  have cp: "c < length (contexts ?p)" using c by simp
  have w: "of_nat j + 1 = (of_nat (Suc j) :: 64 word)" "of_nat (Suc j) - 1 = (of_nat j :: 64 word)" by simp_all
  have ge: "((of_nat j :: 64 word) \<ge> of_nat (chunkCount B)) = False"
    using of_nat_word_iff(2) [OF le(1,3)] j by simp
  have eq: "((of_nat (Suc j) :: 64 word) = of_nat (chunkCount B)) = (Suc j = chunkCount B)"
    by (rule of_nat_word_iff(1) [OF le(2,3)])
  have rn: "indexAt ?p ni = Some (xnew st')"
    using ids by (simp add: putIndex_def indexAt_def nth_opt_def resize_ids_def atChunk_def putContext_def)
  have nx: "putContext ?p c (z\<lparr>chunksDone := of_nat (Suc j)\<rparr>) = atChunk m oi ni c ctx (Suc j) st'"
    using atChunk_again [OF ids, of ctx j st "ctx" st' "Suc j"] unfolding z(5)
    by (simp add: putContext_def putIndex_def)
  note head = helpWithChunks.simps(2) Let_def atChunk_reads(1) [OF ids] x_def [symmetric]
    Option.bind.simps x(1,2) w ge if_False x(3) tc z_def [symmetric] nth_opt_putContext [OF cp]
    z(1) putContext_twice z(2) eq
  have last: "putContext ((putIndex (atChunk m oi ni c ctx (Suc j) st') ni
        ((xnew st')\<lparr>linkCapacity := xnext st' - 1\<rparr>))\<lparr>active := ni\<rparr>) c
        (z\<lparr>chunksDone := of_nat (Suc j), ctxActive := ResizeInactive, oldIndex := None,
           newIndex' := None\<rparr>)\<lparr>resizeCtx := None\<rparr> = published m oi ni c ctx (Suc j) st'"
    unfolding z(5) by (cases m) (simp add: published_def atChunk_def putContext_def putIndex_def)
  show ?thesis
    unfolding head z(3,4) Option.bind.simps nx atChunk_reads(3) [OF ids] last ..
qed

section \<open>The state at the end\<close>

lemma published_reads:
  assumes "resize_ids m oi ni c"
  shows "active (published m oi ni c ctx j st) = ni" "resizeCtx (published m oi ni c ctx j st) = None"
    "hashConfig (published m oi ni c ctx j st) = hashConfig m"
    "length (indexes (published m oi ni c ctx j st)) = length (indexes m)"
    "current (published m oi ni c ctx j st) = (xnew st)\<lparr>linkCapacity := xnext st - 1\<rparr>"
    "indexes (published m oi ni c ctx j st) ! oi = xold st"
    "i \<noteq> oi \<Longrightarrow> i \<noteq> ni \<Longrightarrow> indexes (published m oi ni c ctx j st) ! i = indexes m ! i"
    "indexes (published m oi ni c ctx j st) =
      (indexes m)[oi := xold st, ni := (xnew st)\<lparr>linkCapacity := xnext st - 1\<rparr>]"
  using assms
  by (simp_all add: published_def putContext_def putIndex_def current_def resize_ids_def)

section \<open>The sizes\<close>

lemma exp_word: "k \<le> 33 \<Longrightarrow> (of_nat (2 ^ k) :: 64 word) = 2 ^ k" by simp

lemma growth_cases:
  assumes "k \<le> 32"
  obtains g where "growthFor (of_nat (2 ^ k)) = 2 ^ g" "1 \<le> g" "k + g \<le> 33" "g = 3 \<or> 12 \<le> k"
proof -
  have u: "unat (of_nat (2 ^ k) :: 64 word) = 2 ^ k"
    by (rule unat_small) (use assms in \<open>intro power_increasing, simp_all\<close>)
  have a: "of_nat (2 ^ k) < (4 * 1024 :: 64 word) \<longleftrightarrow> k < 12"
    "of_nat (2 ^ k) < (4 * 1024 * 1024 :: 64 word) \<longleftrightarrow> k < 22"
    using power_strict_increasing_iff [of "2::nat" k 12] power_strict_increasing_iff [of "2::nat" k 22]
    unfolding word_less_nat_alt u by simp_all
  then have b: "growthFor (of_nat (2 ^ k)) = (if k < 12 then 8 else if k < 22 then 4 else 2)"
    unfolding growthFor_def a by simp
  show ?thesis
  proof (cases "k < 12")
    case True
    then show ?thesis using b by (intro that [of 3]) simp_all
  next
    case False
    then show ?thesis using b assms
      by (cases "k < 22") (rule that [of 2], simp_all, rule that [of 1], simp_all)
  qed
qed

lemma budget_arith:
  assumes "1 \<le> L" "8 * L \<le> N \<or> 512 \<le> L \<and> 2 * L \<le> (N::nat)"
  shows "L * 4 div 3 + 4 \<le> N"
proof -
  have "3 * (L * 4 div 3) \<le> L * 4" by (rule times_div_less_eq_dividend)
  moreover define q where "q = L * 4 div 3"
  ultimately show ?thesis unfolding q_def [symmetric] using assms by linarith
qed

lemma new_links:
  assumes "1 \<le> g" "g = 3 \<or> 12 \<le> (k::nat)"
  shows "1 \<le> (2::nat) ^ (k + g) div 8"
    and "1 \<le> (2::nat) ^ k div 8 \<Longrightarrow> 2 ^ k div 8 * 4 div 3 + 4 \<le> (2::nat) ^ (k + g) div 8"
proof -
  have "1 \<le> (2::nat) ^ (k + g) div 8 \<and>
      (8 * (2 ^ k div 8) \<le> (2::nat) ^ (k + g) div 8 \<or>
       512 \<le> (2::nat) ^ k div 8 \<and> 2 * (2 ^ k div 8) \<le> (2::nat) ^ (k + g) div 8)"
  proof (cases "g = 3")
    case True
    then have "(2::nat) ^ (k + g) div 8 = 2 ^ k" by (simp add: power_add)
    then show ?thesis by simp
  next
    case False
    then have "12 \<le> k" using assms by simp
    then obtain j where j: "k = j + 12" by (metis le_add_diff_inverse2)
    obtain h where h: "g = Suc h" using assms(1) by (cases g) simp_all
    have L: "(2::nat) ^ k div 8 = 512 * 2 ^ j" by (simp add: j power_add)
    have N: "(2::nat) ^ (k + g) div 8 = 1024 * (2 ^ j * 2 ^ h)" by (simp add: j h power_add)
    have "(2::nat) ^ j \<le> 2 ^ j * 2 ^ h" "(1::nat) \<le> 2 ^ j" by simp_all
    then show ?thesis unfolding L N by linarith
  qed
  then show "1 \<le> (2::nat) ^ (k + g) div 8"
    and "1 \<le> (2::nat) ^ k div 8 \<Longrightarrow> 2 ^ k div 8 * 4 div 3 + 4 \<le> (2::nat) ^ (k + g) div 8"
    using budget_arith by blast+
qed

lemma fresh_empty_new:
  assumes "n \<le> 33"
  shows "empty_new content hash ok (newIndex zv (2 ^ n))
    (of_nat (length (links (newIndex zv (2 ^ n)))))"
    and "unat (of_nat (length (links (newIndex zv (2 ^ n)))) :: 32 word) = 2 ^ n div 8"
proof -
  let ?ix = "newIndex zv (2 ^ n)"
  have l: "length (links ?ix) = 2 ^ n div 8" using assms by (simp add: newIndex_def fresh_sizes)
  have "(2::nat) ^ n \<le> 2 ^ 33" using assms by (rule power_increasing) simp
  then have "(2::nat) ^ n div 8 \<le> 2 ^ 33 div 8" by (rule div_le_mono)
  then have "(2::nat) ^ n div 8 < 2 ^ 32" by simp
  then show u: "unat (of_nat (length (links ?ix)) :: 32 word) = 2 ^ n div 8"
    unfolding l by (simp add: unsigned_of_nat take_bit_eq_mod)
  show "empty_new content hash ok ?ix (of_nat (length (links ?ix)))"
    using newIndex_wf [OF assms, of zv] newIndex_settled(2) [OF assms, where zv = zv and content = content and hash = hash and ok = ok]
      newIndex_settled(3) [OF assms, where zv = zv and content = content and hash = hash]
      newIndex_invalid [of zv "2 ^ n"] newIndex_reads(3) [of zv "2 ^ n"] u l
    by (simp add: empty_new_def filling_def)
qed

lemma atChunk_start:
  assumes "resize_ids m oi ni c" "indexes m ! oi = xold st" "indexes m ! ni = xnew st"
    "contexts m ! c = ctx" "chunkClaimed ctx = 0" "chunksDone ctx = 0" "linkNextResize ctx = xnext st"
  shows "atChunk m oi ni c ctx 0 st = m"
proof -
  have "ctx\<lparr>chunkClaimed := of_nat 0, chunksDone := of_nat 0, linkNextResize := xnext st\<rparr> = ctx"
    using assms(5-7) by (cases ctx) simp
  moreover have "(indexes m)[oi := xold st, ni := xnew st] = indexes m"
    unfolding assms(2,3) [symmetric] by simp
  moreover have "(contexts m)[c := ctx] = contexts m" unfolding assms(4) [symmetric] by simp
  ultimately show ?thesis by (simp add: atChunk_def putContext_def putIndex_def)
qed

section \<open>The whole resize\<close>

text \<open>The maps a resize starts from: between operations, or with a full bin and spent links.\<close>

definition resizable :: "('v, 'c) Map \<Rightarrow> bool" where
  "resizable m \<longleftrightarrow> length (indexes m) = Suc (active m) \<and> resizeCtx m = None \<and>
     wf_index (current m) \<and> (\<forall>i < active m. retired (indexes m ! i) i) \<and> ascending (indexes m)"

context slot_transfer
begin

lemma helpWithChunks_run:
  assumes ids: "resize_ids m oi ni c"
    and ctx: "oldIndex ctx = Some oi" "newIndex' ctx = Some ni" "numBins ctx = of_nat (length (bins o0))"
      "numChunks ctx = of_nat (chunkCount (length (bins o0)))"
    and B: "length (bins o0) \<le> 2 ^ 32"
    and o0: "wf_index o0" "entries_wf content hash ok o0" "length (bins o0) \<le> length (bins n0)"
      "enough_links o0 l0"
      "\<forall>b i s. inBin o0 b \<and> view o0 b i = Some s \<longrightarrow> avoids (transferSentinel b) s"
    and tr: "transferred content hash ok o0 n0 l0 (j * 1024) st"
    and j: "j < chunkCount (length (bins o0))" "chunkCount (length (bins o0)) - j \<le> fuel"
  shows "\<exists>st'. helpWithChunks fuel moveSlot transferSentinel (atChunk m oi ni c ctx j st) c =
      Some (Returned (), published m oi ni c ctx (chunkCount (length (bins o0))) st') \<and>
    transferred content hash ok o0 n0 l0 (length (bins o0)) st'"
  using tr j
proof (induction fuel arbitrary: j st)
  case 0
  then show ?case by simp
next
  case (Suc fuel)
  let ?B = "length (bins o0)"
  have lt: "j * 1024 < ?B" using Suc.prems(2) by (simp add: chunkCount_less)
  define e where "e = min (j * 1024 + 1024) ?B"
  then have e: "j * 1024 + (e - j * 1024) = e" "e \<le> ?B" using lt by simp_all
  obtain st1 where st1:
    "forEach (transferBin moveSlot transferSentinel) (map of_nat [j * 1024..<e]) st = Some st1"
    "transferred content hash ok o0 n0 l0 e st1"
    using transferred_upto [where transferSentinel = transferSentinel and n = "e - j * 1024", OF o0(1-4) _ Suc.prems(1)]
      o0(5) e by auto
  note step = helpWithChunks_step [OF ids ctx B Suc.prems(2) st1(1) [unfolded e_def]]
  show ?case
  proof (cases "Suc j = chunkCount ?B")
    case True
    then have "\<not> Suc j < chunkCount ?B" by simp
    then have "e = ?B" unfolding chunkCount_less by (simp add: e_def)
    with True step st1(2) show ?thesis by auto
  next
    case False
    then have sj: "Suc j < chunkCount ?B" using Suc.prems(2) by simp
    then have "e = Suc j * 1024" unfolding chunkCount_less by (simp add: e_def)
    then have t1: "transferred content hash ok o0 n0 l0 (Suc j * 1024) st1" using st1(2) by simp
    have "chunkCount ?B - Suc j \<le> fuel" using Suc.prems(3) by simp
    from Suc.IH [OF t1 sj this] False step show ?thesis by auto
  qed
qed

lemma transferred_end:
  assumes wf0: "wf_index o0" and en: "enough_links o0 l0" "1 \<le> unat l0"
    and tr: "transferred content hash ok o0 n0 l0 (length (bins o0)) st"
    and n0: "linkNext n0 = 0" "indexNext n0 = None"
  shows "settled ((xnew st)\<lparr>linkCapacity := xnext st - 1\<rparr>)"
    "indexNext ((xnew st)\<lparr>linkCapacity := xnext st - 1\<rparr>) = None"
    "entries_wf content hash ok ((xnew st)\<lparr>linkCapacity := xnext st - 1\<rparr>)"
    "absMap content hash ((xnew st)\<lparr>linkCapacity := xnext st - 1\<rparr>) = absMap content hash o0"
    "length (bins (xnew st)) = length (bins n0)"
    "indexNext o0 = Some (Suc i) \<Longrightarrow> retired (xold st) i"
    "length (bins (xold st)) = length (bins o0)"
    "linksExact ((xnew st)\<lparr>linkCapacity := xnext st - 1\<rparr>) = (length (links n0) = unat l0)"
proof -
  let ?n = "(xnew st)\<lparr>linkCapacity := xnext st - 1\<rparr>"
  have sh0: "shape o0" using wf0 by (simp add: wf_index_def)
  have t: "same_frame o0 (xold st)" "wf_index (xold st)"
    "\<And>b. inBin o0 b \<Longrightarrow> getBinState (hdr (xold st) b) = BinDoneTransfer"
    "filling (xnew st) (xnext st)" "entries_wf content hash ok (xnew st)" "same_frame n0 (xnew st)"
    "\<And>x. absMap content hash (xnew st) x = absMap content hash o0 x"
    "unat l0 \<le> unat (xnext st) + (\<Sum>j<length (bins o0). splitCost o0 (of_nat j))"
    "unat (xnext st) + (\<Sum>c | inBin n0 c. linkCount (xnew st) c) = unat l0"
    using tr binOf_in [OF sh0] unfolding transferred_def inBin_def by simp_all
  have "(\<Sum>j<length (bins o0). splitCost o0 (of_nat j)) \<le> length (links o0) * 4 div 3"
    using split_total [OF wf0] by (simp only: sum_bins [OF sh0])
  moreover have "length (links o0) * 4 div 3 < unat l0"
    using en by (cases "links o0 = []") (simp_all add: enough_links_def)
  ultimately have "0 < unat (xnext st)" using t(8) by linarith
  then have "xnext st \<noteq> 0" by (simp add: unat_gt_0)
  then have cap: "unat (xnext st - 1) = unat (xnext st) - 1" by (simp add: unat_minus_one)
  note core = same_core_abs [OF same_core_simps(2)] same_core_reads [OF same_core_simps(2)]
  have fl: "wf_index (xnew st)" "unat (xnext st) \<le> length (links (xnew st))"
    "\<And>b u. inBin (xnew st) b \<Longrightarrow> u < 3 \<Longrightarrow> linkAt (xnew st) b u \<noteq> 0 \<Longrightarrow>
       unat (xnext st) \<le> unat (linkAt (xnew st) b u)"
    "\<And>b. inBin (xnew st) b \<Longrightarrow> getBinState (hdr (xnew st) b) = BinNoTransfer"
    "\<And>b i. inBin (xnew st) b \<Longrightarrow> i < 15 \<Longrightarrow> getSlotState (hdr (xnew st) b) (int i) \<noteq> SlotTrying"
    using t(4) unfolding filling_def by blast+
  have "linkNext (xnew st) = 0" using t(6) n0(1) by (simp add: same_frame_def)
  then have "alloc_ok ?n"
    using fl(2,3) \<open>0 < unat (xnext st)\<close> by (fastforce simp: alloc_ok_def core cap)
  then show "settled ?n" using fl(1,4,5) by (simp add: settled_def core)
  show "indexNext ?n = None" using t(6) n0(2) by (simp add: same_frame_def)
  show "entries_wf content hash ok ?n" using t(5) by (simp only: core)
  show "absMap content hash ?n = absMap content hash o0" unfolding core using t(7) by blast
  show "length (bins (xnew st)) = length (bins n0)"
    using t(6) by (simp add: same_frame_def same_geometry_def)
  show "length (bins (xold st)) = length (bins o0)"
    using t(1) by (simp add: same_frame_def same_geometry_def)
  have ib: "inBin (xnew st) = inBin n0"
    using same_geometry_inBin [OF same_frame_geometry [OF t(6)]] by (simp add: fun_eq_iff)
  have "length (links (xnew st)) = length (links n0)"
    using t(6) by (simp add: same_frame_def same_geometry_def)
  then show "linksExact ?n = (length (links n0) = unat l0)"
    using t(9) fl(2) \<open>0 < unat (xnext st)\<close> \<open>linkNext (xnew st) = 0\<close>
    by (auto simp: linksExact_def core cap ib)
  show "retired (xold st) i" if "indexNext o0 = Some (Suc i)"
    using that t(1,2,3) same_geometry_inBin [OF same_frame_geometry [OF t(1)]]
    by (simp add: retired_def wf_index_def same_frame_def)
qed

lemma triggerResize_spec:
  assumes rs: "resizable m" and ew: "entries_wf content hash ok (current m)"
    and B: "length (bins (current m)) \<le> 2 ^ 32"
    and av: "\<forall>b i s. inBin (current m) b \<and> view (current m) b i = Some s \<longrightarrow>
      avoids (transferSentinel b) s"
    and fuel: "chunkCount (length (bins (current m))) \<le> fuel"
  obtains m' where "triggerResize fuel zv moveSlot transferSentinel m = Some (Returned True, m')"
    "generations m'" "active m' = Suc (active m)" "hashConfig m' = hashConfig m"
    "entries_wf content hash ok (current m')"
    "absMap content hash (current m') = absMap content hash (current m)"
    "2 * length (bins (current m)) \<le> length (bins (current m'))" "linksExact (current m')"
proof -
  let ?ix = "current m" let ?a = "active m"
  have rs': "length (indexes m) = Suc ?a" "resizeCtx m = None" "wf_index ?ix"
    "\<And>i. i < ?a \<Longrightarrow> retired (indexes m ! i) i" "ascending (indexes m)" using rs by (auto simp: resizable_def)
  have sh: "shape ?ix" using rs'(3) by (simp add: wf_index_def)
  from sh obtain k where k: "length (bins ?ix) = 2 ^ k" "length (links ?ix) = 2 ^ k div 8"
    by (auto simp: shape_def)
  have "k \<le> 32"
  proof (rule ccontr)
    assume "\<not> k \<le> 32"
    then have "(2::nat) ^ 32 < 2 ^ k" by (intro power_strict_increasing) auto
    then show False using B k by simp
  qed
  then obtain g where g: "growthFor (of_nat (2 ^ k)) = 2 ^ g" "1 \<le> g" "k + g \<le> 33" "g = 3 \<or> 12 \<le> k"
    by (rule growth_cases) (rule that)
  define N where "N = newIndex zv (2 ^ (k + g))"
  define l0 where "l0 = (of_nat (length (links N)) :: 32 word)"
  define n0 where "n0 = N\<lparr>linkCapacity := l0 - (of_nat (length (links ?ix)) * 4 div 3 + 1)\<rparr>"
  define o0 where "o0 = ?ix\<lparr>indexNext := Some (Suc ?a)\<rparr>"
  have N: "newIndex zv (of_nat (length (bins ?ix)) * growthFor (of_nat (length (bins ?ix)))) = N"
    unfolding k(1) g(1) by (simp add: N_def power_add)
  have ul: "unat l0 = 2 ^ (k + g) div 8" using fresh_empty_new(2) [OF g(3)] by (simp add: l0_def N_def)
  have "empty_new content hash ok N l0"
    unfolding N_def l0_def by (rule fresh_empty_new(1) [OF g(3)])
  then have emp: "empty_new content hash ok n0 l0"
    unfolding empty_new_def n0_def same_core_abs [OF same_core_simps(2)] same_core_reads [OF same_core_simps(2)] .
  have o0: "wf_index o0" "entries_wf content hash ok o0" "view o0 = view ?ix" "inBin o0 = inBin ?ix"
    "absMap content hash o0 = absMap content hash ?ix" "length (bins o0) = length (bins ?ix)" "links o0 = links ?ix"
    "indexNext o0 = Some (Suc ?a)"
    unfolding o0_def same_core_abs [OF same_core_simps(1)] same_core_reads [OF same_core_simps(1)]
    using rs'(3) ew by simp_all
  have nb: "length (bins n0) = 2 ^ (k + g)" "linkNext n0 = 0" "indexNext n0 = None"
    using newIndex_settled(4,5) [OF g(3), of zv] by (simp_all add: n0_def N_def) (simp add: newIndex_def)
  have en: "enough_links o0 l0"
  proof -
    have "1 \<le> (2::nat) ^ k div 8" if "links ?ix \<noteq> []" using that k(2) by (cases "links ?ix") simp_all
    then show ?thesis using new_links(2) [OF g(2,4)] k(2) by (simp add: enough_links_def o0(7) ul)
  qed
  have grow: "length (bins o0) \<le> length (bins n0)" by (simp add: o0(6) k(1) nb(1) power_add)
  have av': "\<forall>b i s. inBin o0 b \<and> view o0 b i = Some s \<longrightarrow> avoids (transferSentinel b) s"
    unfolding o0(3,4) by (rule av)
  define ph where "ph = \<lparr>oldIndex = None, newIndex' = None, numBins = 0, numChunks = 0,
     ctxActive = ResizeReserved, chunkClaimed = 0, chunksDone = 0, linkNextResize = 0\<rparr>"
  let ?ctx = "\<lparr>oldIndex = Some ?a, newIndex' = Some (Suc ?a), numBins = of_nat (length (bins ?ix)),
     numChunks = (of_nat (length (bins ?ix)) + CHUNK_SIZE - 1) div CHUNK_SIZE, ctxActive = ResizeActive,
     chunkClaimed = 0, chunksDone = 0, linkNextResize = l0\<rparr>"
  let ?c = "Suc (length (contexts m))"
  define m1 where "m1 = setResizeContext
     (putIndex ((setResizeContext m ph)\<lparr>indexes := indexes m @ [n0]\<rparr>) ?a o0) ?ctx"
  have m1: "indexes m1 = (indexes m @ [n0])[?a := o0]" "contexts m1 = contexts m @ [ph, ?ctx]"
    "hashConfig m1 = hashConfig m"
    by (simp_all add: m1_def setResizeContext_def putIndex_def)
  have ids: "resize_ids m1 ?a (Suc ?a) ?c" using rs'(1) by (simp add: resize_ids_def m1)
  let ?st = "\<lparr>xold = o0, xnew = n0, xnext = l0\<rparr>"
  have start: "atChunk m1 ?a (Suc ?a) ?c ?ctx 0 ?st = m1"
    by (rule atChunk_start [OF ids]) (use rs'(1) in \<open>simp_all add: m1 nth_append nth_list_update\<close>)
  have run: "triggerResize fuel zv moveSlot transferSentinel m = do {
      (r, m) \<leftarrow> helpWithChunks fuel moveSlot transferSentinel m1 ?c;
      Some (map_run (\<lambda>_. True) r, m) }"
  proof -
    let ?m = "setResizeContext m ph"
    have tri: "trySetResizeContext m ph = (True, ?m)"
      using rs'(2) by (simp add: trySetResizeContext_def)
    have at: "indexAt ?m ?a = Some ?ix" "getActiveIndex ?m = ?a" "indexes ?m = indexes m"
      "contexts ?m = contexts m @ [ph]"
      using rs'(1)
      by (simp_all add: setResizeContext_def indexAt_def current_def getActiveIndex_def)
    have len: "length (indexes m) = Suc ?a" "length (links n0) = length (links N)"
      "length (contexts (putIndex (?m\<lparr>indexes := indexes m @ [n0]\<rparr>) ?a o0)) = ?c"
      using rs'(1) by (simp_all add: n0_def at)
    show ?thesis
      unfolding triggerResize_def ph_def [symmetric] Let_def tri prod.case
      by (simp add: at N m1_def n0_def l0_def o0_def rs'(1))
  qed
  have B': "length (bins o0) \<le> 2 ^ 32" using B by (simp add: o0(6))
  have lt: "0 < chunkCount (length (bins o0))" by (simp add: chunkCount_less o0(6) k(1))
  have "transferred content hash ok o0 n0 l0 (0 * 1024) ?st"
    using transferred_start [OF o0(1) emp] by simp
  have ctx: "oldIndex ?ctx = Some ?a" "newIndex' ?ctx = Some (Suc ?a)"
    "numBins ?ctx = of_nat (length (bins o0))" "numChunks ?ctx = of_nat (chunkCount (length (bins o0)))"
    by (simp_all only: resizeContext.simps o0(6) chunkCount_words [OF B])
  have "chunkCount (length (bins o0)) - 0 \<le> fuel" using fuel by (simp add: o0(6))
  from helpWithChunks_run [OF ids ctx B' o0(1,2) grow en av' \<open>transferred _ _ _ _ _ _ (0 * 1024) _\<close> lt this]
  obtain st' where st': "helpWithChunks fuel moveSlot transferSentinel m1 ?c =
      Some (Returned (), published m1 ?a (Suc ?a) ?c ?ctx (chunkCount (length (bins o0))) st')"
    "transferred content hash ok o0 n0 l0 (length (bins o0)) st'"
    unfolding start by blast
  let ?m = "published m1 ?a (Suc ?a) ?c ?ctx (chunkCount (length (bins o0))) st'"
  note p = published_reads [OF ids, where ctx = ?ctx and j = "chunkCount (length (bins o0))" and st = st']
  have l1: "1 \<le> unat l0" unfolding ul by (rule new_links(1) [OF g(2,4)])
  note e = transferred_end [OF o0(1) en l1 st'(2) nb(2,3)]
  have ret: "retired (indexes ?m ! i) i" if "i < Suc ?a" for i
  proof (cases "i = ?a")
    case True
    with e(6) [OF o0(8)] show ?thesis by (simp only: p(6))
  next
    case False
    with that rs'(1) rs'(4) [of i] p(7) [of i] show ?thesis by (simp add: m1 nth_append)
  qed
  have asc: "ascending (indexes ?m)"
  proof -
    have "indexes m \<noteq> []" using rs'(1) by auto
    then have lst: "indexes m \<noteq> []" "last (indexes m) = ?ix"
      using rs'(1) by (simp_all add: current_def last_conv_nth)
    have "ascending (indexes m @ [n0])"
      using grow by (intro ascending_append [OF rs'(5) lst(1)]) (simp add: lst(2) o0(6))
    then have "ascending (indexes m1)"
      unfolding m1(1) using rs'(1) by (subst ascending_update) (simp_all add: o0(6) nth_append current_def)
    then have "ascending ((indexes m1)[?a := xold st'])"
      using rs'(1) e(7) by (subst ascending_update) (simp_all add: m1(1) nth_append)
    then show ?thesis
      unfolding p(8) using rs'(1) e(5)
      by (subst ascending_update) (simp_all add: m1(1) nth_append nth_list_update)
  qed
  have "generations ?m"
    unfolding generations_def p(1,2,4,5) using e(1,2) ret asc rs'(1) by (simp add: m1)
  moreover have "entries_wf content hash ok (current ?m)" "absMap content hash (current ?m) = absMap content hash ?ix"
    unfolding p(5) using e(3,4) by (simp_all add: o0(5))
  moreover have "2 * length (bins ?ix) \<le> length (bins (current ?m))"
  proof -
    have "(2::nat) ^ 1 \<le> 2 ^ g" using g(2) by (intro power_increasing) simp_all
    then have "2 * 2 ^ k \<le> (2::nat) ^ (k + g)" by (simp add: power_add)
    then show ?thesis unfolding p(5) using e(5) nb(1) k(1) by simp
  qed
  moreover have "linksExact (current ?m)"
    unfolding p(5) e(8) ul using fresh_empty_new(2) [OF g(3), of zv] k(2) by (simp add: n0_def N_def newIndex_def fresh_sizes g(3))
  moreover have "triggerResize fuel zv moveSlot transferSentinel m = Some (Returned True, ?m)"
    unfolding run st'(1) by simp
  ultimately show ?thesis using p(1,3) m1(3) by (intro that [of ?m]) simp_all
qed

end

end
