(* ===== verification/SlotInsert.thy ===== *)
theory SlotInsert
  imports ResizeTrigger
begin

text \<open>
  \<open>Insert\<close> of both packages (insert.go): they differ in the search for an existing key, in
  the two words of the new slot, in what \<open>unreserveSlot\<close> wipes and in the transfer of a slot
  during a resize, which are the parameters here. The locale \<open>slot_insert\<close> states what a
  package must supply; inside it, an insertion is shown to return the existing value, or to
  publish the new slot, growing the table as often as needed.
\<close>

section \<open>Definitions\<close>

definition reserveSlot ::
  "'v index \<Rightarrow> 64 word \<Rightarrow> 64 word \<Rightarrow> 64 word \<Rightarrow> (bool \<times> 'v index) option" where
  "reserveSlot ix b oldH newH = atomicCASHeader ix b oldH newH"

definition finalizeSlot ::
  "'v index \<Rightarrow> 64 word \<Rightarrow> 64 word \<Rightarrow> int \<Rightarrow> (bool \<times> 'v index) option" where
  "finalizeSlot ix b oldH i =
     (let newH = setSlotStateAndVersion oldH i SlotValid in atomicCASHeader ix b oldH newH)"

text \<open>\<open>wipe\<close>: what the package stores in the slot before releasing it.\<close>

function unreserveSlot ::
  "('v Slot \<Rightarrow> 'v Slot) \<Rightarrow> 'v index \<Rightarrow> 64 word \<Rightarrow> int \<Rightarrow> (bool \<times> 'v index) option" where
  "unreserveSlot wipe ix b i = do {
     h \<leftarrow> atomicLoadHeader ix b;
     (if getSlotState h i \<noteq> SlotTrying \<or> getBinState h \<noteq> BinNoTransfer then Some (False, ix)
      else do {
        slot \<leftarrow> getSlotByIndex ix b i;
        ix1 \<leftarrow> (case slot of
                 None \<Rightarrow> Some ix
               | Some r \<Rightarrow> do { s \<leftarrow> loadSlot ix r; storeSlot ix r (wipe s) });
        let newH = setSlotStateAndVersion h i SlotInvalid;
        (ok, ix2) \<leftarrow> atomicCASHeader ix1 b h newH;
        (if ok then Some (True, ix2) else unreserveSlot wipe ix2 b i) }) }"
  by pat_completeness auto
termination
proof (relation "{}", simp)
  fix wipe :: "'v Slot \<Rightarrow> 'v Slot" and ix b i h slot ix1 newH p ok ix2
  assume a: "atomicLoadHeader ix b = Some h"
    "(case slot of None \<Rightarrow> Some ix
      | Some r \<Rightarrow> do { s \<leftarrow> loadSlot ix r; storeSlot ix r (wipe s) }) = Some ix1"
    "atomicCASHeader ix1 b h newH = Some p" "(ok, ix2) = p" "\<not> ok"
  have "atomicLoadHeader ix1 b = Some h"
  proof (cases slot)
    case (Some r)
    then obtain s where s: "loadSlot ix r = Some s" "storeSlot ix r (wipe s) = Some ix1"
      using a(2) by (auto split: bind_splits)
    then have "hdr ix1 = hdr ix" "same_frame ix ix1" using storeSlot_effect [OF s(1), of "wipe s"] by auto
    then show ?thesis
      using a(1) same_geometry_inBin [OF same_frame_geometry, of ix ix1 b]
      by (auto simp: atomicLoadHeader_def hdr_def getBinByIndex_def inBin_def nth_opt_def fun_eq_iff split: if_splits)
  qed (use a in simp)
  then show "((wipe, ix2, b, i), (wipe, ix, b, i)) \<in> {}"
    using a(3-5) by (auto simp: atomicLoadHeader_def atomicCASHeader_def storeHeader_def split: bind_splits)
qed

declare unreserveSlot.simps [simp del]

text \<open>The search for an existing key, at a header that was loaded before.\<close>

type_synonym ('v, 'b) finder = "'v index \<Rightarrow> 64 word \<Rightarrow> 64 word \<Rightarrow> 'b option option"

text \<open>From the label \<open>retryWithSlot\<close>: our slot is reserved, the header changed under us.\<close>

fun retryWithSlot ::
  "nat \<Rightarrow> ('v, 'b) finder \<Rightarrow> ('v Slot \<Rightarrow> 'v Slot) \<Rightarrow> 'b \<Rightarrow> nat \<Rightarrow> 64 word \<Rightarrow> int \<Rightarrow> ('v, 'c) Map \<Rightarrow>
     (('b \<times> bool) ctl \<times> ('v, 'c) Map) option" where
  "retryWithSlot 0 look wipe zero idx b slotIndex m = Some (Spin, m)"
| "retryWithSlot (Suc n) look wipe zero idx b slotIndex m = do {
     ix \<leftarrow> indexAt m idx;
     h2 \<leftarrow> atomicLoadHeader ix b;
     (if getBinState h2 \<noteq> BinNoTransfer
      then do {
        (_, ix') \<leftarrow> unreserveSlot wipe ix b slotIndex;
        let m' = putIndex m idx ix';
        idx' \<leftarrow> (if getBinState h2 = BinDoneTransfer then getNextIndex m' idx
                 else Some (getActiveIndex m'));
        Some (Goto idx', m') }
      else do {
        existing \<leftarrow> look ix b h2;
        (case existing of
           Some v \<Rightarrow> do {
             h3 \<leftarrow> atomicLoadHeader ix b;
             (if h2 = h3 then do {
                (_, ix') \<leftarrow> unreserveSlot wipe ix b slotIndex;
                Some (Ret (v, False), putIndex m idx ix') }
              else retryWithSlot n look wipe zero idx b slotIndex m) }
         | None \<Rightarrow> do {
             (ok, ix') \<leftarrow> finalizeSlot ix b h2 slotIndex;
             (if ok then Some (Ret (zero, True), putIndex m idx ix')
              else retryWithSlot n look wipe zero idx b slotIndex (putIndex m idx ix')) }) }) }"

text \<open>
  One round of \<open>Insert\<close>, from the label \<open>retry\<close>. \<open>grow\<close> is \<open>triggerResize\<close> followed by
  \<open>helpResize\<close>; \<open>key\<close> and \<open>val\<close> are the words stored in the slot.
\<close>

definition Insert_round ::
  "nat \<Rightarrow> ('v, 'b) finder \<Rightarrow> ('v Slot \<Rightarrow> 'v Slot) \<Rightarrow> (('v, 'c) Map \<Rightarrow> (unit run \<times> ('v, 'c) Map) option) \<Rightarrow>
     'b \<Rightarrow> 64 word \<Rightarrow> 64 word \<Rightarrow> 'v \<Rightarrow> nat \<Rightarrow> ('v, 'c) Map \<Rightarrow>
     (('b \<times> bool) ctl \<times> ('v, 'c) Map) option" where
  "Insert_round fuel look wipe grow zero hash key val idx m = do {
     ix \<leftarrow> indexAt m idx;
     pb \<leftarrow> getBin ix hash;
     let b = binOf ix hash;
     let h0 = Header pb;
     guard \<leftarrow> binGuard m idx h0;
     (case guard of
        Some idx' \<Rightarrow> Some (Goto idx', m)
      | None \<Rightarrow> do {
          existing \<leftarrow> look ix b h0;
          (case existing of
             Some v \<Rightarrow> do {
               h1 \<leftarrow> atomicLoadHeader ix b;
               Some (if h0 = h1 then Ret (v, False) else Goto idx, m) }
           | None \<Rightarrow> do {
               let im = invalidMask3 h0;
               (slotIndex, ix) \<leftarrow> (if im \<noteq> 0 then Some (lowestSlot im, ix) else chooseInsertSlot ix b);
               let m = putIndex m idx ix;
               (if slotIndex < 0
                then do {
                  (r, m) \<leftarrow> grow m;
                  Some (case r of Spinning \<Rightarrow> Spin | Returned _ \<Rightarrow> Goto (getActiveIndex m), m) }
                else do {
                  let h1 = setSlotStateAndVersion h0 slotIndex SlotTrying;
                  (ok, ix) \<leftarrow> reserveSlot ix b h0 h1;
                  let m = putIndex m idx ix;
                  (if \<not> ok then Some (Goto idx, m)
                   else do {
                     slot \<leftarrow> getSlotByIndex ix b slotIndex;
                     (case slot of
                        None \<Rightarrow> do {
                          (_, ix) \<leftarrow> unreserveSlot wipe ix b slotIndex;
                          Some (Goto idx, putIndex m idx ix) }
                      | Some r \<Rightarrow> do {
                          ix \<leftarrow> storeSlotKey ix r key;
                          ix \<leftarrow> atomicStoreSlotVal ix r val;
                          (ok, ix) \<leftarrow> finalizeSlot ix b h1 slotIndex;
                          let m = putIndex m idx ix;
                          (if ok then Some (Ret (zero, True), m)
                           else retryWithSlot fuel look wipe zero idx b slotIndex m) }) }) }) }) }) }"

definition growTable ::
  "nat \<Rightarrow> 'v \<Rightarrow> 'v moveSlot \<Rightarrow> (64 word \<Rightarrow> 64 word) \<Rightarrow> ('v, 'c) Map \<Rightarrow>
     (unit run \<times> ('v, 'c) Map) option" where
  "growTable fuel zv moveSlot transferSentinel m = do {
     (r, m) \<leftarrow> triggerResize fuel zv moveSlot transferSentinel m;
     (case r of
        Spinning \<Rightarrow> Some (Spinning, m)
      | Returned _ \<Rightarrow> helpResize fuel moveSlot transferSentinel m) }"

section \<open>Correctness\<close>

lemma pickSlot:
  assumes wf: "wf_index ix" "alloc_ok ix" "inBin ix b"
  obtains i ix' where
    "(if invalidMask3 (hdr ix b) \<noteq> 0 then Some (lowestSlot (invalidMask3 (hdr ix b)), ix)
      else chooseInsertSlot ix b) = Some (i, ix')" "links_extend ix ix'" "wf_index ix'"
    "i < 0 \<Longrightarrow> \<forall>j<3. \<not> isInvalid ix b j"
    "0 \<le> i \<Longrightarrow> \<exists>j<15. i = int j \<and> isInvalid ix b j \<and> slotRef ix' b j \<noteq> None \<and> alloc_ok ix' \<and>
       (linksExact ix \<longrightarrow> linksExact ix')"
proof (cases "invalidMask3 (hdr ix b) = 0")
  case True
  show ?thesis
    by (rule chooseInsertSlot_spec [OF wf], rule that) (simp_all only: True simp_thms if_False)
next
  case False
  then obtain j where j: "j < 3" "lowestSlot (invalidMask3 (hdr ix b)) = int j"
    "\<not> stHi (hdr ix b) j" "\<not> stLo (hdr ix b) j" by (rule invalidMask3_lowest)
  then have "isInvalid ix b j" "slotRef ix b j \<noteq> None" "j < 15"
    by (simp_all add: isInvalid_def slotRef_primary)
  then show ?thesis using that [of "int j" ix] False j(2) wf by auto
qed

lemma CAS_hit:
  assumes "inBin ix b" "hdr ix b = h" "storeHeader ix b new = Some ix'"
  shows "atomicCASHeader ix b h new = Some (True, ix')"
  using assms by (simp add: atomicCASHeader_def hdr_def)

lemma putIndex_twice [simp]: "putIndex (putIndex m i x) i y = putIndex m i y"
  by (simp add: putIndex_def)

lemma getSlotByIndex_ref:
  "slotRef ix b i = Some r \<Longrightarrow> getSlotByIndex ix b (int i) = Some (Some r)"
  by (cases "getSlotByIndex ix b (int i)") (auto simp: slotRef_def)

lemma retired_round:
  assumes "generations m" "i < active m"
  shows "Insert_round fuel look wipe grow zero h key val i m = Some (Goto (Suc i), m)"
proof -
  have b: "inBin (indexes m ! i) (binOf (indexes m ! i) h)"
    using assms binOf_in by (auto simp: generations_def retired_def)
  show ?thesis
    unfolding Insert_round_def Let_def getBin_def binGuard_retired(1) [OF assms b] Option.bind.simps
      getBinByIndex_in [OF b] hdr_def [symmetric] binGuard_retired(2) [OF assms b] option.case ..
qed

text \<open>
  When growing cannot help: three stored keys whose hashes agree with the new one on the low
  \<open>B\<close> bits, so that the primary bucket stays full in a table of 2^B bins.
\<close>

definition crowded :: "('k \<Rightarrow> 64 word) \<Rightarrow> ('k \<Rightarrow> 'b option) \<Rightarrow> nat \<Rightarrow> 'k \<Rightarrow> bool" where
  "crowded hash M B k \<longleftrightarrow> (\<exists>ks. length ks = 3 \<and> distinct ks \<and>
     (\<forall>k' \<in> set ks. M k' \<noteq> None \<and> take_bit B (hash k') = take_bit B (hash k)))"

lemma full_primary_crowded:
  assumes st: "settled ix" and ew: "entries_wf content hash ok ix" and B: "2 ^ B \<le> length (bins ix)"
    and full: "\<forall>j<3. \<not> isInvalid ix (binOf ix (hash k)) j"
  shows "crowded hash (absMap content hash ix) B k"
proof -
  let ?b = "binOf ix (hash k)"
  have wf: "wf_index ix" and sh: "shape ix" using settledD [OF st] by auto
  have b: "inBin ix ?b" using binOf_in [OF sh] .
  obtain n where n: "imask ix = Bit_Operations.mask n" "length (bins ix) = 2 ^ n"
    using imask_mask [OF sh] .
  have "B \<le> n" using B n(2) by simp
  have low: "take_bit B (hash k') = take_bit B (hash k)" if "binOf ix (hash k') = ?b" for k'
  proof -
    have "take_bit n (hash k') = take_bit n (hash k)"
      using that by (simp add: binOf_def n(1) take_bit_eq_mask)
    then have "take_bit B (take_bit n (hash k')) = take_bit B (take_bit n (hash k))" by simp
    then show ?thesis using \<open>B \<le> n\<close> by simp
  qed
  have "\<exists>k' v. slotEntry content ix ?b j = Some (k', v) \<and> binOf ix (hash k') = ?b" if j3: "j < 3" for j
  proof -
    have "isValid ix ?b j" using full j3 settledD(5) [OF st b, of j] by auto
    moreover obtain s where "slotIn ix ?b j = Some s"
      using slotIn_in [OF sh _ b, of j] wf j3 by (auto simp: wf_index_def slotRef_primary)
    ultimately have s: "view ix ?b j = Some s" using j3 by (simp add: view_def)
    then show ?thesis using entries_wfD [OF ew b s] by (auto simp: slotEntry_def)
  qed
  then obtain f where f: "\<And>j. j < 3 \<Longrightarrow> \<exists>v. slotEntry content ix ?b j = Some (f j, v) \<and> binOf ix (hash (f j)) = ?b"
    by metis
  have inj: "i = j" if "i < 3" "j < 3" "f i = f j" for i j
    using f [OF that(1)] f [OF that(2)] that(3) entries_unique [OF ew b] by metis
  have dom: "absMap content hash ix (f j) \<noteq> None" if "j < 3" for j
    using f [OF that] absMap_Some [OF ew sh] by (metis option.distinct(1))
  have "length (map f [0..<3]) = 3" by simp
  moreover have "distinct (map f [0..<3])"
    using inj by (auto simp: distinct_map inj_on_def)
  moreover have "\<forall>k' \<in> set (map f [0..<3]). absMap content hash ix k' \<noteq> None \<and>
      take_bit B (hash k') = take_bit B (hash k)"
  proof
    fix k' assume "k' \<in> set (map f [0..<3])"
    then obtain j where j: "k' = f j" "j < 3" by (auto simp only: set_map set_upt image_iff atLeastLessThan_iff)
    then show "absMap content hash ix k' \<noteq> None \<and> take_bit B (hash k') = take_bit B (hash k)"
      using dom [OF j(2)] f [OF j(2)] low [of "f j"] by simp
  qed
  ultimately show ?thesis unfolding crowded_def by blast
qed

lemma chunkCount_le_self: "0 < B \<Longrightarrow> chunkCount B \<le> B"
  by (simp add: not_less [symmetric] chunkCount_less)

text \<open>No stored slot carries the sentinel of its bin, in tables of at least \<open>minBins\<close> bins.\<close>

definition sentinel_safe ::
  "('v Slot \<Rightarrow> ('k \<times> 'b) option) \<Rightarrow> ('k \<Rightarrow> 64 word) \<Rightarrow> ('v Slot \<Rightarrow> bool) \<Rightarrow>
     (64 word \<Rightarrow> 'v Slot \<Rightarrow> bool) \<Rightarrow> (64 word \<Rightarrow> 64 word) \<Rightarrow> nat \<Rightarrow> bool" where
  "sentinel_safe content hash ok avoids transferSentinel minBins \<longleftrightarrow>
     (\<forall>ix b i s. wf_index ix \<and> entries_wf content hash ok ix \<and> minBins \<le> length (bins ix) \<and>
        inBin ix b \<and> view ix b i = Some s \<longrightarrow> avoids (transferSentinel b) s)"

text \<open>
  What a package supplies: \<open>look\<close> finds the stored value, and the slot written by \<open>Insert\<close> is
  visible with the new pair.
\<close>

locale slot_insert = slot_transfer tag matches content ok hash moveSlot avoids
  for tag :: "'k \<Rightarrow> 64 word" and matches :: "'k \<Rightarrow> 'v Slot \<Rightarrow> bool"
    and content :: "'v Slot \<Rightarrow> ('k \<times> 'b) option" and ok :: "'v Slot \<Rightarrow> bool"
    and hash :: "'k \<Rightarrow> 64 word"
    and moveSlot :: "64 word \<Rightarrow> SlotRef \<Rightarrow> 'v xfer \<Rightarrow> 'v xfer option"
    and avoids :: "64 word \<Rightarrow> 'v Slot \<Rightarrow> bool" +
  fixes look :: "'k \<Rightarrow> ('v, 'b) finder"
    and slotVal :: "'k \<Rightarrow> 'b \<Rightarrow> 'v"
  assumes looks: "wf_index ix \<Longrightarrow> entries_wf content hash ok ix \<Longrightarrow> b = binOf ix (hash k) \<Longrightarrow>
      look k ix b (hdr ix b) = Some (absMap content hash ix k)"
    and fills: "ok (s\<lparr>Key := tag k, Val := slotVal k v\<rparr>)"
      "content (s\<lparr>Key := tag k, Val := slotVal k v\<rparr>) = Some (k, v)"
begin

lemma growTable_spec:
  assumes safe: "sentinel_safe content hash ok avoids transferSentinel minBins"
    and rs: "resizable m" and ew: "entries_wf content hash ok (current m)"
    and B: "minBins \<le> length (bins (current m))" "length (bins (current m)) \<le> 2 ^ 32"
    and fuel: "chunkCount (length (bins (current m))) \<le> fuel" "0 < fuel"
  obtains m' where "growTable fuel zv moveSlot transferSentinel m = Some (Returned (), m')"
    "generations m'" "hashConfig m' = hashConfig m" "entries_wf content hash ok (current m')"
    "absMap content hash (current m') = absMap content hash (current m)"
    "2 * length (bins (current m)) \<le> length (bins (current m'))" "active m' = Suc (active m)"
    "linksExact (current m')"
proof -
  have wf: "wf_index (current m)" using rs by (simp add: resizable_def)
  have "\<forall>b i s. inBin (current m) b \<and> view (current m) b i = Some s \<longrightarrow> avoids (transferSentinel b) s"
    using safe wf ew B(1) unfolding sentinel_safe_def by blast
  from triggerResize_spec [OF rs ew B(2) this fuel(1), of zv]
  obtain m' where m': "triggerResize fuel zv moveSlot transferSentinel m = Some (Returned True, m')"
    "generations m'" "active m' = Suc (active m)" "hashConfig m' = hashConfig m"
    "entries_wf content hash ok (current m')"
    "absMap content hash (current m') = absMap content hash (current m)"
    "2 * length (bins (current m)) \<le> length (bins (current m'))" "linksExact (current m')" by blast
  have "helpResize fuel moveSlot transferSentinel m' = Some (Returned (), m')"
    using fuel(2) m'(2) by (cases fuel) (simp_all add: generations_def getResizeContext_def)
  with m' show ?thesis by (intro that [of m']) (simp_all add: growTable_def)
qed

lemma round_existing:
  assumes g: "generations m" and ew: "entries_wf content hash ok (current m)"
    and v: "absMap content hash (current m) k = Some v"
  shows "Insert_round fuel (look k) wipe grow zero (hash k) key val (active m) m =
    Some (Ret (v, False), m)"
proof -
  let ?ix = "current m" let ?b = "binOf ?ix (hash k)"
  have st: "settled ?ix" using g by (rule generations_settled)
  have b: "inBin ?ix ?b" using binOf_in [OF settledD(3) [OF st]] .
  have ld: "atomicLoadHeader ?ix ?b = Some (hdr ?ix ?b)"
    using b by (simp add: atomicLoadHeader_def hdr_def)
  show ?thesis
    unfolding Insert_round_def Let_def getBin_def indexAt_active [OF g] Option.bind.simps
      getBinByIndex_in [OF b] hdr_def [symmetric] binGuard_settled [OF st b] option.case
      looks [OF settledD(1) [OF st] ew refl] v ld
    by simp
qed

lemma round_new:
  assumes safe: "sentinel_safe content hash ok avoids transferSentinel minBins"
    and g: "generations m" and ew: "entries_wf content hash ok (current m)"
    and none: "absMap content hash (current m) k = None"
    and room: "(\<exists>j<3. isInvalid (current m) (binOf (current m) (hash k)) j) \<or>
      minBins \<le> length (bins (current m)) \<and> length (bins (current m)) \<le> 2 ^ 32 \<and>
      chunkCount (length (bins (current m))) \<le> fuel \<and> 0 < fuel"
  obtains (stored) m' where
    "Insert_round fuel (look k) wipe (growTable fuel zv moveSlot transferSentinel) zero (hash k)
       (tag k) (slotVal k v) (active m) m = Some (Ret (zero, True), m')"
    "generations m'" "hashConfig m' = hashConfig m" "entries_wf content hash ok (current m')"
    "absMap content hash (current m') = (absMap content hash (current m))(k \<mapsto> v)"
    "active m' = active m" "length (bins (current m')) = length (bins (current m))"
    "linksExact (current m) \<Longrightarrow> linksExact (current m')"
  | (grown) m' where
    "Insert_round fuel (look k) wipe (growTable fuel zv moveSlot transferSentinel) zero (hash k)
       (tag k) (slotVal k v) (active m) m = Some (Goto (active m'), m')"
    "generations m'" "hashConfig m' = hashConfig m" "entries_wf content hash ok (current m')"
    "absMap content hash (current m') = absMap content hash (current m)"
    "2 * length (bins (current m)) \<le> length (bins (current m'))"
    "\<forall>j<3. \<not> isInvalid (current m) (binOf (current m) (hash k)) j"
    "active m' = Suc (active m)" "linksExact (current m')"
proof -
  let ?ix = "current m" let ?b = "binOf ?ix (hash k)"
  let ?grow = "growTable fuel zv moveSlot transferSentinel"
  have st: "settled ?ix" using g by (rule generations_settled)
  note wf = settledD(1,2) [OF st]
  have b: "inBin ?ix ?b" using binOf_in [OF settledD(3) [OF st]] .
  obtain i ix1 where p: "(if invalidMask3 (hdr ?ix ?b) \<noteq> 0
        then Some (lowestSlot (invalidMask3 (hdr ?ix ?b)), ?ix) else chooseInsertSlot ?ix ?b) = Some (i, ix1)"
    "links_extend ?ix ix1" "wf_index ix1" "i < 0 \<Longrightarrow> \<forall>j<3. \<not> isInvalid ?ix ?b j"
    "0 \<le> i \<Longrightarrow> \<exists>j<15. i = int j \<and> isInvalid ?ix ?b j \<and> slotRef ix1 ?b j \<noteq> None \<and> alloc_ok ix1 \<and>
       (linksExact ?ix \<longrightarrow> linksExact ix1)"
    by (rule pickSlot [OF wf b]) (rule that)
  have ext: "same_geometry ?ix ix1" "hdr ix1 = hdr ?ix" "indexNext ix1 = indexNext ?ix"
    using p(2) by (simp_all add: links_extend_def)
  have bo: "binOf ix1 = binOf ?ix" "length (bins ix1) = length (bins ?ix)"
    using ext(1) by (simp_all add: same_geometry_def binOf_def fun_eq_iff)
  note ab = links_extend_abs [OF p(2) wf(1), where content = content and hash = hash]
  have ew1: "entries_wf content hash ok ix1" by (rule ab(2) [OF ew])
  let ?m1 = "putIndex m (active m) ix1"
  have cur1: "current ?m1 = ix1" "length (indexes m) = Suc (active m)"
    using g by (simp_all add: generations_def current_def putIndex_def)
  note round = Insert_round_def Let_def getBin_def indexAt_active [OF g] Option.bind.simps
      getBinByIndex_in [OF b] hdr_def [symmetric] binGuard_settled [OF st b] option.case
      looks [OF wf(1) ew refl] none p(1) prod.case
  show ?thesis
  proof (cases "i < 0")
    case True
    have "resizable ?m1"
      unfolding resizable_def cur1 using g p(3) by (simp add: generations_def) (simp add: putIndex_def ascending_update current_def bo)
    moreover have "entries_wf content hash ok (current ?m1)" using ew1 by (simp add: cur1)
    ultimately obtain m' where m': "?grow ?m1 = Some (Returned (), m')" "generations m'"
      "hashConfig m' = hashConfig ?m1" "entries_wf content hash ok (current m')"
      "absMap content hash (current m') = absMap content hash (current ?m1)"
      "2 * length (bins (current ?m1)) \<le> length (bins (current m'))" "active m' = Suc (active ?m1)"
      "linksExact (current m')"
      using room p(4) [OF True] by (elim growTable_spec [OF safe, of ?m1 fuel zv]) (auto simp: cur1 bo)
    have "Insert_round fuel (look k) wipe ?grow zero (hash k) (tag k) (slotVal k v) (active m) m =
        Some (Goto (active m'), m')"
      unfolding round using True m'(1) by (simp add: getActiveIndex_def)
    then show ?thesis using grown [of m'] m'(2-8) p(4) [OF True] by (simp add: cur1 ab(1) bo)
  next
    case False
    then obtain j where j: "j < 15" "i = int j" "isInvalid ?ix ?b j" "slotRef ix1 ?b j \<noteq> None" "alloc_ok ix1"
      "linksExact ?ix \<longrightarrow> linksExact ix1"
      using p(5) by auto
    then obtain r where r: "slotRef ix1 ?b j = Some r" by blast
    have st1: "settled ix1" by (rule settled_links_extend [OF st p(2,3) j(5)])
    have abs1: "absMap content hash ix1 k = None" "isInvalid ix1 ?b j" "?b = binOf ix1 (hash k)"
      using none j(3) by (simp_all add: ab(1) isInvalid_def ext(2) bo)
    let ?s = "\<lparr>Key = tag k, Val = slotVal k v\<rparr>"
    have s: "ok ?s" "content ?s = Some (k, v)" using fills [where s = ?s and k = k and v = v] by simp_all
    obtain i1 i2 i3 s0 where u: "storeHeader ix1 ?b (setSlotStateAndVersion (hdr ix1 ?b) (int j) SlotTrying) = Some i1"
      "slotRef i1 ?b j = Some r" "loadSlot i1 r = Some s0" "storeSlot i1 r ?s = Some i2"
      "hdr i2 ?b = setSlotStateAndVersion (hdr ix1 ?b) (int j) SlotTrying" "inBin i2 ?b"
      "storeHeader i2 ?b (setSlotStateAndVersion (setSlotStateAndVersion (hdr ix1 ?b) (int j) SlotTrying)
         (int j) SlotValid) = Some i3"
      "settled i3" "entries_wf content hash ok i3" "same_frame ix1 i3"
      "absMap content hash i3 = (absMap content hash ix1)(k \<mapsto> v)" "linksExact i3 = linksExact ix1"
      by (rule publish [OF st1 ew1 abs1(3,1) j(1) abs1(2) r s])
    have "?s = s0\<lparr>Key := tag k, Val := slotVal k v\<rparr>" by (cases s0) simp
    with u(4) have w: "storeSlot i1 r (s0\<lparr>Key := tag k, Val := slotVal k v\<rparr>) = Some i2" by simp
    obtain i' where i': "storeSlotKey i1 r (tag k) = Some i'" "atomicStoreSlotVal i' r (slotVal k v) = Some i2"
      by (rule storeKeyVal [OF u(3) w])
    have b1: "inBin ix1 ?b" using b same_geometry_inBin [OF ext(1)] by simp
    note res = CAS_hit [OF b1 refl u(1), folded reserveSlot_def]
    have fin: "finalizeSlot i2 ?b (setSlotStateAndVersion (hdr ix1 ?b) (int j) SlotTrying) (int j) = Some (True, i3)"
      unfolding finalizeSlot_def Let_def by (rule CAS_hit [OF u(6,5,7)])
    have run: "Insert_round fuel (look k) wipe ?grow zero (hash k) (tag k) (slotVal k v) (active m) m =
        Some (Ret (zero, True), putIndex m (active m) i3)"
      unfolding round using j(2) res u(2) i' fin
      by (simp add: ext(2) getSlotByIndex_ref)
    have nx: "indexNext i3 = indexNext ?ix" using u(10) ext(3) by (simp add: same_frame_def)
    have len: "length (bins i3) = length (bins ?ix)"
      using u(10) bo(2) by (simp add: same_frame_def same_geometry_def)
    note c = putIndex_current [OF g u(8) nx len]
    show ?thesis
      using j(6) by (intro stored [OF run c(1)]) (simp_all add: c(2) u(9,11,12) ab(1) len)
  qed
qed

lemma insert_loop:
  assumes safe: "sentinel_safe content hash ok avoids transferSentinel minBins"
    and B: "B \<le> 33" "2 ^ B \<le> fuel"
    and "generations m" "entries_wf content hash ok (current m)"
    "absMap content hash (current m) k = None" "minBins \<le> length (bins (current m))"
    "\<not> crowded hash (absMap content hash (current m)) B k"
    "2 ^ B \<le> length (bins (current m)) * 2 ^ d"
  shows "\<exists>m'. retryLoop (Suc d)
      (Insert_round fuel (look k) wipe (growTable fuel zv moveSlot transferSentinel) zero (hash k)
        (tag k) (slotVal k v)) (active m) m = Some (Returned (zero, True), m') \<and>
    generations m' \<and> hashConfig m' = hashConfig m \<and> entries_wf content hash ok (current m') \<and>
    absMap content hash (current m') = (absMap content hash (current m))(k \<mapsto> v) \<and>
    length (bins (current m)) \<le> length (bins (current m')) \<and>
    (linksExact (current m) \<longrightarrow> linksExact (current m'))"
  using assms(4-)
proof (induction d arbitrary: m)
  case (0 m)
  have st: "settled (current m)" using 0(1) by (rule generations_settled)
  have free: "\<exists>j<3. isInvalid (current m) (binOf (current m) (hash k)) j"
    using full_primary_crowded [OF st 0(2), of B k] 0(5,6) by auto
  show ?case
  proof (rule round_new [OF safe 0(1-3) disjI1 [OF free], of fuel wipe zv zero v])
    fix m' assume "Insert_round fuel (look k) wipe (growTable fuel zv moveSlot transferSentinel) zero
        (hash k) (tag k) (slotVal k v) (active m) m = Some (Ret (zero, True), m')"
      "generations m'" "hashConfig m' = hashConfig m" "entries_wf content hash ok (current m')"
      "absMap content hash (current m') = (absMap content hash (current m))(k \<mapsto> v)"
      "length (bins (current m')) = length (bins (current m))"
      "linksExact (current m) \<Longrightarrow> linksExact (current m')"
    then show ?thesis by (intro exI [of _ m']) simp
  next
    assume "\<forall>j<3. \<not> isInvalid (current m) (binOf (current m) (hash k)) j"
    with free show ?thesis by blast
  qed
next
  case (Suc d m)
  let ?ix = "current m"
  have st: "settled ?ix" using Suc.prems(1) by (rule generations_settled)
  obtain n where n: "length (bins ?ix) = 2 ^ n" "n \<le> 33"
    using settledD(3) [OF st] by (auto simp: shape_def)
  have room: "(\<exists>j<3. isInvalid ?ix (binOf ?ix (hash k)) j) \<or>
      minBins \<le> length (bins ?ix) \<and> length (bins ?ix) \<le> 2 ^ 32 \<and>
      chunkCount (length (bins ?ix)) \<le> fuel \<and> 0 < fuel"
  proof (cases "2 ^ B \<le> length (bins ?ix)")
    case True
    then show ?thesis using full_primary_crowded [OF st Suc.prems(2), of B k] Suc.prems(5) by auto
  next
    case False
    then have "n < B" using n(1) by (simp add: not_le)
    then have "n \<le> 32" using B(1) by simp
    then have "(2::nat) ^ n \<le> 2 ^ 32" by (intro power_increasing) simp_all
    moreover
    have "chunkCount (length (bins ?ix)) \<le> length (bins ?ix)"
      by (rule chunkCount_le_self) (simp add: n(1))
    then have "chunkCount (length (bins ?ix)) \<le> fuel" using False B(2) by linarith
    moreover have "0 < fuel" using B(2) by (cases fuel) simp_all
    ultimately show ?thesis using Suc.prems(4) n by simp
  qed
  show ?case
  proof (rule round_new [OF safe Suc.prems(1-3) room])
    fix m' assume "Insert_round fuel (look k) wipe (growTable fuel zv moveSlot transferSentinel) zero
        (hash k) (tag k) (slotVal k v) (active m) m = Some (Ret (zero, True), m')"
      "generations m'" "hashConfig m' = hashConfig m" "entries_wf content hash ok (current m')"
      "absMap content hash (current m') = (absMap content hash (current m))(k \<mapsto> v)"
      "length (bins (current m')) = length (bins (current m))"
      "linksExact (current m) \<Longrightarrow> linksExact (current m')"
    then show ?thesis by (intro exI [of _ m']) simp
  next
    fix m' assume r: "Insert_round fuel (look k) wipe (growTable fuel zv moveSlot transferSentinel) zero
        (hash k) (tag k) (slotVal k v) (active m) m = Some (Goto (active m'), m')"
      "generations m'" "hashConfig m' = hashConfig m" "entries_wf content hash ok (current m')"
      "absMap content hash (current m') = absMap content hash (current m)"
      "2 * length (bins (current m)) \<le> length (bins (current m'))" "linksExact (current m')"
    have "2 ^ B \<le> (2 * length (bins ?ix)) * 2 ^ d" using Suc.prems(6) by simp
    also have "\<dots> \<le> length (bins (current m')) * 2 ^ d" using r(6) by (intro mult_le_mono1)
    finally have grown: "2 ^ B \<le> length (bins (current m')) * 2 ^ d" .
    have pre: "absMap content hash (current m') k = None" "minBins \<le> length (bins (current m'))"
      "\<not> crowded hash (absMap content hash (current m')) B k"
      using r(5,6) Suc.prems(3-5) by simp_all
    obtain m2 where m2: "retryLoop (Suc d)
        (Insert_round fuel (look k) wipe (growTable fuel zv moveSlot transferSentinel) zero (hash k)
          (tag k) (slotVal k v)) (active m') m' = Some (Returned (zero, True), m2)"
      "generations m2" "hashConfig m2 = hashConfig m'" "entries_wf content hash ok (current m2)"
      "absMap content hash (current m2) = (absMap content hash (current m'))(k \<mapsto> v)"
      "length (bins (current m')) \<le> length (bins (current m2))" "linksExact (current m2)"
      using Suc.IH [OF r(2,4) pre grown] r(7) by blast
    have "retryLoop (Suc (Suc d))
        (Insert_round fuel (look k) wipe (growTable fuel zv moveSlot transferSentinel) zero (hash k)
          (tag k) (slotVal k v)) (active m) m = Some (Returned (zero, True), m2)"
      unfolding retryLoop.simps(2) [of "Suc d"] r(1) by (simp only: Option.bind.simps prod.case ctl.case m2(1))
    then show ?thesis using m2(2-7) r(3,5,6) by (intro exI [of _ m2]) simp
  qed
qed

end

end
