(* ===== verification/InlineGet.thy ===== *)
theory InlineGet
  imports SlotUpdate
begin

text \<open>
  The inline package: a slot holds the key itself and an integer value. This theory has its
  types and conversions, the two searches of the link buckets, \<open>Get\<close> and \<open>Contains\<close>, and
  instantiates the search interface. Values are words \<open>'a word\<close> of at most 64 bits; \<open>isSigned\<close>
  says whether Go's type is signed. \<open>maphash.Comparable\<close> is the parameter \<open>cmp\<close>.
\<close>

section \<open>Types\<close>

text \<open>\<open>uint64(value)\<close> extends with the sign or with zeros; \<open>V(raw)\<close> truncates.\<close>

definition toRaw :: "bool \<Rightarrow> 'a::len word \<Rightarrow> 64 word" where
  "toRaw isSigned newValue = (if isSigned then scast newValue else ucast newValue)"

definition fromRaw :: "64 word \<Rightarrow> 'a::len word" where
  "fromRaw raw = ucast raw"

lemma fromRaw_toRaw:
  assumes "LENGTH('a) \<le> 64"
  shows "fromRaw (toRaw isSigned (v :: 'a::len word)) = v"
proof (rule bit_word_eqI)
  fix n assume "n < LENGTH('a)"
  then show "bit (fromRaw (toRaw isSigned v) :: 'a word) n = bit v n"
    using assms by (auto simp: fromRaw_def toRaw_def bit_simps)
qed

record 's InlineHashConfig =
  inlineSeed :: 's
  SentinelForEvenBins :: "64 word"
  SentinelForOddBins :: "64 word"

type_synonym 's IMap = "(64 word, 's InlineHashConfig) Map"

section \<open>Searching the link buckets\<close>

text \<open>\<open>rawValue\<close> is an option: \<open>found\<close> with \<open>raw\<close>, or not found.\<close>

definition inlineProbeLinkBucket ::
  "64 word index \<Rightarrow> 64 word \<Rightarrow> 32 word \<Rightarrow> 32 word \<Rightarrow> int \<Rightarrow> 64 word option option" where
  "inlineProbeLinkBucket ix key l vm4 base = do {
     b \<leftarrow> getLinkBucket ix l;
     eq \<leftarrow> matchLinkBucketKeys b vm4 key;
     scanBits (\<lambda>slotIdx. do {
       s \<leftarrow> linkSlotAt b slotIdx;
       Some (Some (Val s)) }) eq }"

definition inlineScanLinksForKey ::
  "64 word index \<Rightarrow> 64 word \<Rightarrow> 64 word \<Rightarrow> 64 word \<Rightarrow> 64 word option option" where
  "inlineScanLinksForKey ix b h key = do {
     pb \<leftarrow> getBinByIndex ix b;
     overLinks (inlineProbeLinkBucket ix key) h (LinkMeta pb) }"

definition inlineFindKeyInLinkBucket ::
  "64 word index \<Rightarrow> 64 word \<Rightarrow> 32 word \<Rightarrow> 32 word \<Rightarrow> int \<Rightarrow> (int \<times> SlotRef \<times> 64 word) option option" where
  "inlineFindKeyInLinkBucket ix key l vm4 baseSlotIdx = do {
     b \<leftarrow> getLinkBucket ix l;
     eq \<leftarrow> matchLinkBucketKeys b vm4 key;
     scanBits (\<lambda>slotIdx. do {
       s \<leftarrow> linkSlotAt b slotIdx;
       Some (Some (baseSlotIdx + slotIdx, LinkSlot l slotIdx, Val s)) }) eq }"

definition inlineFindKeyInLinks ::
  "64 word index \<Rightarrow> 64 word \<Rightarrow> 64 word \<Rightarrow> 64 word \<Rightarrow> (int \<times> SlotRef \<times> 64 word) option option" where
  "inlineFindKeyInLinks ix b h0 key = do {
     pb \<leftarrow> getBinByIndex ix b;
     overLinks (inlineFindKeyInLinkBucket ix key) h0 (LinkMeta pb) }"

section \<open>Get\<close>

definition inlineGet_round ::
  "('s \<Rightarrow> 64 word \<Rightarrow> 64 word) \<Rightarrow> 's IMap \<Rightarrow> 64 word \<Rightarrow> nat \<Rightarrow> ('a::len word \<times> bool) ctl option" where
  "inlineGet_round cmp m key idx = do {
     let hash = cmp (inlineSeed (hashConfig m)) key;
     ix \<leftarrow> indexAt m idx;
     pb \<leftarrow> getBin ix hash;
     let b = binOf ix hash;
     let h0 = Header pb;
     guard \<leftarrow> binGuard m idx h0;
     (case guard of
        Some idx' \<Rightarrow> Some (Goto idx')
      | None \<Rightarrow> do {
          bitmap \<leftarrow> matchPrimaryBucketKeys pb h0 key;
          r \<leftarrow> scanBits (\<lambda>slotIdx. do {
            s \<leftarrow> slotAt pb slotIdx;
            let val = Val s;
            h1 \<leftarrow> atomicLoadHeader ix b;
            Some (Some (if h0 \<noteq> h1 then Goto idx else Ret (fromRaw val, True))) }) bitmap;
          (case r of
             Some c \<Rightarrow> Some c
           | None \<Rightarrow> do {
               val \<leftarrow> inlineScanLinksForKey ix b h0 key;
               h1 \<leftarrow> atomicLoadHeader ix b;
               Some (if h0 \<noteq> h1 then Goto idx
                     else case val of Some v \<Rightarrow> Ret (fromRaw v, True)
                          | None \<Rightarrow> Ret (0, False)) }) }) }"

definition inlineGet ::
  "nat \<Rightarrow> ('s \<Rightarrow> 64 word \<Rightarrow> 64 word) \<Rightarrow> 's IMap \<Rightarrow> 64 word \<Rightarrow> ('a::len word \<times> bool) run option" where
  "inlineGet fuel cmp m key = retryRead fuel (inlineGet_round cmp m key) (getActiveIndex m)"

definition inlineContains ::
  "'a::len itself \<Rightarrow> nat \<Rightarrow> ('s \<Rightarrow> 64 word \<Rightarrow> 64 word) \<Rightarrow> 's IMap \<Rightarrow> 64 word \<Rightarrow> bool run option" where
  "inlineContains _ fuel cmp m key =
     map_option (map_run snd) (inlineGet fuel cmp m key :: ('a word \<times> bool) run option)"

section \<open>The slots of the package\<close>

definition pairContent :: "64 word Slot \<Rightarrow> (64 word \<times> 64 word) option" where
  "pairContent s = Some (Key s, Val s)"

interpretation inl: slot_codec "\<lambda>k. k" "\<lambda>_ _. True" pairContent "\<lambda>_. True"
  by unfold_locales (simp add: pairContent_def)

definition inlineHashOf :: "('s \<Rightarrow> 64 word \<Rightarrow> 64 word) \<Rightarrow> 's IMap \<Rightarrow> 64 word \<Rightarrow> 64 word" where
  "inlineHashOf cmp m = cmp (inlineSeed (hashConfig m))"

definition inlineConsistent :: "('s \<Rightarrow> 64 word \<Rightarrow> 64 word) \<Rightarrow> 's IMap \<Rightarrow> bool" where
  "inlineConsistent cmp m \<longleftrightarrow> generations m \<and>
     entries_wf pairContent (inlineHashOf cmp m) (\<lambda>_. True) (current m)"

text \<open>The raw contents, and the contents as values of the integer type.\<close>

definition inlineRaw :: "('s \<Rightarrow> 64 word \<Rightarrow> 64 word) \<Rightarrow> 's IMap \<Rightarrow> 64 word \<Rightarrow> 64 word option" where
  "inlineRaw cmp m = absMap pairContent (inlineHashOf cmp m) (current m)"

definition inlineAbs :: "('s \<Rightarrow> 64 word \<Rightarrow> 64 word) \<Rightarrow> 's IMap \<Rightarrow> 64 word \<Rightarrow> 'a::len word option" where
  "inlineAbs cmp m key = map_option fromRaw (inlineRaw cmp m key)"

section \<open>What the searches compute\<close>

text \<open>The first of the given slots that is visible and holds the key.\<close>

definition keyPick :: "64 word index \<Rightarrow> 64 word \<Rightarrow> 64 word \<Rightarrow> nat list \<Rightarrow> (nat \<times> 64 word Slot) option" where
  "keyPick ix b key = pick (slotTest ix b key (\<lambda>i s. Some s))"

lemma keyPick_map:
  "pick (slotTest ix b key (\<lambda>i s. Some (h i s))) xs = map_option (\<lambda>(i, s). (i, h i s)) (keyPick ix b key xs)"
  using slotTest_map [of ix b key h "\<lambda>i s. Some s"] by (simp add: pick_map keyPick_def)

lemma keyPick_all:
  "keyPick ix b key [0..<15] = (case keyPick ix b key primarySlots of
     Some r \<Rightarrow> Some r | None \<Rightarrow> keyPick ix b key linkSlots)"
  unfolding keyPick_def by (rule pick_upt_15)

lemma key_primary_search:
  assumes wf: "wf_index ix" "inBin ix b"
    and f: "\<And>j s. j < 3 \<Longrightarrow> slotAt (bins ix ! unat b) (int j) = Some s \<Longrightarrow> f (int j) = Some (Some (h j s))"
  obtains bm where "matchPrimaryBucketKeys (bins ix ! unat b) (hdr ix b) key = Some bm"
    "scanBits f bm = Some (map_option (\<lambda>(i, s). h i s) (keyPick ix b key primarySlots))"
  by (rule primary_pick [OF wf, of f "\<lambda>j s. Some (h j s)" key])
    (use f that in \<open>auto simp: keyPick_map option.map_comp comp_def case_prod_beta'\<close>)

lemma inlineScanLinksForKey_pick:
  assumes wf: "wf_index ix" "inBin ix b"
  shows "inlineScanLinksForKey ix b (hdr ix b) key =
    Some (map_option (\<lambda>(i, s). Val s) (keyPick ix b key linkSlots))"
proof -
  let ?g = "\<lambda>(i :: nat) s. Some (Val s)"
  have "inlineProbeLinkBucket ix key (linkAt ix b u) (validMask4 (hdr ix b) (3 + 4 * u)) (int (3 + 4 * u)) =
      Some (map_option snd (pick (\<lambda>j. slotTest ix b key ?g (3 + 4 * u + j)) [0, 1, 2, 3]))"
    if "u < 3" "linkAt ix b u \<noteq> 0" for u
    using link_pick [OF wf that refl, of "\<lambda>lb slotIdx. do { s \<leftarrow> linkSlotAt lb slotIdx;
        Some (Some (Val s)) }" ?g key]
    by (force simp: inlineProbeLinkBucket_def)
  then have "overLinks (inlineProbeLinkBucket ix key) (hdr ix b) (lmeta ix b) =
      Some (map_option snd (pick (slotTest ix b key ?g) linkSlots))"
    by (rule overLinks_pick [OF wf])
  then show ?thesis
    unfolding keyPick_map using wf(2)
    by (simp add: inlineScanLinksForKey_def lmeta_def option.map_comp comp_def case_prod_beta')
qed

lemma inlineFindKeyInLinks_pick:
  assumes wf: "wf_index ix" "inBin ix b"
  shows "inlineFindKeyInLinks ix b (hdr ix b) key =
    Some (map_option (\<lambda>(i, s). (int i, the (slotRef ix b i), Val s)) (keyPick ix b key linkSlots))"
proof -
  let ?g = "\<lambda>i s. Some (int i, the (slotRef ix b i), Val s)"
  have "inlineFindKeyInLinkBucket ix key (linkAt ix b u) (validMask4 (hdr ix b) (3 + 4 * u)) (int (3 + 4 * u)) =
      Some (map_option snd (pick (\<lambda>j. slotTest ix b key ?g (3 + 4 * u + j)) [0, 1, 2, 3]))"
    if u: "u < 3" "linkAt ix b u \<noteq> 0" for u
  proof -
    let ?f = "\<lambda>lb slotIdx. do { s \<leftarrow> linkSlotAt lb slotIdx;
        Some (Some (int (3 + 4 * u) + slotIdx, LinkSlot (linkAt ix b u) slotIdx, Val s)) }"
    have "?f lb (int j) = Some (?g (3 + 4 * u + j) s)"
      if "j < 4" "linkSlotAt lb (int j) = Some s" for lb j s
      using that u wf(2) by (simp add: slotRef_link)
    then show ?thesis
      using link_pick [OF wf u refl, of ?f ?g key] by (force simp: inlineFindKeyInLinkBucket_def)
  qed
  then have "overLinks (inlineFindKeyInLinkBucket ix key) (hdr ix b) (lmeta ix b) =
      Some (map_option snd (pick (slotTest ix b key ?g) linkSlots))"
    by (rule overLinks_pick [OF wf])
  then show ?thesis
    unfolding keyPick_map using wf(2)
    by (simp add: inlineFindKeyInLinks_def lmeta_def option.map_comp comp_def case_prod_beta')
qed

lemma key_search:
  assumes wf: "wf_index ix" and ew: "entries_wf pairContent hash (\<lambda>_. True) ix"
    and b: "b = binOf ix (hash key)"
  obtains (found) i s where "keyPick ix b key [0..<15] = Some (i, s)" "view ix b i = Some s"
    "Key s = key" "i < 15" "absMap pairContent hash ix key = Some (Val s)"
    "slotEntry pairContent ix b i = Some (key, Val s)"
  | (missing) "keyPick ix b key [0..<15] = None" "absMap pairContent hash ix key = None"
proof (rule inl.search_cases [OF wf ew b, of "\<lambda>i s. Some s" "\<lambda>i s. s"])
  fix i s v
  assume a: "pick (slotTest ix b key (\<lambda>i. Some)) [0..<15] = Some (i, s)" "i < 15"
    "view ix b i = Some s" "pairContent s = Some (key, v)" "absMap pairContent hash ix key = Some v"
  then have v: "v = Val s" "Key s = key" by (simp_all add: pairContent_def)
  have "slotEntry pairContent ix b i = Some (key, Val s)"
    using a(4) by (simp add: slotEntry_def a(3) v)
  then show thesis using a v by (intro found) (simp_all add: keyPick_def)
next
  assume "pick (slotTest ix b key (\<lambda>i. Some)) [0..<15] = None" "absMap pairContent hash ix key = None"
  then show thesis by (intro missing) (simp_all add: keyPick_def)
qed simp

end
