(* ===== verification/InlineUpdate.thy ===== *)
theory InlineUpdate
  imports InlineGet
begin

text \<open>
  \<open>Put\<close> and \<open>Delete\<close> of the inline package (put.go, delete.go). \<open>Put\<close> swaps the two words
  of the slot; \<open>Delete\<close> only changes the slot's state in the header and leaves both words.
\<close>

section \<open>Put\<close>

definition inlineFindTarget ::
  "64 word index \<Rightarrow> 64 word PrimaryBucket \<Rightarrow> 64 word \<Rightarrow> 64 word \<Rightarrow> 64 word \<Rightarrow>
     (int \<times> SlotRef \<times> 64 word) option option" where
  "inlineFindTarget ix pb b h0 key = do {
     bitmap \<leftarrow> matchPrimaryBucketKeys pb h0 key;
     r \<leftarrow> scanBits (\<lambda>slotIdx. do {
       s \<leftarrow> slotAt pb slotIdx;
       Some (Some (slotIdx, PrimarySlot b slotIdx, Val s)) }) bitmap;
     (case r of Some t \<Rightarrow> Some (Some t) | None \<Rightarrow> inlineFindKeyInLinks ix b h0 key) }"

fun inlinePut_loop ::
  "nat \<Rightarrow> 64 word \<Rightarrow> 64 word \<Rightarrow> int \<Rightarrow> SlotRef \<Rightarrow> 64 word \<Rightarrow> nat \<Rightarrow> 's IMap \<Rightarrow>
     (('a::len word \<times> bool) ctl \<times> 's IMap) option" where
  "inlinePut_loop 0 key b targetIdx targetSlot newRawValue idx m = Some (Spin, m)"
| "inlinePut_loop (Suc n) key b targetIdx targetSlot newRawValue idx m = do {
     ix \<leftarrow> indexAt m idx;
     hLoop \<leftarrow> atomicLoadHeader ix b;
     (if getSlotState hLoop targetIdx \<noteq> SlotValid then Some (Goto idx, m)
      else do {
        curKey \<leftarrow> loadSlotKey ix targetSlot;
        (if curKey \<noteq> key then Some (Goto idx, m)
         else do {
           val \<leftarrow> atomicLoadSlotVal ix targetSlot;
           h \<leftarrow> atomicLoadHeader ix b;
           (if h \<noteq> hLoop then inlinePut_loop n key b targetIdx targetSlot newRawValue idx m
            else do {
              val' \<leftarrow> atomicLoadSlotVal ix targetSlot;
              (if val' \<noteq> val then inlinePut_loop n key b targetIdx targetSlot newRawValue idx m
               else do {
                 (ok, ix') \<leftarrow> DWCAS (=) ix targetSlot curKey val curKey newRawValue;
                 (if ok then Some (Ret (fromRaw val, True), putIndex m idx ix')
                  else inlinePut_loop n key b targetIdx targetSlot newRawValue idx m) }) }) }) }) }"

definition inlinePut_round ::
  "nat \<Rightarrow> bool \<Rightarrow> ('s \<Rightarrow> 64 word \<Rightarrow> 64 word) \<Rightarrow> 64 word \<Rightarrow> 'a::len word \<Rightarrow> nat \<Rightarrow> 's IMap \<Rightarrow>
     (('a word \<times> bool) ctl \<times> 's IMap) option" where
  "inlinePut_round fuel isSigned cmp key newValue idx m = do {
     let hash = cmp (inlineSeed (hashConfig m)) key;
     ix \<leftarrow> indexAt m idx;
     pb \<leftarrow> getBin ix hash;
     let b = binOf ix hash;
     let h0 = Header pb;
     guard \<leftarrow> binGuard m idx h0;
     (case guard of
        Some idx' \<Rightarrow> Some (Goto idx', m)
      | None \<Rightarrow> do {
          target \<leftarrow> inlineFindTarget ix pb b h0 key;
          h1 \<leftarrow> atomicLoadHeader ix b;
          (if h0 \<noteq> h1 then Some (Goto idx, m)
           else case target of
             None \<Rightarrow> Some (Ret (0, False), m)
           | Some (targetIdx, targetSlot, targetVal) \<Rightarrow> do {
               let newRawValue = toRaw isSigned newValue;
               (ok, ix') \<leftarrow> DWCAS (=) ix targetSlot key targetVal key newRawValue;
               (if ok then Some (Ret (fromRaw targetVal, True), putIndex m idx ix')
                else inlinePut_loop fuel key b targetIdx targetSlot newRawValue idx m) }) }) }"

definition inlinePut ::
  "nat \<Rightarrow> bool \<Rightarrow> ('s \<Rightarrow> 64 word \<Rightarrow> 64 word) \<Rightarrow> 's IMap \<Rightarrow> 64 word \<Rightarrow> 'a::len word \<Rightarrow>
     (('a word \<times> bool) run \<times> 's IMap) option" where
  "inlinePut fuel isSigned cmp m key newValue =
     retryLoop fuel (inlinePut_round fuel isSigned cmp key newValue) (getActiveIndex m) m"

section \<open>Delete\<close>

definition inlineDelete_round ::
  "('s \<Rightarrow> 64 word \<Rightarrow> 64 word) \<Rightarrow> 64 word \<Rightarrow> nat \<Rightarrow> 's IMap \<Rightarrow> (bool ctl \<times> 's IMap) option" where
  "inlineDelete_round cmp key idx m = do {
     let hash = cmp (inlineSeed (hashConfig m)) key;
     ix \<leftarrow> indexAt m idx;
     pb \<leftarrow> getBin ix hash;
     let b = binOf ix hash;
     let h0 = Header pb;
     guard \<leftarrow> binGuard m idx h0;
     (case guard of
        Some idx' \<Rightarrow> Some (Goto idx', m)
      | None \<Rightarrow> do {
          bitmap \<leftarrow> matchPrimaryBucketKeys pb h0 key;
          r \<leftarrow> scanBits (\<lambda>slotIdx. Some (Some slotIdx)) bitmap;
          target \<leftarrow> (case r of
                      Some slotIdx \<Rightarrow> Some (Some slotIdx)
                    | None \<Rightarrow> do {
                        t \<leftarrow> inlineFindKeyInLinks ix b h0 key;
                        Some (map_option fst t) });
          h1 \<leftarrow> atomicLoadHeader ix b;
          (if h0 \<noteq> h1 then Some (Goto idx, m)
           else case target of
             None \<Rightarrow> Some (Ret False, m)
           | Some targetSlotIdx \<Rightarrow> do {
               let newH = setSlotStateAndVersion h0 targetSlotIdx SlotInvalid;
               (ok, ix') \<leftarrow> atomicCASHeader ix b h0 newH;
               Some (if ok then Ret True else Goto idx, putIndex m idx ix') }) }) }"

definition inlineDelete ::
  "nat \<Rightarrow> ('s \<Rightarrow> 64 word \<Rightarrow> 64 word) \<Rightarrow> 's IMap \<Rightarrow> 64 word \<Rightarrow> (bool run \<times> 's IMap) option" where
  "inlineDelete fuel cmp m key = retryLoop fuel (inlineDelete_round cmp key) (getActiveIndex m) m"

section \<open>Get returns the abstract value\<close>

lemma inlineConsistentD:
  assumes "inlineConsistent cmp m"
  shows "generations m" "settled (current m)" "wf_index (current m)"
    "entries_wf pairContent (inlineHashOf cmp m) (\<lambda>_. True) (current m)"
    "inBin (current m) (binOf (current m) h)"
    "atomicLoadHeader (current m) (binOf (current m) h) = Some (hdr (current m) (binOf (current m) h))"
proof -
  show g: "generations m" "entries_wf pairContent (inlineHashOf cmp m) (\<lambda>_. True) (current m)"
    using assms by (auto simp: inlineConsistent_def)
  show st: "settled (current m)" using g(1) by (rule generations_settled)
  show "wf_index (current m)" using settledD(1) [OF st] .
  show "inBin (current m) (binOf (current m) h)" using binOf_in [OF settledD(3) [OF st]] .
  then show "atomicLoadHeader (current m) (binOf (current m) h) =
      Some (hdr (current m) (binOf (current m) h))"
    by (simp add: atomicLoadHeader_def hdr_def)
qed

lemma inlineGet_round_current:
  fixes m :: "'s IMap"
  assumes "inlineConsistent cmp m"
  shows "inlineGet_round cmp m key (active m) =
    Some (Ret (case inlineAbs cmp m key of Some v \<Rightarrow> (v :: 'a::len word, True) | None \<Rightarrow> (0, False)))"
proof -
  let ?ix = "current m" and ?hash = "inlineHashOf cmp m key"
  let ?b = "binOf ?ix ?hash"
  note c = inlineConsistentD [OF assms]
  let ?f = "\<lambda>slotIdx. do { s \<leftarrow> slotAt (bins ?ix ! unat ?b) slotIdx;
       h1 \<leftarrow> atomicLoadHeader ?ix ?b;
       Some (Some (if hdr ?ix ?b \<noteq> h1 then Goto (active m) else Ret (fromRaw (Val s) :: 'a word, True))) }"
  obtain bm where bm: "matchPrimaryBucketKeys (bins ?ix ! unat ?b) (hdr ?ix ?b) key = Some bm"
    "scanBits ?f bm =
      Some (map_option (\<lambda>(i, s). Ret (fromRaw (Val s), True)) (keyPick ?ix ?b key primarySlots))"
    by (rule key_primary_search [OF c(3) c(5) [of "inlineHashOf cmp m key"], of ?f "\<lambda>i s. Ret (fromRaw (Val s), True)" key])
      (auto simp: c(6))
  have "inlineGet_round cmp m key (active m) = Some (case keyPick ?ix ?b key [0..<15] of
      Some (i, s) \<Rightarrow> Ret (fromRaw (Val s) :: 'a word, True) | None \<Rightarrow> Ret (0, False))"
    unfolding inlineGet_round_def Let_def getBin_def keyPick_all inlineHashOf_def [symmetric]
      indexAt_active [OF c(1)] Option.bind.simps getBinByIndex_in [OF c(5)] hdr_def [symmetric]
      binGuard_settled [OF c(2,5)] option.case bm inlineScanLinksForKey_pick [OF c(3,5)]
    unfolding c(6) by (auto split: option.splits)
  also have "\<dots> = Some (Ret (case inlineAbs cmp m key of Some v \<Rightarrow> (v, True) | None \<Rightarrow> (0, False)))"
    by (rule key_search [OF c(3,4) refl, of key]) (simp_all add: inlineAbs_def inlineRaw_def)
  finally show ?thesis .
qed

section \<open>Put and Delete change the abstract map at the key\<close>

lemma inlineConsistent_put:
  assumes "inlineConsistent cmp m" "settled ix'" "same_frame (current m) ix'"
    "entries_wf pairContent (inlineHashOf cmp m) (\<lambda>_. True) ix'"
    "absMap pairContent (inlineHashOf cmp m) ix' = M"
  defines "m' \<equiv> putIndex m (active m) ix'"
  shows "inlineConsistent cmp m'" "inlineRaw cmp m' = M" "hashConfig m' = hashConfig m" "active m' = active m"
    "length (bins (current m')) = length (bins (current m))"
proof -
  have *: "generations m" "indexNext ix' = indexNext (current m)"
    "length (bins ix') = length (bins (current m))"
    using assms(1,3) by (simp_all add: inlineConsistent_def same_frame_def same_geometry_def)
  note c = putIndex_current [OF *(1) assms(2) *(2,3)]
  have h: "inlineHashOf cmp m' = inlineHashOf cmp m" by (simp add: inlineHashOf_def m'_def)
  show "inlineConsistent cmp m'" "inlineRaw cmp m' = M" "hashConfig m' = hashConfig m" "active m' = active m"
    "length (bins (current m')) = length (bins (current m))"
    using assms(3-5) c h
    by (simp_all add: inlineConsistent_def inlineRaw_def m'_def same_frame_def same_geometry_def)
qed

text \<open>The successful search of Put and Delete, with the slot it found.\<close>

lemma inline_target:
  fixes m :: "'s IMap" and key :: "64 word"
  assumes "inlineConsistent cmp m"
  defines "ix \<equiv> current m" and "b \<equiv> binOf (current m) (inlineHashOf cmp m key)"
  obtains (found) i r s where
    "inlineFindTarget ix (bins ix ! unat b) b (hdr ix b) key = Some (Some (int i, r, Val s))"
    "keyPick ix b key [0..<15] = Some (i, s)"
    "inlineRaw cmp m key = Some (Val s)" "slotRef ix b i = Some r" "loadSlot ix r = Some s"
    "Key s = key" "i < 15" "slotEntry pairContent ix b i = Some (key, Val s)"
  | (missing) "inlineFindTarget ix (bins ix ! unat b) b (hdr ix b) key = Some None"
    "keyPick ix b key [0..<15] = None" "inlineRaw cmp m key = None"
proof -
  note c = inlineConsistentD [OF assms(1), folded ix_def]
  have b: "inBin ix b" unfolding b_def ix_def [symmetric] by (rule c(5))
  let ?h = "\<lambda>i s. (int i, PrimarySlot b (int i), Val s)"
  let ?f = "\<lambda>slotIdx. do { s \<leftarrow> slotAt (bins ix ! unat b) slotIdx;
       Some (Some (slotIdx, PrimarySlot b slotIdx, Val s)) }"
  obtain bm where bm: "matchPrimaryBucketKeys (bins ix ! unat b) (hdr ix b) key = Some bm"
    "scanBits ?f bm = Some (map_option (\<lambda>(i, s). ?h i s) (keyPick ix b key primarySlots))"
    by (rule key_primary_search [OF c(3) b, of ?f ?h key]) auto
  have "map_option (\<lambda>(i, s). ?h i s) (keyPick ix b key primarySlots) =
      map_option (\<lambda>(i, s). (int i, the (slotRef ix b i), Val s)) (keyPick ix b key primarySlots)"
  proof (cases "keyPick ix b key primarySlots")
    case (Some p)
    then have "fst p \<in> set primarySlots" using pick_Some by (cases p) (force simp: keyPick_def)
    then have "fst p < 3" by (auto simp: primarySlots_def)
    with Some show ?thesis by (simp add: slotRef_primary case_prod_beta)
  qed simp
  then have ft: "inlineFindTarget ix (bins ix ! unat b) b (hdr ix b) key =
      Some (map_option (\<lambda>(i, s). (int i, the (slotRef ix b i), Val s)) (keyPick ix b key [0..<15]))"
    unfolding inlineFindTarget_def bm inlineFindKeyInLinks_pick [OF c(3) b] keyPick_all Option.bind.simps
    by (simp split: option.splits)
  have ab: "inlineRaw cmp m key = absMap pairContent (inlineHashOf cmp m) ix key"
    by (simp add: inlineRaw_def ix_def)
  show ?thesis
  proof (rule key_search [OF c(3,4), of b key])
    show "b = binOf ix (inlineHashOf cmp m key)" by (simp add: b_def ix_def)
  next
    fix i s
    assume a: "keyPick ix b key [0..<15] = Some (i, s)" "view ix b i = Some s" "Key s = key" "i < 15"
      "absMap pairContent (inlineHashOf cmp m) ix key = Some (Val s)"
      "slotEntry pairContent ix b i = Some (key, Val s)"
    obtain r where r: "slotRef ix b i = Some r" "loadSlot ix r = Some s"
      using a(2) by (auto simp: view_def slotIn_def split: if_splits bind_splits)
    with a ft ab show thesis by (intro found) auto
  next
    assume "keyPick ix b key [0..<15] = None" "absMap pairContent (inlineHashOf cmp m) ix key = None"
    with ft ab show thesis by (intro missing) auto
  qed
qed


lemma inlinePut_round_current:
  fixes m :: "'s IMap" and newValue :: "'a::len word"
  assumes "inlineConsistent cmp m"
  shows "\<exists>m'. inlinePut_round fuel isSigned cmp key newValue (active m) m =
      Some (Ret (case inlineAbs cmp m key of Some v \<Rightarrow> (v, True) | None \<Rightarrow> (0, False)), m') \<and>
    inlineConsistent cmp m' \<and> hashConfig m' = hashConfig m \<and>
    length (bins (current m')) = length (bins (current m)) \<and>
    inlineRaw cmp m' = (if inlineRaw cmp m key = None then inlineRaw cmp m
      else (inlineRaw cmp m)(key \<mapsto> toRaw isSigned newValue))"
proof -
  let ?ix = "current m" let ?b = "binOf ?ix (inlineHashOf cmp m key)"
  note c = inlineConsistentD [OF assms]
  note round = inlinePut_round_def Let_def getBin_def inlineHashOf_def [symmetric]
    indexAt_active [OF c(1)] Option.bind.simps getBinByIndex_in [OF c(5)] hdr_def [symmetric]
    binGuard_settled [OF c(2,5)] option.case c(6)
  show ?thesis
  proof (rule inline_target [OF assms, of key])
    fix i r s
    assume f: "inlineFindTarget ?ix (bins ?ix ! unat ?b) ?b (hdr ?ix ?b) key = Some (Some (int i, r, Val s))"
      "inlineRaw cmp m key = Some (Val s)" "slotRef ?ix ?b i = Some r" "loadSlot ?ix r = Some s"
      "Key s = key" "slotEntry pairContent ?ix ?b i = Some (key, Val s)"
    let ?s = "s\<lparr>Key := key, Val := toRaw isSigned newValue\<rparr>"
    have "pairContent ?s = Some (key, toRaw isSigned newValue)" by (simp add: pairContent_def)
    from rewrite_slot [OF c(2,4) refl f(6,3) TrueI this]
    obtain ix' where w: "storeSlot ?ix r ?s = Some ix'" "settled ix'"
      "entries_wf pairContent (inlineHashOf cmp m) (\<lambda>_. True) ix'" "same_frame ?ix ix'"
      "absMap pairContent (inlineHashOf cmp m) ix' =
         (absMap pairContent (inlineHashOf cmp m) ?ix)(key \<mapsto> toRaw isSigned newValue)"
      "linksExact ix' = linksExact ?ix" .
    have dw: "DWCAS (=) ?ix r key (Val s) key (toRaw isSigned newValue) = Some (True, ix')"
      using f(4,5) w(1) by (simp add: DWCAS_def)
    have "inlinePut_round fuel isSigned cmp key newValue (active m) m =
        Some (Ret (fromRaw (Val s), True), putIndex m (active m) ix')"
      unfolding round f(1) by (simp add: dw)
    then show ?thesis
      using inlineConsistent_put [OF assms w(2,4,3,5)] f(2) by (auto simp: inlineRaw_def inlineAbs_def)
  next
    assume f: "inlineFindTarget ?ix (bins ?ix ! unat ?b) ?b (hdr ?ix ?b) key = Some None"
      "inlineRaw cmp m key = None"
    have "inlinePut_round fuel isSigned cmp key newValue (active m) m = Some (Ret (0, False), m)"
      unfolding round f(1) by simp
    with f(2) assms show ?thesis by (simp add: inlineAbs_def)
  qed
qed

lemma inlineDelete_round_current:
  fixes m :: "'s IMap"
  assumes "inlineConsistent cmp m"
  shows "\<exists>m'. inlineDelete_round cmp key (active m) m =
      Some (Ret (inlineRaw cmp m key \<noteq> None), m') \<and>
    inlineConsistent cmp m' \<and> hashConfig m' = hashConfig m \<and>
    length (bins (current m')) = length (bins (current m)) \<and>
    inlineRaw cmp m' = (inlineRaw cmp m)(key := None)"
proof -
  let ?ix = "current m" let ?b = "binOf ?ix (inlineHashOf cmp m key)"
  note c = inlineConsistentD [OF assms]
  let ?f = "\<lambda>slotIdx. Some (Some slotIdx)"
  obtain bm where bm: "matchPrimaryBucketKeys (bins ?ix ! unat ?b) (hdr ?ix ?b) key = Some bm"
    "scanBits ?f bm = Some (map_option (\<lambda>(i, s). int i) (keyPick ?ix ?b key primarySlots))"
    by (rule key_primary_search [OF c(3) c(5) [of "inlineHashOf cmp m key"], of ?f "\<lambda>i s. int i" key]) auto
  let ?t = "map_option (\<lambda>(i, s). int i) (keyPick ?ix ?b key [0..<15])"
  have round: "inlineDelete_round cmp key (active m) m = (case ?t of
      None \<Rightarrow> Some (Ret False, m)
    | Some i \<Rightarrow> do {
        (ok, ix') \<leftarrow> atomicCASHeader ?ix ?b (hdr ?ix ?b) (setSlotStateAndVersion (hdr ?ix ?b) i SlotInvalid);
        Some (if ok then Ret True else Goto (active m), putIndex m (active m) ix') })"
    unfolding inlineDelete_round_def Let_def getBin_def keyPick_all inlineHashOf_def [symmetric]
      indexAt_active [OF c(1)] Option.bind.simps getBinByIndex_in [OF c(5)] hdr_def [symmetric]
      binGuard_settled [OF c(2,5)] option.case bm inlineFindKeyInLinks_pick [OF c(3,5)] c(6)
    by (auto split: option.splits)
  show ?thesis
  proof (rule inline_target [OF assms, of key])
    fix i r s
    assume f: "keyPick ?ix ?b key [0..<15] = Some (i, s)" "inlineRaw cmp m key = Some (Val s)"
      "slotRef ?ix ?b i = Some r" "i < 15" "slotEntry pairContent ?ix ?b i = Some (key, Val s)"
    let ?h = "setSlotStateAndVersion (hdr ?ix ?b) (int i) SlotInvalid"
    have bits: "stHi ?h j = (if j = i then False else stHi (hdr ?ix ?b) j)"
      "stLo ?h j = (if j = i then False else stLo (hdr ?ix ?b) j)" if "j < 15" for j
      using that f(4) by (simp_all add: stHi_setSlot stLo_setSlot)
    have bs: "getBinState ?h = getBinState (hdr ?ix ?b)" by (rule getBinState_setSlot [OF f(4)])
    obtain ix' where w: "storeHeader ?ix ?b ?h = Some ix'" "settled ix'"
      "entries_wf pairContent (inlineHashOf cmp m) (\<lambda>_. True) ix'" "same_frame ?ix ix'"
      "absMap pairContent (inlineHashOf cmp m) ix' =
         (absMap pairContent (inlineHashOf cmp m) ?ix)(key := None)" "linksExact ix' = linksExact ?ix"
      by (rule clear_slot [OF c(2,4) refl f(5,3) bits bs disjI1 [OF refl]]) (assumption+)
    have "atomicCASHeader ?ix ?b (hdr ?ix ?b) ?h = Some (True, ix')"
      using w(1) c(5) by (simp add: atomicCASHeader_def hdr_def)
    then have "inlineDelete_round cmp key (active m) m = Some (Ret True, putIndex m (active m) ix')"
      unfolding round f(1) by simp
    then show ?thesis
      using inlineConsistent_put [OF assms w(2,4,3,5)] f(2) by (auto simp: inlineRaw_def)
  next
    assume f: "keyPick ?ix ?b key [0..<15] = None" "inlineRaw cmp m key = None"
    have "inlineDelete_round cmp key (active m) m = Some (Ret False, m)"
      unfolding round f(1) by simp
    with f(2) assms show ?thesis by (auto simp: fun_eq_iff)
  qed
qed

end
