(* ===== verification/InlineInsert.thy ===== *)
theory InlineInsert
  imports SlotInsert InlineUpdate
begin

text \<open>
  The inline package: the transfer sentinels and why no stored key of a bin equals them
  (tables of at least two bins), the transfer of a slot, \<open>Insert\<close>, and the interpretations of
  \<open>slot_transfer\<close> and \<open>slot_insert\<close>.
\<close>

section \<open>Sentinels\<close>

text \<open>
  The loop of \<open>findSentinels\<close>: \<open>even\<close> and \<open>odd\<close> are the sentinels found so far; the outer
  \<open>None\<close> is the panic after 1000 keys.
\<close>

function findSentinels_loop ::
  "('s \<Rightarrow> 64 word \<Rightarrow> 64 word) \<Rightarrow> 's \<Rightarrow> 64 word \<Rightarrow> 64 word option \<Rightarrow> 64 word option \<Rightarrow>
     (64 word \<times> 64 word) option" where
  "findSentinels_loop cmp seed k forEven forOdd =
     (let h = cmp seed k;
          forEven = (if forEven = None \<and> h AND 1 = 1 then Some k else forEven);
          forOdd = (if forOdd = None \<and> h AND 1 = 0 then Some k else forOdd)
      in case (forEven, forOdd) of
           (Some e, Some d) \<Rightarrow> Some (e, d)
         | _ \<Rightarrow> (if NOT 0 - k \<ge> 1000 then None
                 else findSentinels_loop cmp seed (k - 1) forEven forOdd))"
  by pat_completeness auto
termination
proof (relation "measure (\<lambda>(_, _, k, _, _). unat k)", goal_cases)
  case (2 cmp seed k)
  then have "k \<noteq> 0" by auto
  then show ?case by (simp add: unat_minus_one unat_gt_0)
next
  case (3 cmp seed k)
  then have "k \<noteq> 0" by auto
  then show ?case by (simp add: unat_minus_one unat_gt_0)
qed simp_all

declare findSentinels_loop.simps [simp del]

definition findSentinels :: "('s \<Rightarrow> 64 word \<Rightarrow> 64 word) \<Rightarrow> 's \<Rightarrow> (64 word \<times> 64 word) option" where
  "findSentinels cmp seed = findSentinels_loop cmp seed (NOT 0) None None"

text \<open>\<open>seed\<close> is what \<open>maphash.MakeSeed\<close> returned; \<open>None\<close> is the panic of \<open>findSentinels\<close>.\<close>

definition inlineInitHashConfig ::
  "('s \<Rightarrow> 64 word \<Rightarrow> 64 word) \<Rightarrow> 's \<Rightarrow> 's InlineHashConfig option" where
  "inlineInitHashConfig cmp seed = do {
     (even, odd) \<leftarrow> findSentinels cmp seed;
     Some \<lparr>inlineSeed = seed, SentinelForEvenBins = even, SentinelForOddBins = odd\<rparr> }"

definition inlineGetTransferSentinel :: "'s InlineHashConfig \<Rightarrow> 64 word \<Rightarrow> 64 word" where
  "inlineGetTransferSentinel cfg binIndex =
     (if binIndex AND 1 = 0 then SentinelForEvenBins cfg else SentinelForOddBins cfg)"

definition inlineIsTransferSentinelForBucket :: "'s InlineHashConfig \<Rightarrow> 64 word \<Rightarrow> 64 word \<Rightarrow> bool" where
  "inlineIsTransferSentinelForBucket cfg key binIndex \<longleftrightarrow> key = inlineGetTransferSentinel cfg binIndex"

text \<open>What the search promises: each sentinel hashes to the other parity than its bins.\<close>

definition opposed :: "('s \<Rightarrow> 64 word \<Rightarrow> 64 word) \<Rightarrow> 's InlineHashConfig \<Rightarrow> bool" where
  "opposed cmp cfg \<longleftrightarrow> odd (cmp (inlineSeed cfg) (SentinelForEvenBins cfg)) \<and>
     even (cmp (inlineSeed cfg) (SentinelForOddBins cfg))"

lemma and_one_parity: "(w :: 64 word) AND 1 = (if odd w then 1 else 0)"
  by (simp add: and_one_eq odd_iff_mod_2_eq_one even_iff_mod_2_eq_zero)

lemma both_found:
  "(case (x, y) of (Some a, Some b) \<Rightarrow> f a b | _ \<Rightarrow> z) =
     (if x = None \<or> y = None then z else f (the x) (the y))"
  by (cases x; cases y) simp_all

lemma findSentinels_loop_parity:
  assumes "findSentinels_loop cmp seed k e d = Some (a, b)"
    and "\<And>x. e = Some x \<Longrightarrow> odd (cmp seed x)" "\<And>x. d = Some x \<Longrightarrow> even (cmp seed x)"
  shows "odd (cmp seed a) \<and> even (cmp seed b)"
  using assms
proof (induction cmp seed k e d rule: findSentinels_loop.induct)
  case (1 cmp seed k e d)
  define e' where "e' = (if e = None \<and> cmp seed k AND 1 = 1 then Some k else e)"
  define d' where "d' = (if d = None \<and> cmp seed k AND 1 = 0 then Some k else d)"
  have e': "odd (cmp seed x)" if "e' = Some x" for x
    using that 1(4) by (auto simp: e'_def and_one_parity split: if_splits)
  have d': "even (cmp seed x)" if "d' = Some x" for x
    using that 1(5) by (auto simp: d'_def and_one_parity split: if_splits)
  note run = 1(3) [unfolded findSentinels_loop.simps [of cmp seed k e d] Let_def,
      folded e'_def d'_def, unfolded both_found]
  note IH = 1(1,2) [OF refl e'_def d'_def]
  show ?case
  proof (cases "e' = None \<or> d' = None")
    case True
    then have rec: "\<not> NOT 0 - k \<ge> 1000" "findSentinels_loop cmp seed (k - 1) e' d' = Some (a, b)"
      using run by (simp_all only: if_True simp_thms option.distinct split: if_split_asm)
    show ?thesis
    proof (cases e')
      case None
      show ?thesis by (rule IH(1) [OF refl None rec e' d'])
    next
      case (Some x)
      with True have d: "d' = None" by simp
      show ?thesis by (rule IH(2) [OF refl Some d rec e' d'])
    qed
  next
    case False
    then show ?thesis using run e' d' by auto
  qed
qed

lemma inlineInitHashConfig_opposed:
  "inlineInitHashConfig cmp seed = Some cfg \<Longrightarrow> opposed cmp cfg \<and> inlineSeed cfg = seed"
  using findSentinels_loop_parity [of cmp seed "NOT 0" None None]
  by (auto simp: inlineInitHashConfig_def findSentinels_def opposed_def split: bind_splits)

text \<open>In a table of at least two bins, every stored key has the parity of its bin.\<close>

lemma binOf_parity:
  assumes "shape ix" "2 \<le> length (bins ix)"
  shows "even (binOf ix h) \<longleftrightarrow> even h"
proof -
  obtain n where n: "imask ix = Bit_Operations.mask n" "length (bins ix) = 2 ^ n"
    using imask_mask [OF assms(1)] .
  then have "n \<noteq> 0" using assms(2) by (cases n) simp_all
  then have "bit (binOf ix h) 0 = bit h 0" by (simp add: binOf_def n(1) bit_simps)
  then show ?thesis by (simp add: bit_0)
qed

lemma sentinel_not_stored:
  assumes op: "opposed cmp cfg" and hash: "hash = cmp (inlineSeed cfg)"
    and ix: "shape ix" "2 \<le> length (bins ix)" and b: "binOf ix (hash key) = b"
  shows "key \<noteq> inlineGetTransferSentinel cfg b"
  using op binOf_parity [OF ix, of "hash key"] b
  by (auto simp: inlineGetTransferSentinel_def opposed_def and_one_parity hash split: if_splits)

section \<open>Transfer of a slot\<close>

definition inlineInsertIntoNewIndex ::
  "64 word index \<Rightarrow> 64 word \<Rightarrow> 64 word \<Rightarrow> 64 word \<Rightarrow> 32 word \<Rightarrow> (64 word index \<times> 32 word) option" where
  "inlineInsertIntoNewIndex ix key hash val = insertIntoNewIndex ix hash key val"

definition moveKey :: "(64 word \<Rightarrow> 64 word) \<Rightarrow> 64 word moveSlot" where
  "moveKey hash sentinel slot st = do {
     actualKey \<leftarrow> loadSlotKey (xold st) slot;
     (if actualKey = sentinel then Some st
      else do {
        old' \<leftarrow> storeSlotKey (xold st) slot sentinel;
        val \<leftarrow> atomicLoadSlotVal old' slot;
        (new', next') \<leftarrow> inlineInsertIntoNewIndex (xnew st) actualKey (hash actualKey) val (xnext st);
        Some \<lparr>xold = old', xnew = new', xnext = next'\<rparr> }) }"

interpretation inl: slot_transfer "\<lambda>k. k" "\<lambda>_ _. True" pairContent "\<lambda>_. True" hash "moveKey hash"
    "\<lambda>sentinel s. Key s \<noteq> sentinel"
  for hash :: "64 word \<Rightarrow> 64 word"
proof unfold_locales
  fix st :: "64 word xfer" and r s k v sentinel old' new' next'
  assume a: "loadSlot (xold st) r = Some s" "pairContent s = Some (k, v)" "Key s \<noteq> sentinel"
    "storeSlotKey (xold st) r sentinel = Some old'"
    "insertIntoNewIndex (xnew st) (hash k) (Key s) (Val s) (xnext st) = Some (new', next')"
  have "loadSlot old' r = Some (s\<lparr>Key := sentinel\<rparr>)"
    using a(1,4) loadSlot_storeSlot [OF a(1)] by (simp add: storeSlotKey_def)
  then show "moveKey hash sentinel r st = Some \<lparr>xold = old', xnew = new', xnext = next'\<rparr>"
    using a by (simp add: moveKey_def inlineInsertIntoNewIndex_def loadSlotKey_def
        atomicLoadSlotVal_def pairContent_def)
qed

section \<open>Insert\<close>

definition findKey :: "64 word \<Rightarrow> (64 word, 64 word) finder" where
  "findKey key ix b h = do {
     pb \<leftarrow> getBinByIndex ix b;
     bitmap \<leftarrow> matchPrimaryBucketKeys pb h key;
     r \<leftarrow> scanBits (\<lambda>slotIdx. do {
       s \<leftarrow> slotAt pb slotIdx;
       Some (Some (Val s)) }) bitmap;
     (case r of Some candidate \<Rightarrow> Some (Some candidate) | None \<Rightarrow> inlineScanLinksForKey ix b h key) }"

text \<open>Values are stored as raw words; the caller gets \<open>V(candidate)\<close>, \<open>V(existing)\<close> or zero.\<close>

definition inlineInsert ::
  "nat \<Rightarrow> bool \<Rightarrow> ('s \<Rightarrow> 64 word \<Rightarrow> 64 word) \<Rightarrow> 's IMap \<Rightarrow> 64 word \<Rightarrow> 'a::len word \<Rightarrow>
     (('a word \<times> bool) run \<times> 's IMap) option" where
  "inlineInsert fuel isSigned cmp m key newValue =
     (let hash = cmp (inlineSeed (hashConfig m))
      in do {
        (r, m) \<leftarrow> retryLoop fuel
          (Insert_round fuel (findKey key) (\<lambda>s. s\<lparr>Key := 0, Val := 0\<rparr>)
             (growTable fuel 0 (moveKey hash) (inlineGetTransferSentinel (hashConfig m)))
             0 (hash key) key (toRaw isSigned newValue))
          (getActiveIndex m) m;
        Some (map_run (\<lambda>(raw, ok). (fromRaw raw, ok)) r, m) })"

lemma findKey_pick:
  assumes "wf_index ix" "inBin ix b"
  shows "findKey key ix b (hdr ix b) = Some (map_option (\<lambda>(i, s). Val s) (keyPick ix b key [0..<15]))"
proof -
  let ?f = "\<lambda>slotIdx. do { s \<leftarrow> slotAt (bins ix ! unat b) slotIdx; Some (Some (Val s)) }"
  obtain bm where bm: "matchPrimaryBucketKeys (bins ix ! unat b) (hdr ix b) key = Some bm"
    "scanBits ?f bm = Some (map_option (\<lambda>(i, s). Val s) (keyPick ix b key primarySlots))"
    by (rule key_primary_search [OF assms, of ?f "\<lambda>i s. Val s" key]) auto
  show ?thesis
    unfolding findKey_def getBinByIndex_in [OF assms(2)] Option.bind.simps bm
      inlineScanLinksForKey_pick [OF assms] keyPick_all
    by (auto split: option.splits)
qed

interpretation inl: slot_insert "\<lambda>k. k" "\<lambda>_ _. True" pairContent "\<lambda>_. True" hash "moveKey hash"
    "\<lambda>sentinel s. Key s \<noteq> sentinel" findKey "\<lambda>_ v. v"
  for hash :: "64 word \<Rightarrow> 64 word"
proof unfold_locales
  fix ix :: "64 word index" and b k
  assume wf: "wf_index ix" and ew: "entries_wf pairContent hash (\<lambda>_. True) ix"
    and b: "b = binOf ix (hash k)"
  have "shape ix" using wf by (simp add: wf_index_def)
  then have "inBin ix b" unfolding b by (rule binOf_in)
  note fp = findKey_pick [OF wf this, of k]
  show "findKey k ix b (hdr ix b) = Some (absMap pairContent hash ix k)"
    by (rule key_search [OF wf ew b]) (simp_all add: fp)
qed (simp_all add: pairContent_def)

lemma inline_sentinel_safe:
  assumes "opposed cmp cfg" "hash = cmp (inlineSeed cfg)"
  shows "sentinel_safe pairContent hash (\<lambda>_. True) (\<lambda>sentinel s. Key s \<noteq> sentinel)
    (inlineGetTransferSentinel cfg) 2"
  unfolding sentinel_safe_def
proof (intro allI impI)
  fix ix :: "64 word index" and b i s
  assume a: "wf_index ix \<and> entries_wf pairContent hash (\<lambda>_. True) ix \<and> 2 \<le> length (bins ix) \<and>
    inBin ix b \<and> view ix b i = Some s"
  then have "binOf ix (hash (Key s)) = b"
    using entries_wfD(2) [of pairContent hash "\<lambda>_. True" ix b i s] by (auto simp: pairContent_def)
  with a show "Key s \<noteq> inlineGetTransferSentinel cfg b"
    using sentinel_not_stored [OF assms, of ix "Key s" b] by (simp add: wf_index_def)
qed

end
