(* ===== verification/AllocGet.thy ===== *)
theory AllocGet
  imports SlotUpdate
begin

text \<open>
  The allocator package: slots hold the hash of a key and a pointer to an immutable entry.
  This theory has its types, the two searches of the link buckets (\<open>scanLinksForKey\<close> and
  \<open>findKeyInLinks\<close>), \<open>Get\<close> and \<open>Contains\<close>, and instantiates the search interface for its
  slots. \<open>maphash.Comparable\<close> is the parameter \<open>cmp\<close> (any function of seed and key), Go's
  zero value of the value type the parameter \<open>zv\<close>.
\<close>

section \<open>Types\<close>

text \<open>
  \<open>*Entry[K, V]\<close>: the address of the entry with its (immutable) contents, or nil.
\<close>

record ('k, 'b) Entry =
  entryAddr :: nat
  entryKey :: 'k
  entryValue :: 'b

type_synonym ('k, 'b) EntryPtr = "('k, 'b) Entry option"

record 's HashConfig =
  Seed :: 's

type_synonym ('k, 'b, 's) AMap = "(('k, 'b) EntryPtr, 's HashConfig) Map"

definition samePtr :: "('k, 'b) EntryPtr \<Rightarrow> ('k, 'b) EntryPtr \<Rightarrow> bool" where
  "samePtr p q \<longleftrightarrow> map_option entryAddr p = map_option entryAddr q"

text \<open>\<open>candidate != nil && candidate.Key == key\<close>\<close>

definition candidateFor :: "'k \<Rightarrow> ('k, 'b) EntryPtr \<Rightarrow> ('k, 'b) Entry option" where
  "candidateFor key p = (case p of
     Some e \<Rightarrow> if entryKey e = key then Some e else None | None \<Rightarrow> None)"

section \<open>Searching the link buckets\<close>

definition probeLinkBucket ::
  "('k, 'b) EntryPtr index \<Rightarrow> 'k \<Rightarrow> 64 word \<Rightarrow> 32 word \<Rightarrow> 32 word \<Rightarrow> int \<Rightarrow>
     ('k, 'b) Entry option option" where
  "probeLinkBucket ix key hash l vm4 base = do {
     b \<leftarrow> getLinkBucket ix l;
     eq \<leftarrow> matchLinkBucketKeys b vm4 hash;
     scanBits (\<lambda>slotIdx. do {
       s \<leftarrow> linkSlotAt b slotIdx;
       Some (candidateFor key (Val s)) }) eq }"

definition scanLinksForKey ::
  "('k, 'b) EntryPtr index \<Rightarrow> 64 word \<Rightarrow> 64 word \<Rightarrow> 'k \<Rightarrow> 64 word \<Rightarrow>
     ('k, 'b) Entry option option" where
  "scanLinksForKey ix b h key hash = do {
     pb \<leftarrow> getBinByIndex ix b;
     overLinks (probeLinkBucket ix key hash) h (LinkMeta pb) }"

definition findKeyInLinkBucket ::
  "('k, 'b) EntryPtr index \<Rightarrow> 'k \<Rightarrow> 64 word \<Rightarrow> 32 word \<Rightarrow> 32 word \<Rightarrow> int \<Rightarrow>
     (int \<times> SlotRef \<times> ('k, 'b) Entry) option option" where
  "findKeyInLinkBucket ix key hash l vm4 baseSlotIdx = do {
     b \<leftarrow> getLinkBucket ix l;
     eq \<leftarrow> matchLinkBucketKeys b vm4 hash;
     scanBits (\<lambda>slotIdx. do {
       s \<leftarrow> linkSlotAt b slotIdx;
       Some (map_option (\<lambda>e. (baseSlotIdx + slotIdx, LinkSlot l slotIdx, e))
         (candidateFor key (Val s))) }) eq }"

definition findKeyInLinks ::
  "('k, 'b) EntryPtr index \<Rightarrow> 64 word \<Rightarrow> 64 word \<Rightarrow> 'k \<Rightarrow> 64 word \<Rightarrow>
     (int \<times> SlotRef \<times> ('k, 'b) Entry) option option" where
  "findKeyInLinks ix b h0 key hash = do {
     pb \<leftarrow> getBinByIndex ix b;
     overLinks (findKeyInLinkBucket ix key hash) h0 (LinkMeta pb) }"

section \<open>Get\<close>

text \<open>One round of \<open>Get\<close>: from the label \<open>retry\<close> to a return or a \<open>goto\<close>.\<close>

definition Get_round ::
  "('s \<Rightarrow> 'k \<Rightarrow> 64 word) \<Rightarrow> 'b \<Rightarrow> ('k, 'b, 's) AMap \<Rightarrow> 'k \<Rightarrow> nat \<Rightarrow> ('b \<times> bool) ctl option" where
  "Get_round cmp zv m key idx = do {
     let hash = cmp (Seed (hashConfig m)) key;
     ix \<leftarrow> indexAt m idx;
     pb \<leftarrow> getBin ix hash;
     let b = binOf ix hash;
     let h0 = Header pb;
     guard \<leftarrow> binGuard m idx h0;
     (case guard of
        Some idx' \<Rightarrow> Some (Goto idx')
      | None \<Rightarrow> do {
          bitmap \<leftarrow> matchPrimaryBucketKeys pb h0 hash;
          r \<leftarrow> scanBits (\<lambda>slotIdx. do {
            s \<leftarrow> slotAt pb slotIdx;
            (case candidateFor key (Val s) of
               Some candidate \<Rightarrow> do {
                 h1 \<leftarrow> atomicLoadHeader ix b;
                 Some (Some (if h0 \<noteq> h1 then Goto idx else Ret (entryValue candidate, True))) }
             | None \<Rightarrow> Some None) }) bitmap;
          (case r of
             Some c \<Rightarrow> Some c
           | None \<Rightarrow> do {
               entry \<leftarrow> scanLinksForKey ix b h0 key hash;
               h1 \<leftarrow> atomicLoadHeader ix b;
               Some (if h0 \<noteq> h1 then Goto idx
                     else case entry of Some e \<Rightarrow> Ret (entryValue e, True)
                          | None \<Rightarrow> Ret (zv, False)) }) }) }"

definition Get ::
  "nat \<Rightarrow> ('s \<Rightarrow> 'k \<Rightarrow> 64 word) \<Rightarrow> 'b \<Rightarrow> ('k, 'b, 's) AMap \<Rightarrow> 'k \<Rightarrow> ('b \<times> bool) run option" where
  "Get fuel cmp zv m key = retryRead fuel (Get_round cmp zv m key) (getActiveIndex m)"

definition Contains ::
  "nat \<Rightarrow> ('s \<Rightarrow> 'k \<Rightarrow> 64 word) \<Rightarrow> 'b \<Rightarrow> ('k, 'b, 's) AMap \<Rightarrow> 'k \<Rightarrow> bool run option" where
  "Contains fuel cmp zv m key = map_option (map_run snd) (Get fuel cmp zv m key)"

section \<open>The slots of the package\<close>

definition entryMatches :: "'k \<Rightarrow> ('k, 'b) EntryPtr Slot \<Rightarrow> bool" where
  "entryMatches key s \<longleftrightarrow> candidateFor key (Val s) \<noteq> None"

definition entryContent :: "('k, 'b) EntryPtr Slot \<Rightarrow> ('k \<times> 'b) option" where
  "entryContent s = map_option (\<lambda>e. (entryKey e, entryValue e)) (Val s)"

definition entryOk :: "('k \<Rightarrow> 64 word) \<Rightarrow> ('k, 'b) EntryPtr Slot \<Rightarrow> bool" where
  "entryOk hash s \<longleftrightarrow> (\<forall>e. Val s = Some e \<longrightarrow> Key s = hash (entryKey e))"

interpretation alloc: slot_codec hash entryMatches entryContent "entryOk hash"
  for hash :: "'k \<Rightarrow> 64 word"
  by unfold_locales
    (auto simp: entryMatches_def entryContent_def entryOk_def candidateFor_def split: option.splits)

text \<open>The hash of the map, and the contract between a map and its abstract contents.\<close>

definition hashOf :: "('s \<Rightarrow> 'k \<Rightarrow> 64 word) \<Rightarrow> ('k, 'b, 's) AMap \<Rightarrow> 'k \<Rightarrow> 64 word" where
  "hashOf cmp m = cmp (Seed (hashConfig m))"

definition consistent :: "('s \<Rightarrow> 'k \<Rightarrow> 64 word) \<Rightarrow> ('k, 'b, 's) AMap \<Rightarrow> bool" where
  "consistent cmp m \<longleftrightarrow> generations m \<and>
     entries_wf entryContent (hashOf cmp m) (entryOk (hashOf cmp m)) (current m)"

definition absOf :: "('s \<Rightarrow> 'k \<Rightarrow> 64 word) \<Rightarrow> ('k, 'b, 's) AMap \<Rightarrow> 'k \<Rightarrow> 'b option" where
  "absOf cmp m = absMap entryContent (hashOf cmp m) (current m)"

section \<open>What the searches compute\<close>

text \<open>The first of the given slots that holds an entry for \<open>key\<close>, with that entry.\<close>

definition entryPick ::
  "('k, 'b) EntryPtr index \<Rightarrow> 64 word \<Rightarrow> 'k \<Rightarrow> 64 word \<Rightarrow> nat list \<Rightarrow> (nat \<times> ('k, 'b) Entry) option" where
  "entryPick ix b key w = pick (slotTest ix b w (\<lambda>i s. candidateFor key (Val s)))"

lemma entryPick_map:
  "pick (slotTest ix b w (\<lambda>i s. map_option (h i) (candidateFor key (Val s)))) xs =
     map_option (\<lambda>(i, e). (i, h i e)) (entryPick ix b key w xs)"
  unfolding slotTest_map entryPick_def pick_map ..

lemma entryPick_all:
  "entryPick ix b key w [0..<15] = (case entryPick ix b key w primarySlots of
     Some r \<Rightarrow> Some r | None \<Rightarrow> entryPick ix b key w linkSlots)"
  unfolding entryPick_def by (rule pick_upt_15)

lemma primary_search:
  assumes wf: "wf_index ix" "inBin ix b"
    and f: "\<And>j s. j < 3 \<Longrightarrow> slotAt (bins ix ! unat b) (int j) = Some s \<Longrightarrow>
      f (int j) = Some (map_option (h j) (candidateFor key (Val s)))"
  obtains bm where "matchPrimaryBucketKeys (bins ix ! unat b) (hdr ix b) w = Some bm"
    "scanBits f bm = Some (map_option (\<lambda>(i, e). h i e) (entryPick ix b key w primarySlots))"
  by (rule primary_pick [OF wf, of f "\<lambda>j s. map_option (h j) (candidateFor key (Val s))" w])
    (use f that in \<open>auto simp: entryPick_map option.map_comp comp_def case_prod_beta'\<close>)

lemma probeLinkBucket_pick:
  assumes "wf_index ix" "inBin ix b" "u < 3" "linkAt ix b u \<noteq> 0"
  shows "probeLinkBucket ix key hash (linkAt ix b u) (validMask4 (hdr ix b) (3 + 4 * u)) base =
    Some (map_option snd (pick (\<lambda>j. slotTest ix b hash (\<lambda>i s. candidateFor key (Val s)) (3 + 4 * u + j))
      [0, 1, 2, 3]))"
  using link_pick [OF assms refl, of "\<lambda>lb slotIdx. do { s \<leftarrow> linkSlotAt lb slotIdx;
      Some (candidateFor key (Val s)) }" "\<lambda>i s. candidateFor key (Val s)" hash]
  by (force simp: probeLinkBucket_def)

lemma findKeyInLinkBucket_pick:
  assumes "wf_index ix" "inBin ix b" "u < 3" "linkAt ix b u \<noteq> 0"
  shows "findKeyInLinkBucket ix key hash (linkAt ix b u) (validMask4 (hdr ix b) (3 + 4 * u))
      (int (3 + 4 * u)) =
    Some (map_option snd (pick (\<lambda>j. slotTest ix b hash
      (\<lambda>i s. map_option (\<lambda>e. (int i, the (slotRef ix b i), e)) (candidateFor key (Val s)))
      (3 + 4 * u + j)) [0, 1, 2, 3]))"
proof -
  let ?g = "\<lambda>i s. map_option (\<lambda>e. (int i, the (slotRef ix b i), e)) (candidateFor key (Val s))"
  let ?f = "\<lambda>lb slotIdx. do { s \<leftarrow> linkSlotAt lb slotIdx;
      Some (map_option (\<lambda>e. (int (3 + 4 * u) + slotIdx, LinkSlot (linkAt ix b u) slotIdx, e))
        (candidateFor key (Val s))) }"
  have "?f lb (int j) = Some (?g (3 + 4 * u + j) s)"
    if "j < 4" "linkSlotAt lb (int j) = Some s" for lb j s
    using that assms(2,4) by (simp add: slotRef_link)
  then show ?thesis
    using link_pick [OF assms refl, of ?f ?g hash] by (force simp: findKeyInLinkBucket_def)
qed

lemma scanLinksForKey_pick:
  assumes "wf_index ix" "inBin ix b"
  shows "scanLinksForKey ix b (hdr ix b) key hash =
    Some (map_option snd (entryPick ix b key hash linkSlots))"
  using overLinks_pick [OF assms, of "probeLinkBucket ix key hash"] probeLinkBucket_pick [OF assms]
    assms(2) by (simp add: scanLinksForKey_def lmeta_def entryPick_def)

lemma findKeyInLinks_pick:
  assumes "wf_index ix" "inBin ix b"
  shows "findKeyInLinks ix b (hdr ix b) key hash =
    Some (map_option (\<lambda>(i, e). (int i, the (slotRef ix b i), e)) (entryPick ix b key hash linkSlots))"
proof -
  let ?g = "\<lambda>i s. map_option (\<lambda>e. (int i, the (slotRef ix b i), e)) (candidateFor key (Val s))"
  have "findKeyInLinks ix b (hdr ix b) key hash =
      Some (map_option snd (pick (slotTest ix b hash ?g) linkSlots))"
    using overLinks_pick [OF assms, where probe = "findKeyInLinkBucket ix key hash" and g = ?g]
      findKeyInLinkBucket_pick [OF assms] assms(2) by (simp add: findKeyInLinks_def lmeta_def)
  then show ?thesis
    unfolding entryPick_map by (simp add: option.map_comp comp_def case_prod_beta')
qed

text \<open>
  The whole search for a key on an index with unique entries: it finds the abstract value, or
  the key is absent.
\<close>

lemma entry_search:
  assumes wf: "wf_index ix" and ew: "entries_wf entryContent hash (entryOk hash) ix"
    and b: "b = binOf ix (hash k)"
  obtains (found) i e s where "entryPick ix b k (hash k) [0..<15] = Some (i, e)"
    "view ix b i = Some s" "Val s = Some e" "entryKey e = k" "Key s = hash k" "i < 15"
    "absMap entryContent hash ix k = Some (entryValue e)"
    "slotEntry entryContent ix b i = Some (k, entryValue e)"
  | (missing) "entryPick ix b k (hash k) [0..<15] = None"
    "absMap entryContent hash ix k = None"
proof (rule alloc.search_cases [OF wf ew b,
      of "\<lambda>i s. candidateFor k (Val s)" "\<lambda>i s. the (candidateFor k (Val s))"])
  show "candidateFor k (Val s) =
      (if entryMatches k s then Some (the (candidateFor k (Val s))) else None)" for s
    by (auto simp: entryMatches_def)
next
  fix i s v
  assume a: "pick (slotTest ix b (hash k) (\<lambda>i s. candidateFor k (Val s))) [0..<15] =
      Some (i, the (candidateFor k (Val s)))" "i < 15" "view ix b i = Some s"
    "entryContent s = Some (k, v)" "Key s = hash k" "absMap entryContent hash ix k = Some v"
  then obtain e where "Val s = Some e" "entryKey e = k" "entryValue e = v"
    by (auto simp: entryContent_def)
  with a show thesis
    by (intro found) (auto simp: candidateFor_def slotEntry_def entryContent_def entryPick_def)
next
  assume "pick (slotTest ix b (hash k) (\<lambda>i s. candidateFor k (Val s))) [0..<15] = None"
    "absMap entryContent hash ix k = None"
  then show thesis by (intro missing) (simp_all add: entryPick_def)
qed

section \<open>Get returns the abstract value\<close>

lemma Get_round_current:
  fixes m :: "('k, 'b, 's) AMap"
  assumes "consistent cmp m"
  shows "Get_round cmp zv m key (active m) =
    Some (Ret (case absOf cmp m key of Some v \<Rightarrow> (v, True) | None \<Rightarrow> (zv, False)))"
proof -
  let ?ix = "current m" and ?hash = "hashOf cmp m key"
  let ?b = "binOf ?ix ?hash"
  have g: "generations m" and st: "settled ?ix"
    and ew: "entries_wf entryContent (hashOf cmp m) (entryOk (hashOf cmp m)) ?ix"
    using assms by (auto simp: consistent_def generations_settled)
  have wf: "wf_index ?ix" and b: "inBin ?ix ?b"
    using settledD(1) [OF st] binOf_in [OF settledD(3) [OF st]] by auto
  let ?f = "\<lambda>slotIdx. do { s \<leftarrow> slotAt (bins ?ix ! unat ?b) slotIdx;
       (case candidateFor key (Val s) of
          Some c \<Rightarrow> do { h1 \<leftarrow> atomicLoadHeader ?ix ?b;
            Some (Some (if hdr ?ix ?b \<noteq> h1 then Goto (active m) else Ret (entryValue c, True))) }
        | None \<Rightarrow> Some None) }"
  have ld: "atomicLoadHeader ?ix ?b = Some (hdr ?ix ?b)"
    using b by (simp add: atomicLoadHeader_def hdr_def)
  obtain bm where bm: "matchPrimaryBucketKeys (bins ?ix ! unat ?b) (hdr ?ix ?b) ?hash = Some bm"
    "scanBits ?f bm =
      Some (map_option (\<lambda>(i, e). Ret (entryValue e, True)) (entryPick ?ix ?b key ?hash primarySlots))"
    by (rule primary_search [OF wf b, of ?f "\<lambda>i e. Ret (entryValue e, True)" key ?hash])
      (auto simp: ld split: option.splits)
  have guard: "binGuard m (active m) (hdr ?ix ?b) = Some None" by (rule binGuard_settled [OF st b])
  have "Get_round cmp zv m key (active m) = Some (case entryPick ?ix ?b key ?hash [0..<15] of
      Some (i, e) \<Rightarrow> Ret (entryValue e, True) | None \<Rightarrow> Ret (zv, False))"
    unfolding Get_round_def Let_def getBin_def entryPick_all hashOf_def [symmetric]
      indexAt_active [OF g] Option.bind.simps getBinByIndex_in [OF b] hdr_def [symmetric] guard
      option.case bm scanLinksForKey_pick [OF wf b]
    unfolding ld by (simp split: option.splits)
  also have "\<dots> = Some (Ret (case absOf cmp m key of Some v \<Rightarrow> (v, True) | None \<Rightarrow> (zv, False)))"
    by (rule entry_search [OF wf ew refl, of key]) (simp_all add: absOf_def)
  finally show ?thesis .
qed


text \<open>A reader that is still on an older generation is sent along the chain.\<close>

lemma retired_bin:
  assumes "generations m" "i < active m"
  shows "inBin (indexes m ! i) (binOf (indexes m ! i) h)"
  using assms binOf_in by (auto simp: generations_def retired_def)

lemma Get_round_retired:
  assumes "generations m" "i < active m"
  shows "Get_round cmp zv m key i = Some (Goto (Suc i))"
  unfolding Get_round_def Let_def getBin_def hashOf_def [symmetric]
    binGuard_retired(1) [OF assms retired_bin [OF assms]] Option.bind.simps
    getBinByIndex_in [OF retired_bin [OF assms]] hdr_def [symmetric]
    binGuard_retired(2) [OF assms retired_bin [OF assms]] option.case ..

lemma Get_from:
  assumes "consistent cmp m" "i \<le> active m" "active m - i < fuel"
  shows "retryRead fuel (Get_round cmp zv m key) i =
    Some (Returned (case absOf cmp m key of Some v \<Rightarrow> (v, True) | None \<Rightarrow> (zv, False)))"
proof -
  obtain f where f: "fuel = active m - i + f" "0 < f"
    using assms(3) by (metis add_diff_cancel_left' less_imp_add_positive)
  have "generations m" using assms(1) by (simp add: consistent_def)
  then show ?thesis
    unfolding f
    using retryRead_chain [of "active m" "Get_round cmp zv m key", OF Get_round_retired assms(2)]
      retryRead_Ret [of f "Get_round cmp zv m key", OF f(2) Get_round_current [OF assms(1)]] by simp
qed

end
