(* ===== verification/AllocUpdate.thy ===== *)
theory AllocUpdate
  imports AllocGet
begin

text \<open>
  \<open>Put\<close> and \<open>Delete\<close> of the allocator package (put.go, delete.go), each with its retry loop,
  and their functional correctness: on a consistent map they return the old value and change
  the abstract map at the key, or report that the key is absent and change nothing.
\<close>

section \<open>Put and Delete\<close>

text \<open>
  The search both operations start with: the primary bucket, then \<open>findKeyInLinks\<close>. The
  result \<open>None\<close> is the code's \<open>found = false\<close>.
\<close>

definition findTarget ::
  "('k, 'b) EntryPtr index \<Rightarrow> ('k, 'b) EntryPtr PrimaryBucket \<Rightarrow> 64 word \<Rightarrow> 64 word \<Rightarrow> 'k \<Rightarrow> 64 word \<Rightarrow>
     (int \<times> SlotRef \<times> ('k, 'b) Entry) option option" where
  "findTarget ix pb b h0 key hash = do {
     bitmap \<leftarrow> matchPrimaryBucketKeys pb h0 hash;
     r \<leftarrow> scanBits (\<lambda>slotIdx. do {
       s \<leftarrow> slotAt pb slotIdx;
       Some (map_option (\<lambda>candidate. (slotIdx, PrimarySlot b slotIdx, candidate))
         (candidateFor key (Val s))) }) bitmap;
     (case r of Some t \<Rightarrow> Some (Some t) | None \<Rightarrow> findKeyInLinks ix b h0 key hash) }"

fun Put_loop ::
  "nat \<Rightarrow> 'k \<Rightarrow> 64 word \<Rightarrow> 64 word \<Rightarrow> int \<Rightarrow> SlotRef \<Rightarrow> ('k, 'b) EntryPtr \<Rightarrow> nat \<Rightarrow>
     ('k, 'b, 's) AMap \<Rightarrow> (('b \<times> bool) ctl \<times> ('k, 'b, 's) AMap) option" where
  "Put_loop 0 key hash b targetIdx targetSlot nxt idx m = Some (Spin, m)"
| "Put_loop (Suc n) key hash b targetIdx targetSlot nxt idx m = do {
     ix \<leftarrow> indexAt m idx;
     hLoop \<leftarrow> atomicLoadHeader ix b;
     (if getSlotState hLoop targetIdx \<noteq> SlotValid then Some (Goto idx, m)
      else do {
        curKey \<leftarrow> loadSlotKey ix targetSlot;
        (if curKey \<noteq> hash then Some (Goto idx, m)
         else do {
           entry \<leftarrow> atomicLoadSlotVal ix targetSlot;
           (case candidateFor key entry of
              None \<Rightarrow> Some (Goto idx, m)
            | Some e \<Rightarrow> do {
                h \<leftarrow> atomicLoadHeader ix b;
                (if h \<noteq> hLoop then Put_loop n key hash b targetIdx targetSlot nxt idx m
                 else do {
                   entry' \<leftarrow> atomicLoadSlotVal ix targetSlot;
                   (if \<not> samePtr entry' entry
                    then Put_loop n key hash b targetIdx targetSlot nxt idx m
                    else do {
                      (ok, ix') \<leftarrow> DWCAS samePtr ix targetSlot curKey entry curKey nxt;
                      (if ok then Some (Ret (entryValue e, True), putIndex m idx ix')
                       else Put_loop n key hash b targetIdx targetSlot nxt idx m) }) }) }) }) }) }"

text \<open>\<open>newp\<close> is the address Go's allocator returns for the new entry.\<close>

definition Put_round ::
  "nat \<Rightarrow> ('s \<Rightarrow> 'k \<Rightarrow> 64 word) \<Rightarrow> 'b \<Rightarrow> nat \<Rightarrow> 'k \<Rightarrow> 'b \<Rightarrow> nat \<Rightarrow> ('k, 'b, 's) AMap \<Rightarrow>
     (('b \<times> bool) ctl \<times> ('k, 'b, 's) AMap) option" where
  "Put_round fuel cmp zv newp key newValue idx m = do {
     let hash = cmp (Seed (hashConfig m)) key;
     ix \<leftarrow> indexAt m idx;
     pb \<leftarrow> getBin ix hash;
     let b = binOf ix hash;
     let h0 = Header pb;
     guard \<leftarrow> binGuard m idx h0;
     (case guard of
        Some idx' \<Rightarrow> Some (Goto idx', m)
      | None \<Rightarrow> do {
          target \<leftarrow> findTarget ix pb b h0 key hash;
          h1 \<leftarrow> atomicLoadHeader ix b;
          (if h0 \<noteq> h1 then Some (Goto idx, m)
           else case target of
             None \<Rightarrow> Some (Ret (zv, False), m)
           | Some (targetIdx, targetSlot, targetEntry) \<Rightarrow> do {
               let nxt = Some \<lparr>entryAddr = newp, entryKey = key, entryValue = newValue\<rparr>;
               (ok, ix') \<leftarrow> DWCAS samePtr ix targetSlot hash (Some targetEntry) hash nxt;
               (if ok then Some (Ret (entryValue targetEntry, True), putIndex m idx ix')
                else Put_loop fuel key hash b targetIdx targetSlot nxt idx m) }) }) }"

definition Put ::
  "nat \<Rightarrow> ('s \<Rightarrow> 'k \<Rightarrow> 64 word) \<Rightarrow> 'b \<Rightarrow> nat \<Rightarrow> ('k, 'b, 's) AMap \<Rightarrow> 'k \<Rightarrow> 'b \<Rightarrow>
     (('b \<times> bool) run \<times> ('k, 'b, 's) AMap) option" where
  "Put fuel cmp zv newp m key newValue =
     retryLoop fuel (Put_round fuel cmp zv newp key newValue) (getActiveIndex m) m"

definition markSlotInvalid ::
  "('k, 'b) EntryPtr index \<Rightarrow> 64 word \<Rightarrow> int \<Rightarrow> ('k, 'b) EntryPtr index option" where
  "markSlotInvalid ix b slotIdx =
     (let msk = NOT (push_bit (slotShift slotIdx) 0x3) in atomicAndHeader ix b msk)"

fun Delete_loop ::
  "nat \<Rightarrow> 'k \<Rightarrow> 64 word \<Rightarrow> 64 word \<Rightarrow> int \<Rightarrow> SlotRef \<Rightarrow> nat \<Rightarrow>
     ('k, 'b, 's) AMap \<Rightarrow> (('b \<times> bool) ctl \<times> ('k, 'b, 's) AMap) option" where
  "Delete_loop 0 key hash b targetSlotIdx targetSlot idx m = Some (Spin, m)"
| "Delete_loop (Suc n) key hash b targetSlotIdx targetSlot idx m = do {
     ix \<leftarrow> indexAt m idx;
     hLoop \<leftarrow> atomicLoadHeader ix b;
     (if getBinState hLoop \<noteq> BinNoTransfer then Some (Goto idx, m)
      else if getSlotState hLoop targetSlotIdx \<noteq> SlotValid then Some (Goto idx, m)
      else do {
        curKey \<leftarrow> loadSlotKey ix targetSlot;
        (if curKey \<noteq> hash then Some (Goto idx, m)
         else do {
           entry \<leftarrow> atomicLoadSlotVal ix targetSlot;
           (case candidateFor key entry of
              None \<Rightarrow> Some (Goto idx, m)
            | Some e \<Rightarrow> do {
                h \<leftarrow> atomicLoadHeader ix b;
                (if h \<noteq> hLoop then Delete_loop n key hash b targetSlotIdx targetSlot idx m
                 else do {
                   entry' \<leftarrow> atomicLoadSlotVal ix targetSlot;
                   (if \<not> samePtr entry' entry
                    then Delete_loop n key hash b targetSlotIdx targetSlot idx m
                    else do {
                      (ok, ix') \<leftarrow> DWCAS samePtr ix targetSlot curKey entry curKey None;
                      (if ok then do {
                         ix'' \<leftarrow> markSlotInvalid ix' b targetSlotIdx;
                         Some (Ret (entryValue e, True), putIndex m idx ix'') }
                       else Delete_loop n key hash b targetSlotIdx targetSlot idx m) }) }) }) }) }) }"

definition Delete_round ::
  "nat \<Rightarrow> ('s \<Rightarrow> 'k \<Rightarrow> 64 word) \<Rightarrow> 'b \<Rightarrow> 'k \<Rightarrow> nat \<Rightarrow> ('k, 'b, 's) AMap \<Rightarrow>
     (('b \<times> bool) ctl \<times> ('k, 'b, 's) AMap) option" where
  "Delete_round fuel cmp zv key idx m = do {
     let hash = cmp (Seed (hashConfig m)) key;
     ix \<leftarrow> indexAt m idx;
     pb \<leftarrow> getBin ix hash;
     let b = binOf ix hash;
     let h0 = Header pb;
     guard \<leftarrow> binGuard m idx h0;
     (case guard of
        Some idx' \<Rightarrow> Some (Goto idx', m)
      | None \<Rightarrow> do {
          target \<leftarrow> findTarget ix pb b h0 key hash;
          h1 \<leftarrow> atomicLoadHeader ix b;
          (if h0 \<noteq> h1 then Some (Goto idx, m)
           else case target of
             None \<Rightarrow> Some (Ret (zv, False), m)
           | Some (targetSlotIdx, targetSlot, targetEntry) \<Rightarrow> do {
               (ok, ix') \<leftarrow> DWCAS samePtr ix targetSlot hash (Some targetEntry) hash None;
               (if ok then do {
                  ix'' \<leftarrow> markSlotInvalid ix' b targetSlotIdx;
                  Some (Ret (entryValue targetEntry, True), putIndex m idx ix'') }
                else Delete_loop fuel key hash b targetSlotIdx targetSlot idx m) }) }) }"

definition Delete ::
  "nat \<Rightarrow> ('s \<Rightarrow> 'k \<Rightarrow> 64 word) \<Rightarrow> 'b \<Rightarrow> ('k, 'b, 's) AMap \<Rightarrow> 'k \<Rightarrow>
     (('b \<times> bool) run \<times> ('k, 'b, 's) AMap) option" where
  "Delete fuel cmp zv m key =
     retryLoop fuel (Delete_round fuel cmp zv key) (getActiveIndex m) m"

section \<open>The search\<close>

lemma slotRef_the: "i \<in> set primarySlots \<Longrightarrow> the (slotRef ix b i) = PrimarySlot b (int i)"
  by (auto simp: primarySlots_def slotRef_primary)

lemma findTarget_pick:
  assumes "wf_index ix" "inBin ix b"
  shows "findTarget ix (bins ix ! unat b) b (hdr ix b) key hash =
    Some (map_option (\<lambda>(i, e). (int i, the (slotRef ix b i), e)) (entryPick ix b key hash [0..<15]))"
proof -
  let ?h = "\<lambda>i e. (int i, PrimarySlot b (int i), e)"
  let ?f = "\<lambda>slotIdx. do { s \<leftarrow> slotAt (bins ix ! unat b) slotIdx;
       Some (map_option (\<lambda>candidate. (slotIdx, PrimarySlot b slotIdx, candidate))
         (candidateFor key (Val s))) }"
  obtain bm where bm: "matchPrimaryBucketKeys (bins ix ! unat b) (hdr ix b) hash = Some bm"
    "scanBits ?f bm = Some (map_option (\<lambda>(i, e). ?h i e) (entryPick ix b key hash primarySlots))"
    by (rule primary_search [OF assms, of ?f ?h key hash]) auto
  have "map_option (\<lambda>(i, e). ?h i e) (entryPick ix b key hash primarySlots) =
      map_option (\<lambda>(i, e). (int i, the (slotRef ix b i), e)) (entryPick ix b key hash primarySlots)"
  proof (cases "entryPick ix b key hash primarySlots")
    case (Some p)
    then have "fst p \<in> set primarySlots" using pick_Some by (cases p) (force simp: entryPick_def)
    with Some show ?thesis by (simp add: slotRef_the case_prod_beta)
  qed simp
  then show ?thesis
    unfolding findTarget_def bm findKeyInLinks_pick [OF assms] entryPick_all Option.bind.simps
    by (simp split: option.splits)
qed

section \<open>Correctness\<close>

lemma DWCAS_hit:
  assumes "loadSlot ix r = Some s" "Key s = k" "same (Val s) v"
    "storeSlot ix r (s\<lparr>Key := k', Val := v'\<rparr>) = Some ix'"
  shows "DWCAS same ix r k v k' v' = Some (True, ix')"
  using assms by (simp add: DWCAS_def)

lemma view_slot:
  assumes "view ix b i = Some s"
  obtains r where "slotRef ix b i = Some r" "loadSlot ix r = Some s" "i < 15"
  using assms that by (auto simp: view_def slotIn_def split: if_splits bind_splits)

lemma consistent_put:
  assumes "consistent cmp m" "settled ix'" "same_frame (current m) ix'"
    "entries_wf entryContent (hashOf cmp m) (entryOk (hashOf cmp m)) ix'"
    "absMap entryContent (hashOf cmp m) ix' = M"
  defines "m' \<equiv> putIndex m (active m) ix'"
  shows "consistent cmp m'" "absOf cmp m' = M" "hashConfig m' = hashConfig m" "active m' = active m"
    "current m' = ix'"
proof -
  have *: "generations m" "indexNext ix' = indexNext (current m)"
    "length (bins ix') = length (bins (current m))"
    using assms(1,3) by (simp_all add: consistent_def same_frame_def same_geometry_def)
  note c = putIndex_current [OF *(1) assms(2) *(2,3)]
  have h: "hashOf cmp m' = hashOf cmp m" by (simp add: hashOf_def m'_def)
  show "consistent cmp m'" "absOf cmp m' = M" "hashConfig m' = hashConfig m" "active m' = active m"
    "current m' = ix'"
    using assms(4,5) c h by (simp_all add: consistent_def absOf_def m'_def)
qed

text \<open>The successful search of Put and Delete, with the slot it found.\<close>

lemma target_search:
  fixes m :: "('k, 'b, 's) AMap" and key :: 'k
  assumes "consistent cmp m"
  defines "ix \<equiv> current m" and "hash \<equiv> hashOf cmp m key"
  defines "b \<equiv> binOf ix hash"
  obtains (found) i r s e where
    "findTarget ix (bins ix ! unat b) b (hdr ix b) key hash = Some (Some (int i, r, e))"
    "absOf cmp m key = Some (entryValue e)" "slotRef ix b i = Some r" "loadSlot ix r = Some s"
    "Val s = Some e" "Key s = hash" "entryKey e = key" "i < 15"
    "slotEntry entryContent ix b i = Some (key, entryValue e)"
  | (missing) "findTarget ix (bins ix ! unat b) b (hdr ix b) key hash = Some None"
    "absOf cmp m key = None"
proof -
  have st: "settled ix" and ew: "entries_wf entryContent (hashOf cmp m) (entryOk (hashOf cmp m)) ix"
    using assms(1) by (auto simp: consistent_def generations_settled ix_def)
  have wf: "wf_index ix" and b: "inBin ix b"
    using settledD(1) [OF st] binOf_in [OF settledD(3) [OF st]] by (auto simp: b_def)
  note ft = findTarget_pick [OF wf b, of key hash]
  have ab: "absOf cmp m key = absMap entryContent (hashOf cmp m) ix key"
    by (simp add: absOf_def ix_def)
  show ?thesis
  proof (rule entry_search [OF wf ew, of b key])
    show "b = binOf ix (hashOf cmp m key)" by (simp add: b_def hash_def)
  next
    fix i e s
    assume a: "entryPick ix b key (hashOf cmp m key) [0..<15] = Some (i, e)"
      "view ix b i = Some s" "Val s = Some e" "entryKey e = key" "Key s = hashOf cmp m key" "i < 15"
      "absMap entryContent (hashOf cmp m) ix key = Some (entryValue e)"
      "slotEntry entryContent ix b i = Some (key, entryValue e)"
    obtain r where "slotRef ix b i = Some r" "loadSlot ix r = Some s" using view_slot [OF a(2)] .
    with a ft ab show thesis by (intro found) (auto simp: hash_def)
  next
    assume "entryPick ix b key (hashOf cmp m key) [0..<15] = None"
      "absMap entryContent (hashOf cmp m) ix key = None"
    with ft ab show thesis by (intro missing) (auto simp: hash_def)
  qed
qed

lemma Put_round_current:
  fixes m :: "('k, 'b, 's) AMap"
  assumes "consistent cmp m"
  shows "\<exists>m'. Put_round fuel cmp zv newp key newValue (active m) m =
      Some (Ret (case absOf cmp m key of Some v \<Rightarrow> (v, True) | None \<Rightarrow> (zv, False)), m') \<and>
    consistent cmp m' \<and> hashConfig m' = hashConfig m \<and> active m' = active m \<and>
    absOf cmp m' = (if absOf cmp m key = None then absOf cmp m else (absOf cmp m)(key \<mapsto> newValue)) \<and>
    linksExact (current m') = linksExact (current m)"
proof -
  let ?ix = "current m" and ?hash = "hashOf cmp m key"
  let ?b = "binOf ?ix ?hash"
  have g: "generations m" and st: "settled ?ix"
    and ew: "entries_wf entryContent (hashOf cmp m) (entryOk (hashOf cmp m)) ?ix"
    using assms by (auto simp: consistent_def generations_settled)
  have b: "inBin ?ix ?b" using binOf_in [OF settledD(3) [OF st]] .
  have guard: "binGuard m (active m) (hdr ?ix ?b) = Some None" by (rule binGuard_settled [OF st b])
  have ld: "atomicLoadHeader ?ix ?b = Some (hdr ?ix ?b)"
    using b by (simp add: atomicLoadHeader_def hdr_def)
  note round = Put_round_def Let_def getBin_def hashOf_def [symmetric]
    indexAt_active [OF g] Option.bind.simps getBinByIndex_in [OF b] hdr_def [symmetric] guard
    option.case ld
  show ?thesis
  proof (rule target_search [OF assms, of key])
    fix i r s e
    assume f: "findTarget ?ix (bins ?ix ! unat ?b) ?b (hdr ?ix ?b) key ?hash = Some (Some (int i, r, e))"
      "absOf cmp m key = Some (entryValue e)" "slotRef ?ix ?b i = Some r" "loadSlot ?ix r = Some s"
      "Val s = Some e" "Key s = ?hash" "entryKey e = key" "i < 15"
      "slotEntry entryContent ?ix ?b i = Some (key, entryValue e)"
    let ?n = "\<lparr>entryAddr = newp, entryKey = key, entryValue = newValue\<rparr>"
    let ?s = "s\<lparr>Key := ?hash, Val := Some ?n\<rparr>"
    have "entryOk (hashOf cmp m) ?s" "entryContent ?s = Some (key, newValue)"
      by (simp_all add: entryOk_def entryContent_def)
    from rewrite_slot [OF st ew refl f(9) f(3) this]
    obtain ix' where w: "storeSlot ?ix r ?s = Some ix'" "settled ix'"
      "entries_wf entryContent (hashOf cmp m) (entryOk (hashOf cmp m)) ix'" "same_frame ?ix ix'"
      "absMap entryContent (hashOf cmp m) ix' =
         (absMap entryContent (hashOf cmp m) ?ix)(key \<mapsto> newValue)" "linksExact ix' = linksExact ?ix" .
    have dw: "DWCAS samePtr ?ix r ?hash (Some e) ?hash (Some ?n) = Some (True, ix')"
      by (rule DWCAS_hit [OF f(4,6) _ w(1)]) (simp add: samePtr_def f(5))
    have "Put_round fuel cmp zv newp key newValue (active m) m =
        Some (Ret (entryValue e, True), putIndex m (active m) ix')"
      unfolding round f(1) by (simp add: dw)
    then show ?thesis
      using consistent_put [OF assms w(2,4,3,5)] f(2) w(6) by (auto simp: absOf_def)
  next
    assume f: "findTarget ?ix (bins ?ix ! unat ?b) ?b (hdr ?ix ?b) key ?hash = Some None"
      "absOf cmp m key = None"
    have "Put_round fuel cmp zv newp key newValue (active m) m = Some (Ret (zv, False), m)"
      unfolding round f(1) by simp
    with f(2) assms show ?thesis by simp
  qed
qed


lemma Delete_round_current:
  fixes m :: "('k, 'b, 's) AMap"
  assumes "consistent cmp m"
  shows "\<exists>m'. Delete_round fuel cmp zv key (active m) m =
      Some (Ret (case absOf cmp m key of Some v \<Rightarrow> (v, True) | None \<Rightarrow> (zv, False)), m') \<and>
    consistent cmp m' \<and> hashConfig m' = hashConfig m \<and> active m' = active m \<and>
    absOf cmp m' = (absOf cmp m)(key := None) \<and> linksExact (current m') = linksExact (current m)"
proof -
  let ?ix = "current m" and ?hash = "hashOf cmp m key"
  let ?b = "binOf ?ix ?hash"
  have g: "generations m" and st: "settled ?ix"
    and ew: "entries_wf entryContent (hashOf cmp m) (entryOk (hashOf cmp m)) ?ix"
    using assms by (auto simp: consistent_def generations_settled)
  have b: "inBin ?ix ?b" using binOf_in [OF settledD(3) [OF st]] .
  have guard: "binGuard m (active m) (hdr ?ix ?b) = Some None" by (rule binGuard_settled [OF st b])
  have ld: "atomicLoadHeader ?ix ?b = Some (hdr ?ix ?b)"
    using b by (simp add: atomicLoadHeader_def hdr_def)
  note round = Delete_round_def Let_def getBin_def hashOf_def [symmetric]
    indexAt_active [OF g] Option.bind.simps getBinByIndex_in [OF b] hdr_def [symmetric] guard
    option.case ld
  show ?thesis
  proof (rule target_search [OF assms, of key])
    fix i r s e
    assume f: "findTarget ?ix (bins ?ix ! unat ?b) ?b (hdr ?ix ?b) key ?hash = Some (Some (int i, r, e))"
      "absOf cmp m key = Some (entryValue e)" "slotRef ?ix ?b i = Some r" "loadSlot ?ix r = Some s"
      "Val s = Some e" "Key s = ?hash" "entryKey e = key" "i < 15"
      "slotEntry entryContent ?ix ?b i = Some (key, entryValue e)"
    let ?s = "s\<lparr>Key := ?hash, Val := None\<rparr>"
    obtain ix0 where ix0: "storeSlot ?ix r ?s = Some ix0"
      using storeSlot_effect [OF f(4), of ?s] by blast
    have dw: "DWCAS samePtr ?ix r ?hash (Some e) ?hash None = Some (True, ix0)"
      by (rule DWCAS_hit [OF f(4,6) _ ix0]) (simp add: samePtr_def f(5))
    let ?h = "hdr ?ix ?b AND NOT (push_bit (2 * i) 3)"
    obtain ix' where w: "storeHeader ix0 ?b ?h = Some ix'" "settled ix'"
      "entries_wf entryContent (hashOf cmp m) (entryOk (hashOf cmp m)) ix'" "same_frame ?ix ix'"
      "absMap entryContent (hashOf cmp m) ix' =
         (absMap entryContent (hashOf cmp m) ?ix)(key := None)" "hdr ix0 ?b = hdr ?ix ?b" "inBin ix0 ?b"
      "linksExact ix' = linksExact ?ix"
      by (rule clear_slot [OF st ew refl f(9) f(3) clearSlot_bits [OF f(8)] disjI2 [OF ix0]])
    have mark: "markSlotInvalid ix0 ?b (int i) = Some ix'"
      using w(1,6,7) f(8) by (simp add: markSlotInvalid_def atomicAndHeader_def hdr_def)
    have "Delete_round fuel cmp zv key (active m) m =
        Some (Ret (entryValue e, True), putIndex m (active m) ix')"
      unfolding round f(1) by (simp add: dw mark)
    then show ?thesis
      using consistent_put [OF assms w(2,4,3,5)] f(2) w(8) by (auto simp: absOf_def)
  next
    assume f: "findTarget ?ix (bins ?ix ! unat ?b) ?b (hdr ?ix ?b) key ?hash = Some None"
      "absOf cmp m key = None"
    have "Delete_round fuel cmp zv key (active m) m = Some (Ret (zv, False), m)"
      unfolding round f(1) by simp
    with f(2) assms show ?thesis by (auto simp: fun_eq_iff)
  qed
qed

text \<open>Operations that are still on an older generation follow the chain first.\<close>

lemma Put_round_retired:
  assumes "generations m" "i < active m"
  shows "Put_round fuel cmp zv newp key newValue i m = Some (Goto (Suc i), m)"
  unfolding Put_round_def Let_def getBin_def hashOf_def [symmetric]
    binGuard_retired(1) [OF assms retired_bin [OF assms]] Option.bind.simps
    getBinByIndex_in [OF retired_bin [OF assms]] hdr_def [symmetric]
    binGuard_retired(2) [OF assms retired_bin [OF assms]] option.case ..

lemma Delete_round_retired:
  assumes "generations m" "i < active m"
  shows "Delete_round fuel cmp zv key i m = Some (Goto (Suc i), m)"
  unfolding Delete_round_def Let_def getBin_def hashOf_def [symmetric]
    binGuard_retired(1) [OF assms retired_bin [OF assms]] Option.bind.simps
    getBinByIndex_in [OF retired_bin [OF assms]] hdr_def [symmetric]
    binGuard_retired(2) [OF assms retired_bin [OF assms]] option.case ..

end
