(* ===== verification/AllocInsert.thy ===== *)
theory AllocInsert
  imports SlotInsert AllocUpdate
begin

text \<open>
  The allocator package: the transfer of an entry during a resize, \<open>Insert\<close>, and the three
  operations put together over the abstract map. The interpretations discharge the interfaces
  \<open>slot_transfer\<close> and \<open>slot_insert\<close> for its slots.
\<close>

section \<open>Transfer of a slot\<close>

definition EvenTransferSentinel :: "64 word" where
  [simp]: "EvenTransferSentinel = 0xFFFFFFFFFFFFFFFE"

definition OddTransferSentinel :: "64 word" where
  [simp]: "OddTransferSentinel = 0xFFFFFFFFFFFFFFFF"

definition GetTransferSentinel :: "64 word \<Rightarrow> 64 word" where
  "GetTransferSentinel binIndex =
     (if binIndex AND 1 = 0 then OddTransferSentinel else EvenTransferSentinel)"

definition IsTransferSentinelForBucket :: "64 word \<Rightarrow> 64 word \<Rightarrow> bool" where
  "IsTransferSentinelForBucket key binIndex \<longleftrightarrow> key = GetTransferSentinel binIndex"

text \<open>The loop body of \<open>transferValidSlots\<close>.\<close>

definition moveEntry :: "('k, 'b) EntryPtr moveSlot" where
  "moveEntry sentinel slot st = do {
     keyHash \<leftarrow> loadSlotKey (xold st) slot;
     old' \<leftarrow> storeSlotKey (xold st) slot sentinel;
     entry \<leftarrow> atomicLoadSlotVal old' slot;
     (case entry of
        None \<Rightarrow> Some (st\<lparr>xold := old'\<rparr>)
      | Some _ \<Rightarrow> do {
          (new', next') \<leftarrow> insertIntoNewIndex (xnew st) keyHash keyHash entry (xnext st);
          Some \<lparr>xold = old', xnew = new', xnext = next'\<rparr> }) }"

interpretation alloc: slot_transfer hash entryMatches entryContent "entryOk hash" hash moveEntry
    "\<lambda>_ _. True"
  for hash :: "'k \<Rightarrow> 64 word"
proof unfold_locales
  fix st :: "('k, 'b) EntryPtr xfer" and r s k v sentinel old' new' next'
  assume a: "loadSlot (xold st) r = Some s" "entryOk hash s" "entryContent s = Some (k, v)"
    "storeSlotKey (xold st) r sentinel = Some old'"
    "insertIntoNewIndex (xnew st) (hash k) (Key s) (Val s) (xnext st) = Some (new', next')"
  then obtain e where e: "Val s = Some e" "entryKey e = k" by (auto simp: entryContent_def)
  have "Key s = hash k" using a(2) e by (simp add: entryOk_def)
  moreover have "loadSlot old' r = Some (s\<lparr>Key := sentinel\<rparr>)"
    using a(1,4) loadSlot_storeSlot [OF a(1)] by (simp add: storeSlotKey_def)
  ultimately show "moveEntry sentinel r st = Some \<lparr>xold = old', xnew = new', xnext = next'\<rparr>"
    using a e by (simp add: moveEntry_def loadSlotKey_def atomicLoadSlotVal_def)
qed

section \<open>Insert\<close>

text \<open>The search of \<open>Insert\<close>: the primary bucket, then the links; only the value is used.\<close>

definition findEntry :: "'k \<Rightarrow> 64 word \<Rightarrow> (('k, 'b) EntryPtr, 'b) finder" where
  "findEntry key hash ix b h = do {
     pb \<leftarrow> getBinByIndex ix b;
     bitmap \<leftarrow> matchPrimaryBucketKeys pb h hash;
     r \<leftarrow> scanBits (\<lambda>slotIdx. do {
       s \<leftarrow> slotAt pb slotIdx;
       Some (candidateFor key (Val s)) }) bitmap;
     (case r of
        Some candidate \<Rightarrow> Some (Some (entryValue candidate))
      | None \<Rightarrow> do {
          entry \<leftarrow> scanLinksForKey ix b h key hash;
          Some (map_option entryValue entry) }) }"

definition newEntry :: "nat \<Rightarrow> 'k \<Rightarrow> 'b \<Rightarrow> ('k, 'b) EntryPtr" where
  "newEntry newp key newValue = Some \<lparr>entryAddr = newp, entryKey = key, entryValue = newValue\<rparr>"

definition Insert ::
  "nat \<Rightarrow> ('s \<Rightarrow> 'k \<Rightarrow> 64 word) \<Rightarrow> 'b \<Rightarrow> nat \<Rightarrow> ('k, 'b, 's) AMap \<Rightarrow> 'k \<Rightarrow> 'b \<Rightarrow>
     (('b \<times> bool) run \<times> ('k, 'b, 's) AMap) option" where
  "Insert fuel cmp zv newp m key newValue =
     (let hash = cmp (Seed (hashConfig m)) key
      in retryLoop fuel
           (Insert_round fuel (findEntry key hash) (Val_update (\<lambda>_. None))
              (growTable fuel None moveEntry GetTransferSentinel) zv hash hash
              (newEntry newp key newValue))
           (getActiveIndex m) m)"

lemma findEntry_pick:
  assumes "wf_index ix" "inBin ix b"
  shows "findEntry key hash ix b (hdr ix b) =
    Some (map_option (\<lambda>(i, e). entryValue e) (entryPick ix b key hash [0..<15]))"
proof -
  let ?f = "\<lambda>slotIdx. do { s \<leftarrow> slotAt (bins ix ! unat b) slotIdx; Some (candidateFor key (Val s)) }"
  obtain bm where bm: "matchPrimaryBucketKeys (bins ix ! unat b) (hdr ix b) hash = Some bm"
    "scanBits ?f bm = Some (map_option (\<lambda>(i, e). e) (entryPick ix b key hash primarySlots))"
    by (rule primary_search [OF assms, of ?f "\<lambda>i e. e" key hash]) (auto simp: option.map_ident)
  show ?thesis
    unfolding findEntry_def getBinByIndex_in [OF assms(2)] Option.bind.simps bm
      scanLinksForKey_pick [OF assms] entryPick_all
    by (simp add: option.map_comp comp_def case_prod_beta' split: option.split)
qed

interpretation alloc: slot_insert hash entryMatches entryContent "entryOk hash" hash moveEntry
    "\<lambda>_ _. True" "\<lambda>k. findEntry k (hash k)" "newEntry newp"
  for hash :: "'k \<Rightarrow> 64 word" and newp :: nat
proof unfold_locales
  fix ix :: "('k, 'b) EntryPtr index" and b k
  assume wf: "wf_index ix" and ew: "entries_wf entryContent hash (entryOk hash) ix"
    and b: "b = binOf ix (hash k)"
  have "shape ix" using wf by (simp add: wf_index_def)
  then have "inBin ix b" unfolding b by (rule binOf_in)
  note fp = findEntry_pick [OF wf this, of k "hash k"]
  show "findEntry k (hash k) ix b (hdr ix b) = Some (absMap entryContent hash ix k)"
    by (rule entry_search [OF wf ew b]) (simp_all add: fp)
qed (simp_all add: entryOk_def entryContent_def newEntry_def)

end
