(* ===== verification/AllocMap.thy ===== *)
theory AllocMap
  imports AllocInsert
begin

text \<open>
  The allocator package as a whole: construction, each operation as a function of the abstract
  map, and runs of operations against the specification of a map.
\<close>

section \<open>Construction\<close>

text \<open>\<open>seed\<close> is what \<open>maphash.MakeSeed\<close> returned.\<close>

definition initHashConfig :: "'s \<Rightarrow> 's HashConfig" where
  "initHashConfig seed = \<lparr>Seed = seed\<rparr>"

definition AllocNew :: "'s \<Rightarrow> 64 word \<Rightarrow> ('k, 'b, 's) AMap" where
  "AllocNew seed initialSize = New None (initHashConfig seed) initialSize"

lemma AllocNew_consistent:
  fixes cmp :: "'s \<Rightarrow> 'k \<Rightarrow> 64 word" and m :: "('k, 'b, 's) AMap"
  assumes "unat initialSize \<le> 2 ^ 33" and m_def: "m = AllocNew seed initialSize"
  shows "consistent cmp m" "absOf cmp m = Map.empty" "hashConfig m = \<lparr>Seed = seed\<rparr>"
proof -
  obtain n where n: "n \<le> 33" "generations m" "current m = newIndex None (2 ^ n)"
    "hashConfig m = \<lparr>Seed = seed\<rparr>"
    by (rule New_generations [OF assms(1), of None "initHashConfig seed"])
      (rule that, simp_all add: m_def AllocNew_def initHashConfig_def)
  then show "consistent cmp m" "absOf cmp m = Map.empty" "hashConfig m = \<lparr>Seed = seed\<rparr>"
    by (simp_all add: consistent_def absOf_def fun_eq_iff newIndex_settled)
qed

section \<open>The operations on a consistent map\<close>

lemma Get_run:
  assumes "consistent cmp m" "0 < fuel"
  shows "Get fuel cmp zv m key =
    Some (Returned (case absOf cmp m key of Some v \<Rightarrow> (v, True) | None \<Rightarrow> (zv, False)))"
  using Get_from [OF assms(1), of "active m" fuel zv key] assms(2)
  by (simp add: Get_def getActiveIndex_def)

lemma Put_run:
  assumes "consistent cmp m" "0 < fuel"
  shows "\<exists>m'. Put fuel cmp zv newp m key newValue =
      Some (Returned (case absOf cmp m key of Some v \<Rightarrow> (v, True) | None \<Rightarrow> (zv, False)), m') \<and>
    consistent cmp m' \<and> hashConfig m' = hashConfig m \<and>
    absOf cmp m' = (if absOf cmp m key = None then absOf cmp m else (absOf cmp m)(key \<mapsto> newValue)) \<and>
    linksExact (current m') = linksExact (current m)"
proof -
  note Put_round_current [OF assms(1), of fuel zv newp key newValue]
  then obtain m' where "Put_round fuel cmp zv newp key newValue (active m) m =
      Some (Ret (case absOf cmp m key of Some v \<Rightarrow> (v, True) | None \<Rightarrow> (zv, False)), m')"
    "consistent cmp m'" "hashConfig m' = hashConfig m"
    "absOf cmp m' = (if absOf cmp m key = None then absOf cmp m else (absOf cmp m)(key \<mapsto> newValue))"
    "linksExact (current m') = linksExact (current m)"
    by blast
  then show ?thesis
    unfolding Put_def getActiveIndex_def by (intro exI conjI retryLoop_Ret [OF assms(2)])
qed

lemma Delete_run:
  assumes "consistent cmp m" "0 < fuel"
  shows "\<exists>m'. Delete fuel cmp zv m key =
      Some (Returned (case absOf cmp m key of Some v \<Rightarrow> (v, True) | None \<Rightarrow> (zv, False)), m') \<and>
    consistent cmp m' \<and> hashConfig m' = hashConfig m \<and>
    absOf cmp m' = (absOf cmp m)(key := None) \<and>
    linksExact (current m') = linksExact (current m)"
proof -
  note Delete_round_current [OF assms(1), of fuel zv key]
  then obtain m' where "Delete_round fuel cmp zv key (active m) m =
      Some (Ret (case absOf cmp m key of Some v \<Rightarrow> (v, True) | None \<Rightarrow> (zv, False)), m')"
    "consistent cmp m'" "hashConfig m' = hashConfig m" "absOf cmp m' = (absOf cmp m)(key := None)"
    "linksExact (current m') = linksExact (current m)"
    by blast
  then show ?thesis
    unfolding Delete_def getActiveIndex_def by (intro exI conjI retryLoop_Ret [OF assms(2)])
qed

lemma Insert_run_present:
  assumes "consistent cmp m" "0 < fuel" "absOf cmp m key = Some v"
  shows "Insert fuel cmp zv newp m key newValue = Some (Returned (v, False), m)"
proof -
  have g: "generations m" "entries_wf entryContent (hashOf cmp m) (entryOk (hashOf cmp m)) (current m)"
    "absMap entryContent (hashOf cmp m) (current m) key = Some v"
    using assms(1,3) by (simp_all add: consistent_def absOf_def)
  show ?thesis
    unfolding Insert_def Let_def getActiveIndex_def hashOf_def [symmetric]
    by (rule retryLoop_Ret [OF assms(2)], rule alloc.round_existing [OF g])
qed

lemma Insert_run_absent:
  assumes "consistent cmp m" "absOf cmp m key = None"
    and "B \<le> 33" "2 ^ B \<le> fuel" "\<not> crowded (hashOf cmp m) (absOf cmp m) B key"
  shows "\<exists>m'. Insert fuel cmp zv newp m key newValue = Some (Returned (zv, True), m') \<and>
    consistent cmp m' \<and> hashConfig m' = hashConfig m \<and> absOf cmp m' = (absOf cmp m)(key \<mapsto> newValue) \<and>
    (linksExact (current m) \<longrightarrow> linksExact (current m'))"
proof -
  let ?h = "hashOf cmp m"
  have g: "generations m" "entries_wf entryContent ?h (entryOk ?h) (current m)"
    "absMap entryContent ?h (current m) key = None"
    using assms(1,2) by (simp_all add: consistent_def absOf_def)
  have "shape (current m)" using settledD(3) [OF generations_settled [OF g(1)]] .
  then have "0 < length (bins (current m))" by (auto simp: shape_def)
  then have d: "2 ^ B \<le> length (bins (current m)) * 2 ^ (fuel - 1)"
  proof -
    have "B < (2::nat) ^ B" by simp
    then have "B \<le> fuel - 1" using assms(4) by linarith
    then have "(2::nat) ^ B \<le> 1 * 2 ^ (fuel - 1)" by simp
    also have "\<dots> \<le> length (bins (current m)) * 2 ^ (fuel - 1)"
      using \<open>0 < length (bins (current m))\<close> by (intro mult_le_mono1) linarith
    finally show ?thesis .
  qed
  have "0 < fuel" using assms(4) by (cases fuel) simp_all
  then have f: "Suc (fuel - 1) = fuel" by simp
  have safe: "sentinel_safe entryContent ?h (entryOk ?h) (\<lambda>_ _. True) GetTransferSentinel 0"
    by (simp add: sentinel_safe_def)
  have "\<not> crowded ?h (absMap entryContent ?h (current m)) B key"
    using assms(5) by (simp add: absOf_def)
  note loop = alloc.insert_loop [OF safe assms(3,4) g _ this d, where wipe = "Val_update (\<lambda>_. None)"
      and zv = None and zero = zv and newp = newp and v = newValue, unfolded f]
  show ?thesis
    using loop unfolding Insert_def Let_def getActiveIndex_def hashOf_def [symmetric]
    by (auto simp: consistent_def absOf_def hashOf_def)
qed

section \<open>Runs of operations\<close>

datatype ('k, 'b) call = CallGet 'k | CallPut 'k 'b | CallInsert 'k 'b | CallDelete 'k

fun keyOf :: "('k, 'b) call \<Rightarrow> 'k" where
  "keyOf (CallGet k) = k"
| "keyOf (CallPut k v) = k"
| "keyOf (CallInsert k v) = k"
| "keyOf (CallDelete k) = k"

text \<open>The specification: what a map does, with the results the package's interface returns.\<close>

definition found :: "'b \<Rightarrow> 'b option \<Rightarrow> 'b \<times> bool" where
  "found zv r = (case r of Some v \<Rightarrow> (v, True) | None \<Rightarrow> (zv, False))"

fun specCall :: "'b \<Rightarrow> ('k, 'b) call \<Rightarrow> ('k \<Rightarrow> 'b option) \<Rightarrow> ('b \<times> bool) \<times> ('k \<Rightarrow> 'b option)" where
  "specCall zv (CallGet k) M = (found zv (M k), M)"
| "specCall zv (CallPut k v) M = (found zv (M k), if M k = None then M else M(k \<mapsto> v))"
| "specCall zv (CallInsert k v) M =
     (case M k of Some v' \<Rightarrow> ((v', False), M) | None \<Rightarrow> ((zv, True), M(k \<mapsto> v)))"
| "specCall zv (CallDelete k) M = (found zv (M k), M(k := None))"

fun specRun :: "'b \<Rightarrow> ('k, 'b) call list \<Rightarrow> ('k \<Rightarrow> 'b option) \<Rightarrow> ('b \<times> bool) list \<times> ('k \<Rightarrow> 'b option)" where
  "specRun zv [] M = ([], M)"
| "specRun zv (c # cs) M =
     (let (r, M) = specCall zv c M; (rs, M) = specRun zv cs M in (r # rs, M))"

fun apiCall ::
  "nat \<Rightarrow> ('s \<Rightarrow> 'k \<Rightarrow> 64 word) \<Rightarrow> 'b \<Rightarrow> nat \<Rightarrow> ('k, 'b) call \<Rightarrow> ('k, 'b, 's) AMap \<Rightarrow>
     (('b \<times> bool) run \<times> ('k, 'b, 's) AMap) option" where
  "apiCall fuel cmp zv newp (CallGet k) m = map_option (\<lambda>r. (r, m)) (Get fuel cmp zv m k)"
| "apiCall fuel cmp zv newp (CallPut k v) m = Put fuel cmp zv newp m k v"
| "apiCall fuel cmp zv newp (CallInsert k v) m = Insert fuel cmp zv newp m k v"
| "apiCall fuel cmp zv newp (CallDelete k) m = Delete fuel cmp zv m k"

text \<open>Each call gets a fresh address for the entry it may allocate.\<close>

fun apiRun ::
  "nat \<Rightarrow> ('s \<Rightarrow> 'k \<Rightarrow> 64 word) \<Rightarrow> 'b \<Rightarrow> nat \<Rightarrow> ('k, 'b) call list \<Rightarrow> ('k, 'b, 's) AMap \<Rightarrow>
     (('b \<times> bool) run list \<times> ('k, 'b, 's) AMap) option" where
  "apiRun fuel cmp zv newp [] m = Some ([], m)"
| "apiRun fuel cmp zv newp (c # cs) m = do {
     (r, m) \<leftarrow> apiCall fuel cmp zv newp c m;
     (rs, m) \<leftarrow> apiRun fuel cmp zv (Suc newp) cs m;
     Some (r # rs, m) }"

text \<open>No three of the keys share the low \<open>B\<close> bits of their hashes.\<close>

definition sparse :: "('k \<Rightarrow> 64 word) \<Rightarrow> nat \<Rightarrow> 'k set \<Rightarrow> bool" where
  "sparse hash B K \<longleftrightarrow> \<not> (\<exists>ks. length ks = 3 \<and> distinct ks \<and> set ks \<subseteq> K \<and>
     (\<forall>x \<in> set ks. \<forall>y \<in> set ks. take_bit B (hash x) = take_bit B (hash y)))"

lemma sparse_not_crowded:
  assumes "sparse hash B K" "dom M \<subseteq> K"
  shows "\<not> crowded hash M B k"
proof
  assume "crowded hash M B k"
  then obtain ks where ks: "length ks = 3" "distinct ks"
    "\<And>x. x \<in> set ks \<Longrightarrow> M x \<noteq> None \<and> take_bit B (hash x) = take_bit B (hash k)"
    unfolding crowded_def by blast
  moreover have "set ks \<subseteq> K" using ks(3) assms(2) by blast
  moreover have "\<forall>x \<in> set ks. \<forall>y \<in> set ks. take_bit B (hash x) = take_bit B (hash y)" using ks(3) by simp
  ultimately show False using assms(1) unfolding sparse_def by blast
qed

lemma sparse_few: "finite K \<Longrightarrow> card K \<le> 2 \<Longrightarrow> sparse hash B K"
  unfolding sparse_def by (metis card_mono distinct_card numeral_le_iff le_trans semiring_norm(69,72) numeral_3_eq_3 eval_nat_numeral(2) not_less_eq_eq numeral_2_eq_2)

lemma apiCall_refines:
  assumes con: "consistent cmp m" and B: "B \<le> 33" "2 ^ B \<le> fuel"
    and K: "sparse (hashOf cmp m) B K" "dom (absOf cmp m) \<subseteq> K"
  obtains m' where "apiCall fuel cmp zv newp c m =
      Some (Returned (fst (specCall zv c (absOf cmp m))), m')"
    "consistent cmp m'" "hashConfig m' = hashConfig m"
    "absOf cmp m' = snd (specCall zv c (absOf cmp m))" "linksExact (current m) \<Longrightarrow> linksExact (current m')"
proof -
  have f: "0 < fuel" using B(2) by (cases fuel) simp_all
  show ?thesis
  proof (cases c)
    case (CallGet k)
    with con Get_run [OF con f, of zv k] show ?thesis by (intro that [of m]) (simp_all add: found_def)
  next
    case (CallPut k v)
    then show ?thesis using Put_run [OF con f, of zv newp k v] that by (auto simp: found_def)
  next
    case (CallDelete k)
    then show ?thesis using Delete_run [OF con f, of zv k] that by (auto simp: found_def)
  next
    case (CallInsert k v)
    show ?thesis
    proof (cases "absOf cmp m k")
      case None
      note Insert_run_absent [OF con None B sparse_not_crowded [OF K], of zv newp v]
      with CallInsert None that show ?thesis by auto
    next
      case (Some v')
      with Insert_run_present [OF con f Some, of zv newp v] CallInsert con show ?thesis
        by (intro that [of m]) simp_all
    qed
  qed
qed

lemma specCall_dom: "dom (snd (specCall zv c M)) \<subseteq> insert (keyOf c) (dom M)"
  by (cases c) (auto split: option.splits if_splits)

lemma apiRun_refines:
  assumes "B \<le> 33" "2 ^ B \<le> fuel" "sparse (hashOf cmp m) B K"
    and "consistent cmp m" "dom (absOf cmp m) \<subseteq> K" "keyOf ` set cs \<subseteq> K"
  shows "\<exists>m'. apiRun fuel cmp zv newp cs m =
      Some (map Returned (fst (specRun zv cs (absOf cmp m))), m') \<and>
    consistent cmp m' \<and> absOf cmp m' = snd (specRun zv cs (absOf cmp m)) \<and>
    (linksExact (current m) \<longrightarrow> linksExact (current m'))"
  using assms(3-6)
proof (induction cs arbitrary: m newp)
  case Nil
  then show ?case by simp
next
  case (Cons c cs)
  obtain m1 where m1: "apiCall fuel cmp zv newp c m =
      Some (Returned (fst (specCall zv c (absOf cmp m))), m1)"
    "consistent cmp m1" "hashConfig m1 = hashConfig m"
    "absOf cmp m1 = snd (specCall zv c (absOf cmp m))" "linksExact (current m) \<Longrightarrow> linksExact (current m1)"
    by (rule apiCall_refines [OF Cons.prems(2) assms(1,2) Cons.prems(1,3)]) (rule that)
  have h: "hashOf cmp m1 = hashOf cmp m" using m1(3) by (simp add: hashOf_def)
  have "dom (absOf cmp m1) \<subseteq> K"
    using specCall_dom [of zv c "absOf cmp m"] Cons.prems(3,4) by (auto simp: m1(4))
  then obtain m' where "apiRun fuel cmp zv (Suc newp) cs m1 =
      Some (map Returned (fst (specRun zv cs (absOf cmp m1))), m')"
    "consistent cmp m'" "absOf cmp m' = snd (specRun zv cs (absOf cmp m1))"
    "linksExact (current m1) \<longrightarrow> linksExact (current m')"
    using Cons.IH [of m1 "Suc newp"] Cons.prems(1,4) m1(2) by (auto simp: h)
  with m1(1,5) show ?case by (simp add: m1(4) case_prod_beta' Let_def)
qed

end
