(* ===== verification/InlineMap.thy ===== *)
theory InlineMap
  imports InlineInsert AllocMap
begin

text \<open>
  The inline package as a whole: construction, each operation as a function of the map from
  keys to integers, and runs of operations against the specification of a map. Everything
  holds for tables built with two bins or more, where the transfer sentinels are safe.
\<close>

section \<open>Construction\<close>

text \<open>\<open>None\<close> is the panic of \<open>findSentinels\<close>.\<close>

definition inlineNew :: "('s \<Rightarrow> 64 word \<Rightarrow> 64 word) \<Rightarrow> 's \<Rightarrow> 64 word \<Rightarrow> 's IMap option" where
  "inlineNew cmp seed initialSize = do {
     cfg \<leftarrow> inlineInitHashConfig cmp seed;
     Some (New 0 cfg initialSize) }"

definition inlineReady :: "('s \<Rightarrow> 64 word \<Rightarrow> 64 word) \<Rightarrow> 's IMap \<Rightarrow> bool" where
  "inlineReady cmp m \<longleftrightarrow> inlineConsistent cmp m \<and> opposed cmp (hashConfig m) \<and>
     2 \<le> length (bins (current m))"

lemma New_size:
  assumes "unat initialSize \<le> 2 ^ 33" "initialSize \<noteq> 1"
  shows "2 \<le> length (bins (current (New zv cfg initialSize)))"
proof -
  define s where "s = (if initialSize = 0 then 16 else initialSize)"
  have le: "unat s \<le> 2 ^ 33" using assms(1) by (auto simp: s_def)
  then have "unat s \<le> 2 ^ 63" by simp
  then obtain k where k: "k \<le> 63" "nextPowerOf2 s = 2 ^ k" "unat s \<le> 2 ^ k"
    by (rule nextPowerOf2_cases) (rule that)
  have "s \<noteq> 0" "s \<noteq> 1" using assms(2) by (auto simp: s_def)
  then have "unat s \<noteq> 0 \<and> unat s \<noteq> 1" by (metis unat_0 unat_1 unat_inject)
  then have "2 \<le> (2::nat) ^ k" using k(3) by linarith
  moreover have "unat (2 ^ k :: 64 word) = 2 ^ k" using k(1) by (intro unat_exp) simp
  moreover have "current (New zv cfg initialSize) = newIndex zv (2 ^ k)"
    unfolding New_def Let_def s_def [symmetric] k(2) by (simp add: current_def)
  ultimately show ?thesis by (simp add: newIndex_def)
qed

lemma inlineNew_ready:
  assumes "unat initialSize \<le> 2 ^ 33" "initialSize \<noteq> 1" "inlineNew cmp seed initialSize = Some m"
  shows "inlineReady cmp m" "inlineRaw cmp m = Map.empty" "inlineSeed (hashConfig m) = seed"
proof -
  obtain cfg where cfg: "inlineInitHashConfig cmp seed = Some cfg" "m = New 0 cfg initialSize"
    using assms(3) by (auto simp: inlineNew_def split: bind_splits)
  obtain n where n: "n \<le> 33" "generations m" "current m = newIndex 0 (2 ^ n)" "hashConfig m = cfg"
    by (rule New_generations [OF assms(1), of 0 cfg]) (rule that, simp_all add: cfg(2))
  have "2 \<le> length (bins (current m))" unfolding cfg(2) by (rule New_size [OF assms(1,2)])
  with n inlineInitHashConfig_opposed [OF cfg(1)]
  show "inlineReady cmp m" "inlineRaw cmp m = Map.empty" "inlineSeed (hashConfig m) = seed"
    by (simp_all add: inlineReady_def inlineConsistent_def inlineRaw_def fun_eq_iff newIndex_settled)
qed

section \<open>The operations\<close>

lemma inlineGet_run:
  assumes "inlineConsistent cmp m" "0 < fuel"
  shows "inlineGet fuel cmp m key =
    Some (Returned (case inlineAbs cmp m key of Some v \<Rightarrow> (v :: 'a::len word, True) | None \<Rightarrow> (0, False)))"
  unfolding inlineGet_def getActiveIndex_def
  by (rule retryRead_Ret [OF assms(2)]) (rule inlineGet_round_current [OF assms(1)])

lemma inlineAbs_update:
  assumes "LENGTH('a) \<le> 64" "inlineRaw cmp m' = (inlineRaw cmp m)(key \<mapsto> toRaw isSigned (v :: 'a::len word))"
  shows "inlineAbs cmp m' = (inlineAbs cmp m)(key \<mapsto> v)"
  using assms(2) fromRaw_toRaw [OF assms(1), of isSigned v] by (simp add: inlineAbs_def fun_eq_iff)

lemma inlineAbs_remove:
  "inlineRaw cmp m' = (inlineRaw cmp m)(key := None) \<Longrightarrow> inlineAbs cmp m' = (inlineAbs cmp m)(key := None)"
  by (simp add: inlineAbs_def fun_eq_iff)

lemma inlineAbs_cong: "inlineRaw cmp m' = inlineRaw cmp m \<Longrightarrow> inlineAbs cmp m' = inlineAbs cmp m"
  by (simp add: inlineAbs_def fun_eq_iff)

lemma inlineAbs_None [simp]: "inlineAbs cmp m key = None \<longleftrightarrow> inlineRaw cmp m key = None"
  by (simp add: inlineAbs_def)

lemma inlinePut_run:
  fixes newValue :: "'a::len word"
  assumes "LENGTH('a) \<le> 64" "inlineReady cmp m" "0 < fuel"
  shows "\<exists>m'. inlinePut fuel isSigned cmp m key newValue =
      Some (Returned (case inlineAbs cmp m key of Some v \<Rightarrow> (v, True) | None \<Rightarrow> (0, False)), m') \<and>
    inlineReady cmp m' \<and> hashConfig m' = hashConfig m \<and>
    inlineAbs cmp m' = (if inlineAbs cmp m key = None then inlineAbs cmp m
      else (inlineAbs cmp m)(key \<mapsto> newValue))"
proof -
  have con: "inlineConsistent cmp m" using assms(2) by (simp add: inlineReady_def)
  obtain m' where m': "inlinePut_round fuel isSigned cmp key newValue (active m) m =
      Some (Ret (case inlineAbs cmp m key of Some v \<Rightarrow> (v, True) | None \<Rightarrow> (0, False)), m')"
    "inlineConsistent cmp m'" "hashConfig m' = hashConfig m"
    "length (bins (current m')) = length (bins (current m))"
    "inlineRaw cmp m' = (if inlineRaw cmp m key = None then inlineRaw cmp m
      else (inlineRaw cmp m)(key \<mapsto> toRaw isSigned newValue))"
    using inlinePut_round_current [OF con, of fuel isSigned key newValue] by blast
  have "inlineAbs cmp m' = (if inlineAbs cmp m key = None then inlineAbs cmp m
      else (inlineAbs cmp m)(key \<mapsto> newValue))"
    using m'(5) inlineAbs_update [OF assms(1), of cmp m' m key isSigned newValue]
      inlineAbs_cong [of cmp m' m] by (simp only: inlineAbs_None split: if_split_asm) simp_all
  moreover have "inlineReady cmp m'" using assms(2) m'(2-4) by (simp add: inlineReady_def)
  ultimately show ?thesis
    unfolding inlinePut_def getActiveIndex_def
    using retryLoop_Ret [of fuel "inlinePut_round fuel isSigned cmp key newValue", OF assms(3) m'(1)] m'(3) by blast
qed

lemma inlineDelete_run:
  assumes "inlineReady cmp m" "0 < fuel"
  shows "\<exists>m'. inlineDelete fuel cmp m key = Some (Returned (inlineRaw cmp m key \<noteq> None), m') \<and>
    inlineReady cmp m' \<and> hashConfig m' = hashConfig m \<and> inlineRaw cmp m' = (inlineRaw cmp m)(key := None)"
proof -
  have con: "inlineConsistent cmp m" using assms(1) by (simp add: inlineReady_def)
  obtain m' where m': "inlineDelete_round cmp key (active m) m =
      Some (Ret (inlineRaw cmp m key \<noteq> None), m')"
    "inlineConsistent cmp m'" "hashConfig m' = hashConfig m"
    "length (bins (current m')) = length (bins (current m))"
    "inlineRaw cmp m' = (inlineRaw cmp m)(key := None)"
    using inlineDelete_round_current [OF con, of key] by blast
  have "inlineReady cmp m'" using assms(1) m'(2-4) by (simp add: inlineReady_def)
  then show ?thesis
    unfolding inlineDelete_def getActiveIndex_def
    using retryLoop_Ret [of fuel "inlineDelete_round cmp key", OF assms(2) m'(1)] m'(3,5) by blast
qed

lemma inlineInsert_run_present:
  fixes newValue :: "'a::len word"
  assumes "inlineConsistent cmp m" "0 < fuel" "inlineAbs cmp m key = Some v"
  shows "inlineInsert fuel isSigned cmp m key newValue = Some (Returned (v, False), m)"
proof -
  obtain raw where raw: "inlineRaw cmp m key = Some raw" "v = fromRaw raw"
    using assms(3) by (auto simp: inlineAbs_def)
  have g: "generations m" "entries_wf pairContent (inlineHashOf cmp m) (\<lambda>_. True) (current m)"
    "absMap pairContent (inlineHashOf cmp m) (current m) key = Some raw"
    using assms(1) raw(1) by (simp_all add: inlineConsistent_def inlineRaw_def)
  have "retryLoop fuel (Insert_round fuel (findKey key) wipe grow zero (inlineHashOf cmp m key) key w)
      (active m) m = Some (Returned (raw, False), m)" for wipe grow zero w
    by (rule retryLoop_Ret [OF assms(2)]) (rule inl.round_existing [OF g])
  then show ?thesis
    unfolding inlineInsert_def Let_def getActiveIndex_def inlineHashOf_def [symmetric]
    by (simp add: raw(2))
qed

lemma inlineInsert_run_absent:
  fixes newValue :: "'a::len word"
  assumes "LENGTH('a) \<le> 64" "inlineReady cmp m" "inlineAbs cmp m key = (None :: 'a word option)"
    and "B \<le> 33" "2 ^ B \<le> fuel" "\<not> crowded (inlineHashOf cmp m) (inlineRaw cmp m) B key"
  shows "\<exists>m'. inlineInsert fuel isSigned cmp m key newValue = Some (Returned (0, True), m') \<and>
    inlineReady cmp m' \<and> hashConfig m' = hashConfig m \<and> inlineAbs cmp m' = (inlineAbs cmp m)(key \<mapsto> newValue)"
proof -
  let ?h = "inlineHashOf cmp m"
  have g: "generations m" "entries_wf pairContent ?h (\<lambda>_. True) (current m)"
    "absMap pairContent ?h (current m) key = None" "2 \<le> length (bins (current m))"
    using assms(2,3) by (simp_all add: inlineReady_def inlineConsistent_def inlineRaw_def)
  have safe: "sentinel_safe pairContent ?h (\<lambda>_. True) (\<lambda>sentinel s. Key s \<noteq> sentinel)
      (inlineGetTransferSentinel (hashConfig m)) 2"
    using assms(2) by (intro inline_sentinel_safe) (simp_all add: inlineReady_def inlineHashOf_def)
  have nc: "\<not> crowded ?h (absMap pairContent ?h (current m)) B key"
    using assms(6) by (simp add: inlineRaw_def)
  have "B < (2::nat) ^ B" by simp
  then have "B \<le> fuel - 1" "Suc (fuel - 1) = fuel" using assms(5) by linarith+
  then have "(2::nat) ^ B \<le> 1 * 2 ^ (fuel - 1)" by simp
  also have "\<dots> \<le> length (bins (current m)) * 2 ^ (fuel - 1)" using g(4) by (intro mult_le_mono1) linarith
  finally have d: "2 ^ B \<le> length (bins (current m)) * 2 ^ (fuel - 1)" .
  note loop = inl.insert_loop [OF safe assms(4,5) g nc d, where wipe = "\<lambda>s. s\<lparr>Key := 0, Val := 0\<rparr>"
      and zv = 0 and zero = 0 and v = "toRaw isSigned newValue", unfolded \<open>Suc (fuel - 1) = fuel\<close>]
  then obtain m' where m': "retryLoop fuel
      (Insert_round fuel (findKey key) (\<lambda>s. s\<lparr>Key := 0, Val := 0\<rparr>)
        (growTable fuel 0 (moveKey ?h) (inlineGetTransferSentinel (hashConfig m))) 0 (?h key) key
        (toRaw isSigned newValue)) (active m) m = Some (Returned (0, True), m')"
    "generations m'" "hashConfig m' = hashConfig m" "entries_wf pairContent ?h (\<lambda>_. True) (current m')"
    "absMap pairContent ?h (current m') = (absMap pairContent ?h (current m))(key \<mapsto> toRaw isSigned newValue)"
    "length (bins (current m)) \<le> length (bins (current m'))" by blast
  have h: "inlineHashOf cmp m' = ?h" using m'(3) by (simp add: inlineHashOf_def)
  have "inlineReady cmp m'"
    using m'(2-4,6) assms(2) g(4) by (simp add: inlineReady_def inlineConsistent_def h)
  moreover have "inlineRaw cmp m' = (inlineRaw cmp m)(key \<mapsto> toRaw isSigned newValue)"
    using m'(5) by (simp add: inlineRaw_def h)
  then have "inlineAbs cmp m' = (inlineAbs cmp m)(key \<mapsto> newValue)"
    by (rule inlineAbs_update [OF assms(1)])
  moreover have "inlineInsert fuel isSigned cmp m key newValue = Some (Returned (0, True), m')"
    using m'(1) unfolding inlineInsert_def Let_def getActiveIndex_def inlineHashOf_def [symmetric]
    by (simp add: fromRaw_def)
  ultimately show ?thesis using m'(3) by blast
qed

section \<open>Runs of operations\<close>

text \<open>As in the allocator package, except that \<open>Delete\<close> returns no value (here a zero).\<close>

fun inlineSpecCall ::
  "(64 word, 'a::len word) call \<Rightarrow> (64 word \<Rightarrow> 'a word option) \<Rightarrow>
     ('a word \<times> bool) \<times> (64 word \<Rightarrow> 'a word option)" where
  "inlineSpecCall (CallDelete k) M = ((0, M k \<noteq> None), M(k := None))"
| "inlineSpecCall c M = specCall 0 c M"

fun inlineSpecRun ::
  "(64 word, 'a::len word) call list \<Rightarrow> (64 word \<Rightarrow> 'a word option) \<Rightarrow>
     ('a word \<times> bool) list \<times> (64 word \<Rightarrow> 'a word option)" where
  "inlineSpecRun [] M = ([], M)"
| "inlineSpecRun (c # cs) M =
     (let (r, M) = inlineSpecCall c M; (rs, M) = inlineSpecRun cs M in (r # rs, M))"

fun inlineCall ::
  "nat \<Rightarrow> bool \<Rightarrow> ('s \<Rightarrow> 64 word \<Rightarrow> 64 word) \<Rightarrow> (64 word, 'a::len word) call \<Rightarrow> 's IMap \<Rightarrow>
     (('a word \<times> bool) run \<times> 's IMap) option" where
  "inlineCall fuel isSigned cmp (CallGet k) m = map_option (\<lambda>r. (r, m)) (inlineGet fuel cmp m k)"
| "inlineCall fuel isSigned cmp (CallPut k v) m = inlinePut fuel isSigned cmp m k v"
| "inlineCall fuel isSigned cmp (CallInsert k v) m = inlineInsert fuel isSigned cmp m k v"
| "inlineCall fuel isSigned cmp (CallDelete k) m =
     map_option (\<lambda>(r, m). (map_run (\<lambda>ok. (0, ok)) r, m)) (inlineDelete fuel cmp m k)"

fun inlineRun ::
  "nat \<Rightarrow> bool \<Rightarrow> ('s \<Rightarrow> 64 word \<Rightarrow> 64 word) \<Rightarrow> (64 word, 'a::len word) call list \<Rightarrow> 's IMap \<Rightarrow>
     (('a word \<times> bool) run list \<times> 's IMap) option" where
  "inlineRun fuel isSigned cmp [] m = Some ([], m)"
| "inlineRun fuel isSigned cmp (c # cs) m = do {
     (r, m) \<leftarrow> inlineCall fuel isSigned cmp c m;
     (rs, m) \<leftarrow> inlineRun fuel isSigned cmp cs m;
     Some (r # rs, m) }"

lemma inlineCall_refines:
  fixes c :: "(64 word, 'a::len word) call"
  assumes len: "LENGTH('a) \<le> 64" and rdy: "inlineReady cmp m" and B: "B \<le> 33" "2 ^ B \<le> fuel"
    and K: "sparse (inlineHashOf cmp m) B K" "dom (inlineRaw cmp m) \<subseteq> K"
  obtains m' where "inlineCall fuel isSigned cmp c m =
      Some (Returned (fst (inlineSpecCall c (inlineAbs cmp m))), m')"
    "inlineReady cmp m'" "hashConfig m' = hashConfig m"
    "inlineAbs cmp m' = snd (inlineSpecCall c (inlineAbs cmp m))"
proof -
  have f: "0 < fuel" using B(2) by (cases fuel) simp_all
  have con: "inlineConsistent cmp m" using rdy by (simp add: inlineReady_def)
  show ?thesis
  proof (cases c)
    case (CallGet k)
    with rdy inlineGet_run [OF con f, where key = k and 'a = 'a] show ?thesis
      by (intro that [of m]) (simp_all add: found_def)
  next
    case (CallPut k v)
    then show ?thesis using inlinePut_run [OF len rdy f, of isSigned k v] that
      by (auto simp: found_def)
  next
    case (CallDelete k)
    obtain m' where m': "inlineDelete fuel cmp m k = Some (Returned (inlineRaw cmp m k \<noteq> None), m')"
      "inlineReady cmp m'" "hashConfig m' = hashConfig m" "inlineRaw cmp m' = (inlineRaw cmp m)(k := None)"
      using inlineDelete_run [OF rdy f, of k] by blast
    have "inlineAbs cmp m' = (inlineAbs cmp m :: 64 word \<Rightarrow> 'a word option)(k := None)"
      by (rule inlineAbs_remove [OF m'(4)])
    with CallDelete m'(1-3) show ?thesis by (intro that [of m']) (simp_all add: inlineAbs_def)
  next
    case (CallInsert k v)
    show ?thesis
    proof (cases "inlineAbs cmp m k :: 'a word option")
      case None
      note inlineInsert_run_absent [OF len rdy None B sparse_not_crowded [OF K], of isSigned v]
      with CallInsert that show ?thesis by (auto simp: None simp del: inlineAbs_None)
    next
      case (Some v')
      with inlineInsert_run_present [OF con f Some, of isSigned v] CallInsert rdy show ?thesis
        by (intro that [of m]) simp_all
    qed
  qed
qed

lemma inlineSpecCall_dom: "dom (snd (inlineSpecCall c M)) \<subseteq> insert (keyOf c) (dom M)"
  using specCall_dom [of 0 c M] by (cases c) auto

lemma inlineAbs_dom: "dom (inlineAbs cmp m) = dom (inlineRaw cmp m)"
  by (auto simp: inlineAbs_def dom_def)

lemma inlineRun_refines:
  fixes cs :: "(64 word, 'a::len word) call list"
  assumes "LENGTH('a) \<le> 64" "B \<le> 33" "2 ^ B \<le> fuel" "sparse (inlineHashOf cmp m) B K"
    and "inlineReady cmp m" "dom (inlineRaw cmp m) \<subseteq> K" "keyOf ` set cs \<subseteq> K"
  shows "\<exists>m'. inlineRun fuel isSigned cmp cs m =
      Some (map Returned (fst (inlineSpecRun cs (inlineAbs cmp m))), m') \<and>
    inlineReady cmp m' \<and> inlineAbs cmp m' = snd (inlineSpecRun cs (inlineAbs cmp m))"
  using assms(4-7)
proof (induction cs arbitrary: m)
  case Nil
  then show ?case by simp
next
  case (Cons c cs)
  obtain m1 where m1: "inlineCall fuel isSigned cmp c m =
      Some (Returned (fst (inlineSpecCall c (inlineAbs cmp m))), m1)"
    "inlineReady cmp m1" "hashConfig m1 = hashConfig m"
    "inlineAbs cmp m1 = snd (inlineSpecCall c (inlineAbs cmp m))"
    by (rule inlineCall_refines [OF assms(1) Cons.prems(2) assms(2,3) Cons.prems(1,3)]) (rule that)
  have h: "inlineHashOf cmp m1 = inlineHashOf cmp m" using m1(3) by (simp add: inlineHashOf_def)
  have "dom (inlineRaw cmp m1) \<subseteq> K"
    using inlineSpecCall_dom [of c "inlineAbs cmp m"] Cons.prems(3,4)
    unfolding inlineAbs_dom [where 'a = 'a, symmetric] m1(4) by auto
  then obtain m' where "inlineRun fuel isSigned cmp cs m1 =
      Some (map Returned (fst (inlineSpecRun cs (inlineAbs cmp m1))), m')"
    "inlineReady cmp m'" "inlineAbs cmp m' = snd (inlineSpecRun cs (inlineAbs cmp m1))"
    using Cons.IH [of m1] Cons.prems(1,4) m1(2) by (auto simp: h)
  with m1(1) show ?case by (simp add: m1(4) case_prod_beta' Let_def)
qed

end
