(* ===== verification/MapStats.thy ===== *)
theory MapStats
  imports ResizeRun Complex_Main
begin

text \<open>
  Counting and listing the entries of an index, the same in both packages: \<open>Size\<close>, \<open>Stats\<close>
  and \<open>validSlotCount\<close> of map.go, and the list of all entries the iterators are compared with.
\<close>

section \<open>All entries of an index\<close>

definition allEntries :: "('v Slot \<Rightarrow> ('k \<times> 'b) option) \<Rightarrow> 'v index \<Rightarrow> ('k \<times> 'b) list" where
  "allEntries content ix = concat (map (\<lambda>j. binEntries content ix (of_nat j)) [0..<length (bins ix)])"

lemma inBin_of_nat:
  assumes "shape ix" "j < length (bins ix)"
  shows "inBin ix (of_nat j)" "unat (of_nat j :: 64 word) = j"
proof -
  have "j \<le> 2 ^ 33" using assms(2) shape_length_bins [OF assms(1)] by simp
  then show "unat (of_nat j :: 64 word) = j" by (rule unat_small)
  with assms(2) show "inBin ix (of_nat j)" by (simp add: inBin_def)
qed

lemma slotEntry_binOf:
  assumes "entries_wf content hash ok ix" "inBin ix b" "slotEntry content ix b i = Some (k, v)"
  shows "binOf ix (hash k) = b"
proof -
  obtain s where "view ix b i = Some s" "content s = Some (k, v)"
    using assms(3) by (auto simp: slotEntry_def split: bind_splits)
  then show ?thesis using entries_wfD(2) [OF assms(1,2)] by fastforce
qed

lemma set_allEntries:
  assumes ew: "entries_wf content hash ok ix" and sh: "shape ix"
  shows "(k, v) \<in> set (allEntries content ix) \<longleftrightarrow> absMap content hash ix k = Some v"
proof
  assume "(k, v) \<in> set (allEntries content ix)"
  then obtain j where j: "j < length (bins ix)" "(k, v) \<in> set (binEntries content ix (of_nat j))"
    by (auto simp: allEntries_def)
  then obtain i where i: "slotEntry content ix (of_nat j) i = Some (k, v)"
    by (auto simp: set_binEntries)
  then show "absMap content hash ix k = Some v"
    using slotEntry_binOf [OF ew inBin_of_nat(1) [OF sh j(1)] i] absMap_Some [OF ew sh] by metis
next
  assume "absMap content hash ix k = Some v"
  then obtain i where "slotEntry content ix (binOf ix (hash k)) i = Some (k, v)"
    using absMap_Some [OF ew sh] by blast
  then have "(k, v) \<in> set (binEntries content ix (of_nat (unat (binOf ix (hash k)))))"
    by (auto simp: set_binEntries)
  moreover have "unat (binOf ix (hash k)) < length (bins ix)"
    using binOf_in [OF sh, of "hash k"] by (simp add: inBin_def)
  ultimately show "(k, v) \<in> set (allEntries content ix)" by (force simp: allEntries_def)
qed

lemma distinct_allEntries:
  assumes ew: "entries_wf content hash ok ix" and sh: "shape ix"
  shows "distinct (map fst (allEntries content ix))"
proof -
  have "distinct (map fst (concat (map (\<lambda>j. binEntries content ix (of_nat j)) js)))"
    if "distinct js" "set js \<subseteq> {..<length (bins ix)}" for js
    using that
  proof (induction js)
    case (Cons j js)
    let ?e = "\<lambda>j. binEntries content ix (of_nat j)"
    have lt: "j < length (bins ix)" using Cons.prems by simp
    have apart: "k \<notin> fst ` set (?e j')" if j': "j' \<in> set js" and k: "(k, v) \<in> set (?e j)" for j' k v
    proof
      assume "k \<in> fst ` set (?e j')"
      then obtain v' where "(k, v') \<in> set (?e j')" by force
      then obtain i i' where "slotEntry content ix (of_nat j) i = Some (k, v)"
        "slotEntry content ix (of_nat j') i' = Some (k, v')" using k by (auto simp: set_binEntries)
      moreover have "j' < length (bins ix)" using Cons.prems j' by auto
      ultimately have "(of_nat j :: 64 word) = of_nat j'"
        using slotEntry_binOf [OF ew] inBin_of_nat(1) [OF sh] lt by metis
      then have "j = j'" using inBin_of_nat(2) [OF sh] lt \<open>j' < length (bins ix)\<close> by metis
      with Cons.prems(1) j' show False by simp
    qed
    have "fst ` set (?e j) \<inter> (\<Union>j' \<in> set js. fst ` set (?e j')) = {}"
    proof (rule equals0I)
      fix k assume "k \<in> fst ` set (?e j) \<inter> (\<Union>j' \<in> set js. fst ` set (?e j'))"
      then obtain v j' where "(k, v) \<in> set (?e j)" "j' \<in> set js" "k \<in> fst ` set (?e j')" by fastforce
      with apart show False by blast
    qed
    moreover have "distinct (map fst (?e j))"
      by (rule distinct_binEntries [OF ew inBin_of_nat(1) [OF sh lt]])
    moreover have "distinct (map fst (concat (map ?e js)))" using Cons by simp
    ultimately show ?case by (simp add: image_UN)
  qed simp
  from this [of "[0..<length (bins ix)]"] show ?thesis by (simp add: allEntries_def subset_eq)
qed

lemma absMap_allEntries:
  assumes "entries_wf content hash ok ix" "shape ix"
  shows "map_of (allEntries content ix) = absMap content hash ix"
proof
  fix k
  have "map_of (allEntries content ix) k = Some v \<longleftrightarrow> absMap content hash ix k = Some v" for v
    using map_of_eq_Some_iff [OF distinct_allEntries [OF assms]] set_allEntries [OF assms] by simp
  then show "map_of (allEntries content ix) k = absMap content hash ix k" by (metis not_None_eq)
qed

lemma length_allEntries:
  assumes "entries_wf content hash ok ix" "shape ix"
  shows "length (allEntries content ix) = card (dom (absMap content hash ix))"
proof -
  have "dom (absMap content hash ix) = fst ` set (allEntries content ix)"
    unfolding absMap_allEntries [OF assms, symmetric] by (rule dom_map_of_conv_image_fst)
  then show ?thesis
    using distinct_card [OF distinct_allEntries [OF assms]] by simp
qed

lemma length_binEntries:
  assumes ew: "entries_wf content hash ok ix" and wf: "wf_index ix" and b: "inBin ix b"
  shows "length (binEntries content ix b) = validCount ix b"
proof -
  have sh: "shape ix" "links_wf ix" "states_wf ix" using wf by (simp_all add: wf_index_def)
  have "slotEntry content ix b i \<noteq> None \<longleftrightarrow> isValid ix b i" if i15: "i < 15" for i
  proof
    assume v: "isValid ix b i"
    then have "slotRef ix b i \<noteq> None"
      using sh(3) b i15 by (auto simp: states_wf_def isValid_def isInvalid_def)
    then obtain s where "slotIn ix b i = Some s" using slotIn_in [OF sh(1,2) b i15] by blast
    then have vw: "view ix b i = Some s" using v i15 by (simp add: view_def)
    then show "slotEntry content ix b i \<noteq> None"
      using entries_wfD(2) [OF ew b vw] by (auto simp: slotEntry_def)
  qed (auto simp: slotEntry_def view_def split: if_splits)
  then have "filter (\<lambda>i. slotEntry content ix b i \<noteq> None) [0..<15] = filter (isValid ix b) [0..<15]"
    by (intro filter_cong) auto
  moreover have "length (binEntries content ix b) = length (filter (\<lambda>i. slotEntry content ix b i \<noteq> None) [0..<15])"
    by (simp add: binEntries_def List.map_filter_def comp_def)
  moreover have "length (filter (isValid ix b) [0..<15]) = card (set (filter (isValid ix b) [0..<15]))"
    by (rule distinct_card [symmetric]) simp
  moreover have "set (filter (isValid ix b) [0..<15]) = {i. i < 15 \<and> isValid ix b i}"
    by (simp only: set_filter set_upt) auto
  ultimately show ?thesis by (simp add: validCount_def)
qed

section \<open>Size\<close>

definition validMask :: "32 word" where [simp]: "validMask = 0x2AAAAAAA"

fun countBins :: "'v PrimaryBucket list \<Rightarrow> 64 word \<Rightarrow> 64 word" where
  "countBins [] n = n"
| "countBins (pb # pbs) n =
     countBins pbs (n + of_nat (OnesCount32 (ucast (Header pb) AND validMask)))"

definition validSlotCount :: "'v index \<Rightarrow> 64 word" where
  "validSlotCount ix = countBins (bins ix) 0"

definition Size :: "('v, 'c) Map \<Rightarrow> 64 word option" where
  "Size m = map_option validSlotCount (indexAt m (getActiveIndex m))"

lemma bit_validMask:
  assumes "n < 32"
  shows "bit validMask n \<longleftrightarrow> n < 30 \<and> odd n"
proof -
  have "\<forall>n \<in> set [0..<32]. bit (0x2AAAAAAA :: 32 word) n = (n < 30 \<and> odd n)" by code_simp
  with assms show ?thesis by simp
qed

text \<open>The population count of a masked header is the number of valid slots it states.\<close>

lemma OnesCount32_validMask:
  "OnesCount32 (ucast (h :: 64 word) AND validMask) = card {i. i < 15 \<and> stHi h i}"
proof -
  have "OnesCount32 (ucast h AND validMask) =
      card (set (filter (bit (ucast h AND validMask :: 32 word)) [0..<32]))"
    unfolding OnesCount32_def by (rule distinct_card [symmetric]) simp
  also have "set (filter (bit (ucast h AND validMask :: 32 word)) [0..<32]) =
      (\<lambda>i. 2 * i + 1) ` {i. i < 15 \<and> stHi h i}"
  proof (rule set_eqI)
    fix n
    have "n \<in> set (filter (bit (ucast h AND validMask :: 32 word)) [0..<32]) \<longleftrightarrow>
        n < 30 \<and> odd n \<and> bit h n"
      using bit_validMask [of n] by (auto simp: bit_simps simp del: validMask_def)
    also have "\<dots> \<longleftrightarrow> n \<in> (\<lambda>i. 2 * i + 1) ` {i. i < 15 \<and> stHi h i}"
      by (auto elim!: oddE)
    finally show "n \<in> set (filter (bit (ucast h AND validMask :: 32 word)) [0..<32]) \<longleftrightarrow>
        n \<in> (\<lambda>i. 2 * i + 1) ` {i. i < 15 \<and> stHi h i}" .
  qed
  also have "card \<dots> = card {i. i < 15 \<and> stHi h i}" by (rule card_image) (simp add: inj_on_def)
  finally show ?thesis .
qed

lemma countBins_sum:
  "countBins pbs n = n + of_nat (\<Sum>pb\<leftarrow>pbs. OnesCount32 (ucast (Header pb) AND validMask))"
  by (induction pbs arbitrary: n) (simp_all add: add.assoc)

lemma validSlotCount_card:
  assumes ew: "entries_wf content hash ok ix" and wf: "wf_index ix"
  shows "unat (validSlotCount ix) = card (dom (absMap content hash ix))"
    and "card (dom (absMap content hash ix)) \<le> 15 * length (bins ix)"
proof -
  have sh: "shape ix" using wf by (simp add: wf_index_def)
  have bin: "length (binEntries content ix (of_nat j)) =
      OnesCount32 (ucast (Header (bins ix ! j)) AND validMask)" if "j < length (bins ix)" for j
  proof -
    note b = inBin_of_nat [OF sh that]
    have "hdr ix (of_nat j) = Header (bins ix ! j)" by (simp add: hdr_def b(2))
    then show ?thesis
      unfolding length_binEntries [OF ew wf b(1)] OnesCount32_validMask validCount_def
      using isValid_stHi [OF wf b(1)] by (metis (no_types, lifting))
  qed
  have "length (allEntries content ix) = (\<Sum>j\<leftarrow>[0..<length (bins ix)]. length (binEntries content ix (of_nat j)))"
    by (simp add: allEntries_def length_concat comp_def)
  also have "\<dots> = (\<Sum>j\<leftarrow>[0..<length (bins ix)]. OnesCount32 (ucast (Header (bins ix ! j)) AND validMask))"
    by (rule arg_cong [where f = sum_list], rule map_cong [OF refl]) (simp add: bin)
  also have "\<dots> = (\<Sum>pb\<leftarrow>bins ix. OnesCount32 (ucast (Header pb) AND validMask))"
    by (subst (3) map_nth [symmetric]) (simp add: comp_def)
  finally have l: "length (allEntries content ix) =
      (\<Sum>pb\<leftarrow>bins ix. OnesCount32 (ucast (Header pb) AND validMask))" .
  have "OnesCount32 (ucast (Header pb) AND validMask) \<le> 15" for pb :: "'a PrimaryBucket"
    unfolding OnesCount32_validMask
    using card_mono [of "{..<15}" "{i. i < 15 \<and> stHi (Header pb) i}"] by (simp add: subset_eq)
  then have "length (allEntries content ix) \<le> (\<Sum>pb\<leftarrow>bins ix. 15)"
    unfolding l by (intro sum_list_mono)
  also have "\<dots> = 15 * length (bins ix)" by (simp add: sum_list_triv)
  finally have le: "length (allEntries content ix) \<le> 15 * length (bins ix)" .
  then show "card (dom (absMap content hash ix)) \<le> 15 * length (bins ix)"
    by (simp add: length_allEntries [OF ew sh])
  have "length (allEntries content ix) < 2 ^ 64"
    using le shape_length_bins [OF sh] by simp
  then show "unat (validSlotCount ix) = card (dom (absMap content hash ix))"
    unfolding validSlotCount_def countBins_sum l [symmetric] length_allEntries [OF ew sh, symmetric]
    by (simp add: unsigned_of_nat take_bit_eq_mod)
qed

section \<open>Stats\<close>

text \<open>\<open>LoadFactor\<close> is the exact quotient; Go rounds it to the nearest \<open>float64\<close>.\<close>

record Stats =
  Bins :: "64 word"
  Links :: "64 word"
  LinkCapacity :: "64 word"
  StatsSize :: "64 word"
  Capacity :: "64 word"
  LoadFactor :: rat
  Resizing :: bool

definition statsOf :: "('v, 'c) Map \<Rightarrow> Stats option" where
  "statsOf m = do {
     ix \<leftarrow> indexAt m (getActiveIndex m);
     let nBins = (of_nat (length (bins ix)) :: 64 word);
     let arenaLen = (of_nat (length (links ix)) :: 64 word);
     let bottomCap = (ucast (linkCapacity ix) :: 64 word);
     let linkNxt = (ucast (linkNext ix) :: 64 word);
     let transferLinks = (if bottomCap < arenaLen then arenaLen - bottomCap - 1 else 0);
     let sz = validSlotCount ix;
     let capacity = nBins * 15;
     let lf = (if capacity > 0 then of_nat (unat sz) / of_nat (unat capacity) else (0 :: rat));
     Some \<lparr>Bins = nBins, Links = linkNxt + transferLinks, LinkCapacity = arenaLen, StatsSize = sz,
           Capacity = capacity, LoadFactor = lf, Resizing = resizeCtx m \<noteq> None\<rparr> }"

lemma statsOf_spec:
  assumes g: "generations m" and ew: "entries_wf content hash ok (current m)"
  obtains st where "statsOf m = Some st" "unat (StatsSize st) = card (dom (absMap content hash (current m)))"
    "unat (Bins st) = length (bins (current m))" "unat (Capacity st) = 15 * length (bins (current m))"
    "unat (Links st) = unat (linkNext (current m)) +
       (if unat (linkCapacity (current m)) < length (links (current m))
        then length (links (current m)) - unat (linkCapacity (current m)) - 1 else 0)"
    "unat (LinkCapacity st) = length (links (current m))"
    "LoadFactor st = of_nat (card (dom (absMap content hash (current m)))) / of_nat (15 * length (bins (current m)))"
    "\<not> Resizing st"
proof -
  let ?ix = "current m"
  note st = settledD(1,2,3) [OF generations_settled [OF g]]
  have B: "length (bins ?ix) \<le> 2 ^ 33" "0 < length (bins ?ix)" "length (links ?ix) \<le> 2 ^ 30"
    using shape_length_bins [OF st(3)] shape_length_links [OF st(3)] st(3) by (auto simp: shape_def)
  have ub: "unat (of_nat (length (bins ?ix)) :: 64 word) = length (bins ?ix)"
    using B(1) by (intro unat_small)
  have ul: "unat (of_nat (length (links ?ix)) :: 64 word) = length (links ?ix)"
    using B(3) by (intro unat_small) simp
  have uc: "unat (of_nat (length (bins ?ix)) * 15 :: 64 word) = 15 * length (bins ?ix)"
  proof -
    have "length (bins ?ix) * 15 < 2 ^ 64" using B(1) by simp
    then show ?thesis by (simp add: unat_word_ariths ub)
  qed
  note sz = validSlotCount_card [OF ew st(1)]
  let ?a = "length (links ?ix)" and ?c = "unat (linkCapacity ?ix)" and ?n = "unat (linkNext ?ix)"
  have al: "?c \<le> ?a" "?n \<le> ?c" using st(2) by (simp_all add: alloc_ok_def)
  have w: "ucast (linkCapacity ?ix) = (of_nat ?c :: 64 word)" "ucast (linkNext ?ix) = (of_nat ?n :: 64 word)"
    by simp_all
  have uc': "unat (of_nat ?c :: 64 word) = ?c" using al B(3) by (intro unat_small) simp
  define t where "t = (if (of_nat ?c :: 64 word) < of_nat ?a then of_nat ?a - of_nat ?c - 1 else (0 :: 64 word))"
  have t: "t = of_nat (if ?c < ?a then ?a - ?c - 1 else 0)"
    unfolding t_def word_less_nat_alt ul uc' using al(1) by (auto simp: of_nat_diff)
  have "of_nat ?n + t = (of_nat (?n + (if ?c < ?a then ?a - ?c - 1 else 0)) :: 64 word)"
    unfolding t by simp
  moreover have "?n + (if ?c < ?a then ?a - ?c - 1 else 0) \<le> ?a" using al by auto
  moreover have "unat (of_nat (?n + (if ?c < ?a then ?a - ?c - 1 else 0)) :: 64 word) =
      ?n + (if ?c < ?a then ?a - ?c - 1 else 0)"
    using B(3) by (intro unat_small order_trans [OF calculation(2)]) simp
  ultimately have lk: "unat (of_nat ?n + t :: 64 word) = ?n + (if ?c < ?a then ?a - ?c - 1 else 0)" by (simp only:)
  have pos: "(of_nat (length (bins ?ix)) * 15 :: 64 word) > 0"
    using uc B(2) by (simp add: word_less_nat_alt)
  have res: "resizeCtx m = None" using g by (simp add: generations_def)
  show ?thesis
  proof (rule that)
    show "statsOf m = Some \<lparr>Bins = of_nat (length (bins ?ix)), Links = of_nat ?n + t,
        LinkCapacity = of_nat ?a, StatsSize = validSlotCount ?ix,
        Capacity = of_nat (length (bins ?ix)) * 15,
        LoadFactor = of_nat (unat (validSlotCount ?ix)) / of_nat (unat (of_nat (length (bins ?ix)) * 15 :: 64 word)),
        Resizing = False\<rparr>"
      unfolding statsOf_def getActiveIndex_def indexAt_active [OF g] Option.bind.simps Let_def w
        t_def [symmetric] res using pos by simp
  qed (simp_all only: Stats.simps sz ub uc ul lk simp_thms)
qed

text \<open>\<open>Links\<close> counts the link buckets in use, where every bucket handed out is attached.\<close>

lemma attached_count:
  assumes "wf_index ix" "linksExact ix"
  shows "card {(b, u). inBin ix b \<and> u < 3 \<and> linkAt ix b u \<noteq> 0} = unat (linkNext ix) +
     (if unat (linkCapacity ix) < length (links ix) then length (links ix) - unat (linkCapacity ix) - 1 else 0)"
  using card_attached [OF assms(1)] assms(2) by (simp add: linksExact_def)

lemma Size_card:
  assumes "generations m" "entries_wf content hash ok (current m)"
  shows "\<exists>n. Size m = Some n \<and> unat n = card (dom (absMap content hash (current m)))"
  using validSlotCount_card(1) [OF assms(2) settledD(1) [OF generations_settled [OF assms(1)]]]
  by (simp add: Size_def getActiveIndex_def assms(1))

end
