(* ===== verification/MapIter.thy ===== *)
theory MapIter
  imports MapStats
begin

text \<open>
  The iterators (iter.go), shared by both packages up to what is copied out of a slot
  (\<open>load\<close>) and how a copy becomes a pair (\<open>item\<close>). The callback \<open>yield\<close> is a function with
  its own state. Main result: without interference, \<open>Range\<close> calls \<open>yield\<close> on every stored
  pair exactly once, in a fixed order, until it returns false.
\<close>

section \<open>Definitions\<close>

text \<open>A loop that stops early: \<open>Returned False\<close> leaves it.\<close>

fun forUntil :: "('a \<Rightarrow> 'y \<Rightarrow> (bool run \<times> 'y) option) \<Rightarrow> 'a list \<Rightarrow> 'y \<Rightarrow> (bool run \<times> 'y) option" where
  "forUntil f [] y = Some (Returned True, y)"
| "forUntil f (x # xs) y = do {
     (r, y') \<leftarrow> f x y;
     (case r of Returned b \<Rightarrow> if b then forUntil f xs y' else Some (Returned False, y')
      | Spinning \<Rightarrow> Some (Spinning, y')) }"

definition readPrimarySlots ::
  "('v Slot \<Rightarrow> 'e) \<Rightarrow> 'v PrimaryBucket \<Rightarrow> 32 word \<Rightarrow> 'e list option" where
  "readPrimarySlots load pb vm = do {
     a \<leftarrow> (if vm AND 0x01 \<noteq> 0 then map_option (\<lambda>s. [load s]) (slotAt pb 0) else Some []);
     b \<leftarrow> (if vm AND 0x04 \<noteq> 0 then map_option (\<lambda>s. [load s]) (slotAt pb 1) else Some []);
     c \<leftarrow> (if vm AND 0x10 \<noteq> 0 then map_option (\<lambda>s. [load s]) (slotAt pb 2) else Some []);
     Some (a @ b @ c) }"

definition readLinkSlots ::
  "('v Slot \<Rightarrow> 'e) \<Rightarrow> 'v LinkBucket \<Rightarrow> 32 word \<Rightarrow> 'e list option" where
  "readLinkSlots load lb vm = do {
     a \<leftarrow> (if vm AND 0x01 \<noteq> 0 then map_option (\<lambda>s. [load s]) (linkSlotAt lb 0) else Some []);
     b \<leftarrow> (if vm AND 0x04 \<noteq> 0 then map_option (\<lambda>s. [load s]) (linkSlotAt lb 1) else Some []);
     c \<leftarrow> (if vm AND 0x10 \<noteq> 0 then map_option (\<lambda>s. [load s]) (linkSlotAt lb 2) else Some []);
     d \<leftarrow> (if vm AND 0x40 \<noteq> 0 then map_option (\<lambda>s. [load s]) (linkSlotAt lb 3) else Some []);
     Some (a @ b @ c @ d) }"

text \<open>The middle of \<open>scanBin\<close>: \<open>buf[:count]\<close> after the reads, for a header \<open>h0\<close>.\<close>

definition readBin ::
  "('v Slot \<Rightarrow> 'e) \<Rightarrow> 'v index \<Rightarrow> 64 word \<Rightarrow> 64 word \<Rightarrow> 'e list option" where
  "readBin load ix binIdx h0 = do {
     pb \<leftarrow> getBinByIndex ix binIdx;
     let vmPrim = validMask3 h0;
     let vmS = validMask4 h0 3;
     let vmP0 = validMask4 h0 7;
     let vmP1 = validMask4 h0 11;
     prim \<leftarrow> readPrimarySlots load pb vmPrim;
     (if (vmS OR vmP0 OR vmP1) \<noteq> 0
      then do {
        let lm = LinkMeta pb;
        s \<leftarrow> (if vmS \<noteq> 0 then do { lb \<leftarrow> getLinkBucket ix (getSingle lm); readLinkSlots load lb vmS }
             else Some []);
        p0 \<leftarrow> (if vmP0 \<noteq> 0 then do { lb \<leftarrow> getLinkBucket ix (getPairStart lm); readLinkSlots load lb vmP0 }
              else Some []);
        p1 \<leftarrow> (if vmP1 \<noteq> 0 then do { lb \<leftarrow> getLinkBucket ix (getPairStart lm + 1); readLinkSlots load lb vmP1 }
              else Some []);
        Some (prim @ s @ p0 @ p1) }
      else Some prim) }"

definition emit ::
  "('e \<Rightarrow> ('k \<times> 'b) option) \<Rightarrow> ('k \<Rightarrow> 'b \<Rightarrow> 'y \<Rightarrow> bool \<times> 'y) \<Rightarrow> 'e \<Rightarrow> 'y \<Rightarrow> (bool run \<times> 'y) option" where
  "emit item yld e y = (case item e of
     None \<Rightarrow> Some (Returned True, y)
   | Some (k, v) \<Rightarrow> (let (b, y') = yld k v y in Some (Returned b, y')))"

definition scanShards ::
  "(nat \<Rightarrow> 64 word \<Rightarrow> 'y \<Rightarrow> (bool run \<times> 'y) option) \<Rightarrow> ('v, 'c) Map \<Rightarrow> nat \<Rightarrow> 64 word \<Rightarrow> 'y \<Rightarrow>
     (bool run \<times> 'y) option" where
  "scanShards scan m oldIdx oldBinIdx y = do {
     newIdx \<leftarrow> getNextIndex m oldIdx;
     oix \<leftarrow> indexAt m oldIdx;
     nix \<leftarrow> indexAt m newIdx;
     let oldBits = TrailingZeros64 (imask oix + 1);
     let newBits = TrailingZeros64 (imask nix + 1);
     let growth = (push_bit (newBits - oldBits) 1 :: 64 word);
     forUntil (\<lambda>k. scan newIdx (push_bit oldBits k OR oldBinIdx)) (map of_nat [0..<unat growth]) y }"

fun scanBin ::
  "nat \<Rightarrow> ('v Slot \<Rightarrow> 'e) \<Rightarrow> ('e \<Rightarrow> ('k \<times> 'b) option) \<Rightarrow> ('k \<Rightarrow> 'b \<Rightarrow> 'y \<Rightarrow> bool \<times> 'y) \<Rightarrow>
     ('v, 'c) Map \<Rightarrow> nat \<Rightarrow> 64 word \<Rightarrow> 'y \<Rightarrow> (bool run \<times> 'y) option" where
  "scanBin 0 load item yld m idx binIdx y = Some (Spinning, y)"
| "scanBin (Suc n) load item yld m idx binIdx y = do {
     ix \<leftarrow> indexAt m idx;
     h0 \<leftarrow> atomicLoadHeader ix binIdx;
     (if getBinState h0 = BinInTransfer then scanBin n load item yld m idx binIdx y
      else if getBinState h0 = BinDoneTransfer
      then scanShards (scanBin n load item yld m) m idx binIdx y
      else if validMask3 h0 OR validMask4 h0 3 OR validMask4 h0 7 OR validMask4 h0 11 = 0
      then Some (Returned True, y)
      else do {
        buf \<leftarrow> readBin load ix binIdx h0;
        h1 \<leftarrow> atomicLoadHeader ix binIdx;
        (if h1 \<noteq> h0 then scanBin n load item yld m idx binIdx y
         else forUntil (emit item yld) buf y) }) }"

definition rangeFrom ::
  "nat \<Rightarrow> ('v Slot \<Rightarrow> 'e) \<Rightarrow> ('e \<Rightarrow> ('k \<times> 'b) option) \<Rightarrow> ('k \<Rightarrow> 'b \<Rightarrow> 'y \<Rightarrow> bool \<times> 'y) \<Rightarrow>
     ('v, 'c) Map \<Rightarrow> nat \<Rightarrow> 'y \<Rightarrow> (unit run \<times> 'y) option" where
  "rangeFrom fuel load item yld m idx y = do {
     ix \<leftarrow> indexAt m idx;
     (r, y') \<leftarrow> forUntil (scanBin fuel load item yld m idx) (map of_nat [0..<length (bins ix)]) y;
     Some (map_run (\<lambda>_. ()) r, y') }"

definition Range ::
  "nat \<Rightarrow> ('v Slot \<Rightarrow> 'e) \<Rightarrow> ('e \<Rightarrow> ('k \<times> 'b) option) \<Rightarrow> ('k \<Rightarrow> 'b \<Rightarrow> 'y \<Rightarrow> bool \<times> 'y) \<Rightarrow>
     ('v, 'c) Map \<Rightarrow> 'y \<Rightarrow> (unit run \<times> 'y) option" where
  "Range fuel load item yld m y = rangeFrom fuel load item yld m (getActiveIndex m) y"

text \<open>\<open>All\<close>, \<open>Keys\<close> and \<open>Values\<close>: \<open>Range\<close> with the callback of the for loop.\<close>

definition All ::
  "nat \<Rightarrow> ('v Slot \<Rightarrow> 'e) \<Rightarrow> ('e \<Rightarrow> ('k \<times> 'b) option) \<Rightarrow> ('v, 'c) Map \<Rightarrow>
     ('k \<Rightarrow> 'b \<Rightarrow> 'y \<Rightarrow> bool \<times> 'y) \<Rightarrow> 'y \<Rightarrow> (unit run \<times> 'y) option" where
  "All fuel load item m = (\<lambda>yld. Range fuel load item yld m)"

definition Keys ::
  "nat \<Rightarrow> ('v Slot \<Rightarrow> 'e) \<Rightarrow> ('e \<Rightarrow> ('k \<times> 'b) option) \<Rightarrow> ('v, 'c) Map \<Rightarrow>
     ('k \<Rightarrow> 'y \<Rightarrow> bool \<times> 'y) \<Rightarrow> 'y \<Rightarrow> (unit run \<times> 'y) option" where
  "Keys fuel load item m = (\<lambda>yld. Range fuel load item (\<lambda>k _. yld k) m)"

definition Values ::
  "nat \<Rightarrow> ('v Slot \<Rightarrow> 'e) \<Rightarrow> ('e \<Rightarrow> ('k \<times> 'b) option) \<Rightarrow> ('v, 'c) Map \<Rightarrow>
     ('b \<Rightarrow> 'y \<Rightarrow> bool \<times> 'y) \<Rightarrow> 'y \<Rightarrow> (unit run \<times> 'y) option" where
  "Values fuel load item m = (\<lambda>yld. Range fuel load item (\<lambda>_ v. yld v) m)"

section \<open>Reading a bin\<close>

lemma map_filter_append: "List.map_filter f (xs @ ys) = List.map_filter f xs @ List.map_filter f ys"
  by (simp add: List.map_filter_def)

lemma map_filter_shift: "List.map_filter f (map g xs) = List.map_filter (\<lambda>x. f (g x)) xs"
  by (simp add: List.map_filter_def filter_map comp_def)

lemma spread3_probe:
  "spread [a, b, c] AND 0x01 \<noteq> 0 \<longleftrightarrow> a" "spread [a, b, c] AND 0x04 \<noteq> 0 \<longleftrightarrow> b"
  "spread [a, b, c] AND 0x10 \<noteq> 0 \<longleftrightarrow> c"
  by (cases a; cases b; cases c; simp)+

lemma spread4_probe:
  "spread [a, b, c, d] AND 0x01 \<noteq> 0 \<longleftrightarrow> a" "spread [a, b, c, d] AND 0x04 \<noteq> 0 \<longleftrightarrow> b"
  "spread [a, b, c, d] AND 0x10 \<noteq> 0 \<longleftrightarrow> c" "spread [a, b, c, d] AND 0x40 \<noteq> 0 \<longleftrightarrow> d"
  by (cases a; cases b; cases c; cases d; simp)+

lemma readPrimarySlots_view:
  assumes wf: "wf_index ix" "inBin ix b"
  shows "readPrimarySlots load (bins ix ! unat b) (validMask3 (hdr ix b)) =
    Some (map load (List.map_filter (view ix b) primarySlots))"
proof -
  have sh: "shape ix" "states_wf ix" using wf(1) by (simp_all add: wf_index_def)
  note v = view_primary [OF sh wf(2)]
  have s: "slotAt (bins ix ! unat b) 0 = Some (Slots (bins ix ! unat b) ! 0)"
    "slotAt (bins ix ! unat b) 1 = Some (Slots (bins ix ! unat b) ! 1)"
    "slotAt (bins ix ! unat b) 2 = Some (Slots (bins ix ! unat b) ! 2)"
    using v(2) [of 0] v(2) [of 1] v(2) [of 2] by simp_all
  have w: "view ix b 0 = (if stHi (hdr ix b) 0 then Some (Slots (bins ix ! unat b) ! 0) else None)"
    "view ix b 1 = (if stHi (hdr ix b) 1 then Some (Slots (bins ix ! unat b) ! 1) else None)"
    "view ix b 2 = (if stHi (hdr ix b) 2 then Some (Slots (bins ix ! unat b) ! 2) else None)"
    using v(1) [of 0] v(1) [of 1] v(1) [of 2] by simp_all
  have f: "List.map_filter (view ix b) [0, 1, 2] = (case view ix b 0 of Some s \<Rightarrow> [s] | None \<Rightarrow> []) @
      (case view ix b 1 of Some s \<Rightarrow> [s] | None \<Rightarrow> []) @ (case view ix b 2 of Some s \<Rightarrow> [s] | None \<Rightarrow> [])"
    by (simp add: List.map_filter_simps split: option.splits)
  show ?thesis
    unfolding readPrimarySlots_def validMask3_spread spread3_probe s primarySlots_def f w
    by simp
qed

lemma linkSlots_unattached:
  assumes wf: "wf_index ix" "inBin ix b" and u: "u < 3" "base = 3 + 4 * u" "linkAt ix b u = 0"
  shows "validMask4 (hdr ix b) base = 0" "List.map_filter (view ix b) (linkSegment u) = []"
proof -
  have sw: "states_wf ix" using wf(1) by (simp add: wf_index_def)
  have inv: "isInvalid ix b (base + j)" if "j < 4" for j
  proof -
    have i: "3 + 4 * u + j < 15" "3 \<le> 3 + 4 * u + j" "(3 + 4 * u + j - 3) div 4 = u"
      using that u(1) by auto
    then have "slotRef ix b (3 + 4 * u + j) = None"
      using u(3) slotRef_link [OF wf(2) i(2)] by simp
    then show ?thesis unfolding u(2) using sw wf(2) i(1) unfolding states_wf_def by blast
  qed
  note low = inv [of 0] inv [of 1] inv [of 2] inv [of 3]
  have vm: "validMask4 (hdr ix b) base = spread [stHi (hdr ix b) (base + 0), stHi (hdr ix b) (base + 1),
      stHi (hdr ix b) (base + 2), stHi (hdr ix b) (base + 3)]"
    using validMask4_spread [of base "hdr ix b"] link_base [OF u(1)] u(2) by simp
  show "validMask4 (hdr ix b) base = 0"
    unfolding vm spread4_eq_0 using low by (simp add: isInvalid_def)
  have "view ix b (base + j) = None" if "j < 4" for j
    unfolding u(2) by (rule view_unattached [OF sw wf(2) u(1,3) that])
  note none = this [of 0] this [of 1] this [of 2] this [of 3]
  then show "List.map_filter (view ix b) (linkSegment u) = []"
    unfolding linkSegment_def map_filter_shift u(2) by (simp add: List.map_filter_simps)
qed

lemma readLinkSlots_view:
  assumes wf: "wf_index ix" "inBin ix b" and u: "u < 3" "base = 3 + 4 * u"
  shows "(if validMask4 (hdr ix b) base \<noteq> 0
      then do { lb \<leftarrow> getLinkBucket ix (linkAt ix b u); readLinkSlots load lb (validMask4 (hdr ix b) base) }
      else Some []) = Some (map load (List.map_filter (view ix b) (linkSegment u)))"
proof -
  have sh: "shape ix" "links_wf ix" "states_wf ix" using wf(1) by (simp_all add: wf_index_def)
  have vm: "validMask4 (hdr ix b) base = spread [stHi (hdr ix b) (base + 0), stHi (hdr ix b) (base + 1),
      stHi (hdr ix b) (base + 2), stHi (hdr ix b) (base + 3)]"
    using validMask4_spread [of base "hdr ix b"] link_base [OF u(1)] u(2) by simp
  have f: "List.map_filter (view ix b) (linkSegment u) =
      (case view ix b (base + 0) of Some s \<Rightarrow> [s] | None \<Rightarrow> []) @
      (case view ix b (base + 1) of Some s \<Rightarrow> [s] | None \<Rightarrow> []) @
      (case view ix b (base + 2) of Some s \<Rightarrow> [s] | None \<Rightarrow> []) @
      (case view ix b (base + 3) of Some s \<Rightarrow> [s] | None \<Rightarrow> [])"
    unfolding linkSegment_def map_filter_shift u(2)
    by (simp add: List.map_filter_simps split: option.splits)
  show ?thesis
  proof (cases "linkAt ix b u = 0")
    case True
    then show ?thesis using linkSlots_unattached [OF wf u True] by simp
  next
    case False
    obtain lb where lb: "getLinkBucket ix (linkAt ix b u) = Some lb" "length (LinkSlots lb) = 4"
      "\<And>j. j < 4 \<Longrightarrow> view ix b (3 + 4 * u + j) =
         (if stHi (hdr ix b) (3 + 4 * u + j) then Some (LinkSlots lb ! j) else None)"
      by (rule view_link [OF sh wf(2) u(1) False]) (rule that)
    note v = lb(3) [of 0, folded u(2)] lb(3) [of 1, folded u(2)] lb(3) [of 2, folded u(2)]
      lb(3) [of 3, folded u(2)]
    have s: "linkSlotAt lb 0 = Some (LinkSlots lb ! 0)" "linkSlotAt lb 1 = Some (LinkSlots lb ! 1)"
      "linkSlotAt lb 2 = Some (LinkSlots lb ! 2)" "linkSlotAt lb 3 = Some (LinkSlots lb ! 3)"
      using lb(2) by (simp_all add: linkSlotAt_def)
    have "readLinkSlots load lb (validMask4 (hdr ix b) base) =
        Some (map load (List.map_filter (view ix b) (linkSegment u)))"
      unfolding readLinkSlots_def vm spread4_probe s f using v by simp
    moreover have "List.map_filter (view ix b) (linkSegment u) = []" if "validMask4 (hdr ix b) base = 0"
      using that v unfolding f vm spread4_eq_0 by simp
    ultimately show ?thesis using lb(1) by simp
  qed
qed

lemma or_eq_0: "(x :: 32 word) OR y = 0 \<longleftrightarrow> x = 0 \<and> y = 0"
  by (metis or.right_idem or_eq_0_iff)

text \<open>What a settled bin yields: the visible slots, in slot order.\<close>

lemma readBin_view:
  assumes wf: "wf_index ix" "inBin ix b"
  shows "readBin load ix b (hdr ix b) = Some (map load (List.map_filter (view ix b) [0..<15]))"
proof -
  have sh: "links_wf ix" using wf(1) by (simp add: wf_index_def)
  let ?h = "hdr ix b" and ?lm = "LinkMeta (bins ix ! unat b)"
  let ?seg = "\<lambda>u. map load (List.map_filter (view ix b) (linkSegment u))"
  have at: "getSingle ?lm = linkAt ix b 0" "getPairStart ?lm = linkAt ix b 1"
    by (simp_all add: linkAt_def lmeta_def resolveLink_def)
  have l: "(if validMask4 ?h 3 \<noteq> 0
      then do { lb \<leftarrow> getLinkBucket ix (getSingle ?lm); readLinkSlots load lb (validMask4 ?h 3) }
      else Some []) = Some (?seg 0)"
    "(if validMask4 ?h 7 \<noteq> 0
      then do { lb \<leftarrow> getLinkBucket ix (getPairStart ?lm); readLinkSlots load lb (validMask4 ?h 7) }
      else Some []) = Some (?seg 1)"
    unfolding at by (rule readLinkSlots_view [OF wf]; simp)+
  have l2: "(if validMask4 ?h 11 \<noteq> 0
      then do { lb \<leftarrow> getLinkBucket ix (getPairStart ?lm + 1); readLinkSlots load lb (validMask4 ?h 11) }
      else Some []) = Some (?seg 2)"
  proof (cases "linkAt ix b 1 = 0")
    case False
    then have "getPairStart ?lm + 1 = linkAt ix b 2"
      unfolding at by (simp add: linkAt_def lmeta_def resolveLink_def)
    then show ?thesis by (simp only:) (rule readLinkSlots_view [OF wf]; simp)
  next
    case True
    then have "linkAt ix b 2 = 0" by (simp add: linkAt_def lmeta_def resolveLink_def)
    then have "?seg 2 = [] \<and> validMask4 ?h 11 = 0"
      using linkSlots_unattached [OF wf, of 2 11] by simp
    then show ?thesis by simp
  qed
  have all: "map load (List.map_filter (view ix b) [0..<15]) =
      map load (List.map_filter (view ix b) primarySlots) @ ?seg 0 @ ?seg 1 @ ?seg 2"
    by (simp add: upt_15 linkSlots_segments map_filter_append)
  have none: "?seg 0 = [] \<and> ?seg 1 = [] \<and> ?seg 2 = []"
    if "validMask4 ?h 3 OR validMask4 ?h 7 OR validMask4 ?h 11 = 0"
    using that l l2 by (simp add: or_eq_0)
  show ?thesis
    unfolding readBin_def getBinByIndex_in [OF wf(2)] Option.bind.simps Let_def
      readPrimarySlots_view [OF wf] l l2 all
    using none by simp
qed

section \<open>Range\<close>

text \<open>The reference: call \<open>yield\<close> on the pairs of a list until it returns false.\<close>

fun consume :: "('k \<Rightarrow> 'b \<Rightarrow> 'y \<Rightarrow> bool \<times> 'y) \<Rightarrow> ('k \<times> 'b) list \<Rightarrow> 'y \<Rightarrow> bool \<times> 'y" where
  "consume yld [] y = (True, y)"
| "consume yld ((k, v) # es) y =
     (let (b, y') = yld k v y in if b then consume yld es y' else (False, y'))"

definition consumed :: "('k \<Rightarrow> 'b \<Rightarrow> 'y \<Rightarrow> bool \<times> 'y) \<Rightarrow> ('k \<times> 'b) list \<Rightarrow> 'y \<Rightarrow> (bool run \<times> 'y) option" where
  "consumed yld es y = (let (b, y') = consume yld es y in Some (Returned b, y'))"

lemma consume_append:
  "consume yld (es @ fs) y = (let (b, y') = consume yld es y in if b then consume yld fs y' else (False, y'))"
  by (induction yld es y rule: consume.induct) (auto split: prod.splits)

lemma forUntil_emit: "forUntil (emit item yld) xs y = consumed yld (List.map_filter item xs) y"
  by (induction xs arbitrary: y)
    (auto simp: consumed_def emit_def List.map_filter_simps split: option.splits prod.splits)

lemma forUntil_consumed:
  assumes "\<And>x y. x \<in> set xs \<Longrightarrow> f x y = consumed yld (g x) y"
  shows "forUntil f xs y = consumed yld (concat (map g xs)) y"
  using assms
proof (induction xs arbitrary: y)
  case Nil
  then show ?case by (simp add: consumed_def)
next
  case (Cons x xs)
  have "f x y = consumed yld (g x) y" by (rule Cons.prems) simp
  moreover have "forUntil f xs y' = consumed yld (concat (map g xs)) y'" for y'
    by (rule Cons.IH) (use Cons.prems in simp)
  ultimately show ?case by (simp add: consumed_def consume_append split: prod.splits)
qed

lemma map_filter_bind:
  "List.map_filter item (map load (List.map_filter f xs)) =
    List.map_filter (\<lambda>x. Option.bind (f x) (item \<circ> load)) xs"
  by (induction xs) (simp_all add: List.map_filter_simps split: option.splits)

lemma scanBin_current:
  assumes at: "indexAt m idx = Some ix" and st: "settled ix" and b: "inBin ix b"
  shows "scanBin (Suc n) load item yld m idx b y = consumed yld (binEntries (item \<circ> load) ix b) y"
proof -
  note wf = settledD(1) [OF st]
  have h: "atomicLoadHeader ix b = Some (hdr ix b)" using b by (simp add: atomicLoadHeader_def hdr_def)
  note r = readBin_view [OF wf b, of load]
  have be: "List.map_filter item (map load (List.map_filter (view ix b) [0..<15])) =
      binEntries (item \<circ> load) ix b"
    unfolding map_filter_bind binEntries_def slotEntry_def [abs_def] ..
  have none: "binEntries (item \<circ> load) ix b = []"
    if z: "validMask3 (hdr ix b) OR validMask4 (hdr ix b) 3 OR validMask4 (hdr ix b) 7 OR
      validMask4 (hdr ix b) 11 = 0"
  proof -
    from z have "readBin load ix b (hdr ix b) = Some []"
      unfolding or_eq_0 readBin_def using b by (simp add: readPrimarySlots_def)
    then show ?thesis unfolding be [symmetric] r by (simp add: List.map_filter_simps)
  qed
  show ?thesis
    using settledD(4) [OF st b] none
    by (simp add: at h r be forUntil_emit consumed_def)
qed

lemma Range_spec:
  assumes g: "generations m" and fuel: "0 < fuel"
  shows "Range fuel load item yld m y =
    (let (b, y') = consume yld (allEntries (item \<circ> load) (current m)) y in Some (Returned (), y'))"
proof -
  note st = generations_settled [OF g]
  obtain n where n: "fuel = Suc n" using fuel by (cases fuel) auto
  have "forUntil (scanBin fuel load item yld m (active m)) (map of_nat [0..<length (bins (current m))]) y =
      consumed yld (concat (map (binEntries (item \<circ> load) (current m)) (map of_nat [0..<length (bins (current m))]))) y"
    unfolding n
    by (rule forUntil_consumed, rule scanBin_current)
      (use g st inBin_of_nat(1) [OF settledD(3) [OF st]] in auto)
  then show ?thesis
    by (simp add: Range_def rangeFrom_def getActiveIndex_def g consumed_def allEntries_def comp_def
        split: prod.splits)
qed

text \<open>\<open>Range\<close> with a callback that collects everything.\<close>

lemma consume_collect: "consume (\<lambda>k v acc. (True, acc @ [(k, v)])) es acc = (True, acc @ es)"
  by (induction es arbitrary: acc) auto

lemma consume_keys: "consume (\<lambda>k v acc. (True, acc @ [k])) es acc = (True, acc @ map fst es)"
  by (induction es arbitrary: acc) auto

lemma consume_values: "consume (\<lambda>k v acc. (True, acc @ [v])) es acc = (True, acc @ map snd es)"
  by (induction es arbitrary: acc) auto

end
