(* ===== verification/IterChain.thy ===== *)
theory IterChain
  imports MapIter "HOL-Library.Multiset"
begin

text \<open>
  An iteration that started at an older generation. \<open>scanBin\<close> meets transferred bins only and
  descends, through \<open>scanShards\<close>, to the bins of the active generation that took their
  entries. Main result: from any generation, every stored pair is yielded exactly once.
\<close>

section \<open>The bins an old bin was split into\<close>

lemma TrailingZeros64_exp:
  assumes "n < 64"
  shows "TrailingZeros64 (2 ^ n) = n"
proof -
  have "takeWhile (\<lambda>i. \<not> bit (2 ^ n :: 64 word) i) ([0..<n] @ [n..<64]) = [0..<n]"
    using assms by (subst takeWhile_append2) (simp_all add: bit_exp_iff upt_conv_Cons)
  moreover have "[0..<64] = [0..<n] @ [n..<64]"
    using upt_add_eq_append [of 0 n "64 - n"] assms by simp
  ultimately show ?thesis by (simp add: TrailingZeros64_def)
qed

lemma indexBits:
  assumes "shape ix" "length (bins ix) = 2 ^ n"
  shows "n \<le> 33" "TrailingZeros64 (imask ix + 1) = n"
proof -
  obtain k where k: "k \<le> 33" "imask ix = Bit_Operations.mask k" "length (bins ix) = 2 ^ k"
    by (rule imask_mask [OF assms(1)]) (rule that)
  with assms(2) have "k = n" by simp
  with k show "n \<le> 33" "TrailingZeros64 (imask ix + 1) = n"
    by (simp_all add: mask_eq_exp_minus_1 TrailingZeros64_exp)
qed

text \<open>Shard \<open>k\<close> of bin \<open>j\<close>, of \<open>2 ^ p\<close> bins, is bin \<open>k * 2 ^ p + j\<close> of the larger index.\<close>

lemma shard_bin:
  assumes "j < 2 ^ p" "p \<le> 33"
  shows "push_bit p (of_nat k) OR of_nat j = (of_nat (k * 2 ^ p + j) :: 64 word)"
proof -
  have "push_bit p (of_nat k) + of_nat j = (push_bit p (of_nat k) OR of_nat j :: 64 word)"
  proof (rule disjunctive_add_eq_or)
    have "bit j n \<Longrightarrow> n < p" for n
      using assms(1) by (metis bit_take_bit_iff take_bit_nat_eq_self)
    then show "push_bit p (of_nat k) AND of_nat j = (0 :: 64 word)"
      by (force simp: bit_eq_iff bit_simps)
  qed
  then show ?thesis by (simp add: push_bit_eq_mult)
qed

lemma sum_grid:
  fixes f :: "nat \<Rightarrow> 'a::comm_monoid_add"
  shows "(\<Sum>j<P. \<Sum>k<R. f (k * P + j)) = sum f {..<R * P}"
proof -
  have "sum f {..<R * P} = (\<Sum>k<R. sum f {k * P..<k * P + P})" by (rule sum.nat_group [symmetric])
  also have "\<dots> = (\<Sum>k<R. \<Sum>j<P. f (k * P + j))"
    by (rule sum.cong [OF refl]) (simp add: sum.atLeastLessThan_shift_0 atLeast0LessThan comp_def)
  also have "\<dots> = (\<Sum>j<P. \<Sum>k<R. f (k * P + j))" by (rule sum.swap)
  finally show ?thesis ..
qed

section \<open>Descending through the generations\<close>

fun descend :: "('v Slot \<Rightarrow> ('k \<times> 'b) option) \<Rightarrow> ('v, 'c) Map \<Rightarrow> nat \<Rightarrow> nat \<Rightarrow> nat \<Rightarrow> ('k \<times> 'b) list" where
  "descend content m 0 i j = binEntries content (indexes m ! i) (of_nat j)"
| "descend content m (Suc d) i j =
     concat (map (\<lambda>k. descend content m d (Suc i) (k * length (bins (indexes m ! i)) + j))
       [0..<length (bins (indexes m ! Suc i)) div length (bins (indexes m ! i))])"

lemma mset_upt: "mset (concat (map f [0..<n])) = (\<Sum>j<n. mset (f j))"
  by (simp add: mset_concat comp_def interv_sum_list_conv_sum_set_nat lessThan_atLeast0)

lemma generation_sizes:
  assumes g: "generations m" and i: "i < active m"
  obtains p r where "length (bins (indexes m ! i)) = 2 ^ p" "length (bins (indexes m ! Suc i)) = 2 ^ (p + r)"
    "p + r \<le> 33" "shape (indexes m ! i)" "shape (indexes m ! Suc i)" "Suc i < length (indexes m)"
proof -
  have len: "Suc i < length (indexes m)" using g i by (simp add: generations_def)
  have sh: "shape (indexes m ! j)" if "j \<le> active m" for j
    using g that settledD(3) [OF generations_settled [OF g]]
    by (cases "j = active m") (auto simp: generations_def retired_def current_def)
  have s: "shape (indexes m ! i)" "shape (indexes m ! Suc i)" using sh i by simp_all
  then obtain p q where q: "length (bins (indexes m ! i)) = 2 ^ p" "length (bins (indexes m ! Suc i)) = 2 ^ q" "q \<le> 33"
    unfolding shape_def by blast
  have "sorted (map (\<lambda>ix. length (bins ix)) (indexes m))"
    using g by (simp add: generations_def ascending_def)
  then have "length (bins (indexes m ! i)) \<le> length (bins (indexes m ! Suc i))"
    using len sorted_nth_mono [of "map (\<lambda>ix. length (bins ix)) (indexes m)" i "Suc i"] by simp
  then have "p \<le> q" by (simp add: q)
  then obtain r where "q = p + r" using le_iff_add by blast
  with q s len show ?thesis by (intro that [of p r]) simp_all
qed

lemma forUntil_map: "forUntil f (map g xs) y = forUntil (\<lambda>x. f (g x)) xs y"
proof (induction xs arbitrary: y)
  case (Cons a xs)
  then show ?case by (simp cong: if_cong run.case_cong)
qed simp

lemma descend_all:
  assumes g: "generations m" and i: "i + d = active m"
  shows "mset (concat (map (descend content m d i) [0..<length (bins (indexes m ! i))])) =
    mset (allEntries content (current m))"
  using i
proof (induction d arbitrary: i)
  case 0
  then show ?case by (simp add: allEntries_def current_def)
next
  case (Suc d)
  have "i < active m" using Suc.prems by simp
  then obtain p r where z: "length (bins (indexes m ! i)) = 2 ^ p"
    "length (bins (indexes m ! Suc i)) = 2 ^ (p + r)"
    by (rule generation_sizes [OF g]) (rule that)
  have div: "(2::nat) ^ (p + r) div 2 ^ p = 2 ^ r" by (simp add: power_add)
  have "mset (concat (map (descend content m (Suc d) i) [0..<2 ^ p])) =
      (\<Sum>j<2 ^ p. \<Sum>k<2 ^ r. mset (descend content m d (Suc i) (k * 2 ^ p + j)))"
    unfolding mset_upt descend.simps z div ..
  also have "\<dots> = (\<Sum>c<2 ^ r * 2 ^ p. mset (descend content m d (Suc i) c))" by (rule sum_grid)
  also have "\<dots> = mset (concat (map (descend content m d (Suc i)) [0..<2 ^ (p + r)]))"
    unfolding mset_upt by (simp add: power_add mult.commute)
  also have "\<dots> = mset (allEntries content (current m))"
    using Suc.IH [of "Suc i"] Suc.prems z(2) by simp
  finally show ?case by (simp only: z(1))
qed

lemma scanBin_descend:
  assumes g: "generations m"
  shows "i + d = active m \<Longrightarrow> j < length (bins (indexes m ! i)) \<Longrightarrow> d < n \<Longrightarrow>
    scanBin n load item yld m i (of_nat j) y = consumed yld (descend (item \<circ> load) m d i j) y"
proof (induction d arbitrary: i j n y)
  case 0
  then obtain n' where n: "n = Suc n'" by (cases n) auto
  have b: "inBin (current m) (of_nat j)"
    using 0 inBin_of_nat(1) [OF settledD(3) [OF generations_settled [OF g]]] by (simp add: current_def)
  show ?case
    using scanBin_current [OF indexAt_active [OF g] generations_settled [OF g] b, where n = n'] 0(1)
    by (simp add: n current_def comp_def del: scanBin.simps)
next
  case (Suc d)
  then obtain n' where n: "n = Suc n'" "d < n'" by (cases n) auto
  have i: "i < active m" using Suc.prems by simp
  then obtain p r where z: "length (bins (indexes m ! i)) = 2 ^ p"
    "length (bins (indexes m ! Suc i)) = 2 ^ (p + r)" "p + r \<le> 33"
    "shape (indexes m ! i)" "shape (indexes m ! Suc i)" "Suc i < length (indexes m)"
    by (rule generation_sizes [OF g]) (rule that)
  let ?o = "indexes m ! i" and ?n = "indexes m ! Suc i"
  have j: "j < 2 ^ p" using Suc.prems(2) z(1) by simp
  have b: "inBin ?o (of_nat j)" using inBin_of_nat(1) [OF z(4)] Suc.prems(2) by simp
  have ret: "getBinState (hdr ?o (of_nat j)) = BinDoneTransfer" "indexNext ?o = Some (Suc i)"
    using g i b by (auto simp: generations_def retired_def)
  have at: "indexAt m i = Some ?o" "indexAt m (Suc i) = Some ?n"
    using z(6) by (simp_all add: indexAt_def)
  have h: "atomicLoadHeader ?o (of_nat j) = Some (hdr ?o (of_nat j))"
    using b by (simp add: atomicLoadHeader_def hdr_def)
  note bits = indexBits(2) [OF z(4,1)] indexBits(2) [OF z(5,2)]
  have gr: "unat (2 ^ r :: 64 word) = 2 ^ r" "(2::nat) ^ (p + r) div 2 ^ p = 2 ^ r"
  proof -
    have "(2::nat) ^ r \<le> 2 ^ 33" using z(3) by (intro power_increasing) simp_all
    then show "unat (2 ^ r :: 64 word) = 2 ^ r" using unat_small [of "2 ^ r"] by simp
  qed (simp add: power_add)
  have shard: "scanBin n' load item yld m (Suc i) (push_bit p (of_nat k) OR of_nat j) y' =
      consumed yld (descend (item \<circ> load) m d (Suc i) (k * 2 ^ p + j)) y'" if k: "k < 2 ^ r" for k y'
  proof -
    have "k * 2 ^ p + j < Suc k * 2 ^ p" using j by simp
    also have "\<dots> \<le> 2 ^ r * 2 ^ p" using k by (intro mult_right_mono) auto
    finally have "k * 2 ^ p + j < length (bins ?n)" by (simp add: z(2) power_add mult.commute)
    then show ?thesis
      using Suc.IH [of "Suc i" "k * 2 ^ p + j" n' y'] Suc.prems(1) n(2) shard_bin [OF j, of k] z(3)
      by (simp add: comp_def)
  qed
  have "scanBin n load item yld m i (of_nat j) y =
      forUntil (\<lambda>k. scanBin n' load item yld m (Suc i) (push_bit p k OR of_nat j)) (map of_nat [0..<2 ^ r]) y"
    unfolding n(1) by (simp add: at h ret scanShards_def getNextIndex_def bits Let_def push_bit_eq_mult gr(1))
  also have "\<dots> = forUntil (\<lambda>k. scanBin n' load item yld m (Suc i) (push_bit p (of_nat k) OR of_nat j)) [0..<2 ^ r] y"
    by (rule forUntil_map)
  also have "\<dots> = consumed yld (descend (item \<circ> load) m (Suc d) i j) y"
    unfolding descend.simps z(1,2) gr(2) by (rule forUntil_consumed) (rule shard, simp)
  finally show ?case .
qed

lemma map_of_mset:
  assumes "mset es = mset ps" "distinct (map fst ps)"
  shows "distinct (map fst es)" "map_of es = map_of ps"
proof -
  have "mset (map fst es) = mset (map fst ps)" using assms(1) by simp
  then show d: "distinct (map fst es)" using assms(2) mset_eq_imp_distinct_iff by blast
  have "map_of es k = Some v \<longleftrightarrow> map_of ps k = Some v" for k v
    unfolding map_of_eq_Some_iff [OF d] map_of_eq_Some_iff [OF assms(2)]
    using mset_eq_setD [OF assms(1)] by simp
  then show "map_of es = map_of ps" by (metis ext not_None_eq)
qed

text \<open>\<open>rangeFrom\<close> at any generation: a fixed list, a permutation of the stored pairs.\<close>

lemma rangeFrom_spec:
  assumes g: "generations m" and i: "i \<le> active m" and fuel: "active m - i < fuel"
  obtains es where "mset es = mset (allEntries (item \<circ> load) (current m))"
    "\<And>yld y. rangeFrom fuel load item yld m i y =
      (let (b, y') = consume yld es y in Some (Returned (), y'))"
proof
  let ?es = "concat (map (descend (item \<circ> load) m (active m - i) i) [0..<length (bins (indexes m ! i))])"
  show "mset ?es = mset (allEntries (item \<circ> load) (current m))"
    using descend_all [OF g, of i "active m - i"] i by simp
  have at: "indexAt m i = Some (indexes m ! i)"
    using g i by (simp add: indexAt_def generations_def)
  fix yld y
  have "forUntil (\<lambda>j. scanBin fuel load item yld m i (of_nat j)) [0..<length (bins (indexes m ! i))] y =
      consumed yld ?es y"
    by (rule forUntil_consumed, rule scanBin_descend [OF g]) (use i fuel in auto)
  then show "rangeFrom fuel load item yld m i y = (let (b, y') = consume yld ?es y in Some (Returned (), y'))"
    by (simp add: rangeFrom_def at forUntil_map consumed_def split: prod.splits)
qed

end
