(* ===== verification/AllocTable.thy ===== *)
theory AllocTable
  imports AllocMap IterChain
begin

text \<open>
  The rest of the allocator package's interface over the abstract map: resizing, iteration,
  \<open>Size\<close> and \<open>Stats\<close>. The definitions instantiate the shared models at the package's slots.
\<close>

section \<open>Definitions\<close>

definition AllocTriggerResize ::
  "nat \<Rightarrow> ('k, 'b, 's) AMap \<Rightarrow> (bool run \<times> ('k, 'b, 's) AMap) option" where
  "AllocTriggerResize fuel m = triggerResize fuel None moveEntry GetTransferSentinel m"

definition AllocHelpResize ::
  "nat \<Rightarrow> ('k, 'b, 's) AMap \<Rightarrow> (unit run \<times> ('k, 'b, 's) AMap) option" where
  "AllocHelpResize fuel m = helpResize fuel moveEntry GetTransferSentinel m"

text \<open>\<open>if e == nil { continue }\<close>, then \<open>yield(e.Key, e.Value)\<close>.\<close>

definition entryItem :: "('k, 'b) EntryPtr \<Rightarrow> ('k \<times> 'b) option" where
  "entryItem e = map_option (\<lambda>e. (entryKey e, entryValue e)) e"

definition AllocScanBin ::
  "nat \<Rightarrow> ('k \<Rightarrow> 'b \<Rightarrow> 'y \<Rightarrow> bool \<times> 'y) \<Rightarrow> ('k, 'b, 's) AMap \<Rightarrow> nat \<Rightarrow> 64 word \<Rightarrow> 'y \<Rightarrow>
     (bool run \<times> 'y) option" where
  "AllocScanBin fuel yld m idx binIdx y = scanBin fuel Val entryItem yld m idx binIdx y"

definition AllocRangeFrom ::
  "nat \<Rightarrow> ('k \<Rightarrow> 'b \<Rightarrow> 'y \<Rightarrow> bool \<times> 'y) \<Rightarrow> ('k, 'b, 's) AMap \<Rightarrow> nat \<Rightarrow> 'y \<Rightarrow> (unit run \<times> 'y) option" where
  "AllocRangeFrom fuel yld m idx y = rangeFrom fuel Val entryItem yld m idx y"

definition AllocRange ::
  "nat \<Rightarrow> ('k \<Rightarrow> 'b \<Rightarrow> 'y \<Rightarrow> bool \<times> 'y) \<Rightarrow> ('k, 'b, 's) AMap \<Rightarrow> 'y \<Rightarrow> (unit run \<times> 'y) option" where
  "AllocRange fuel yld m y = Range fuel Val entryItem yld m y"

definition AllocAll ::
  "nat \<Rightarrow> ('k, 'b, 's) AMap \<Rightarrow> ('k \<Rightarrow> 'b \<Rightarrow> 'y \<Rightarrow> bool \<times> 'y) \<Rightarrow> 'y \<Rightarrow> (unit run \<times> 'y) option" where
  "AllocAll fuel m = All fuel Val entryItem m"

definition AllocKeys ::
  "nat \<Rightarrow> ('k, 'b, 's) AMap \<Rightarrow> ('k \<Rightarrow> 'y \<Rightarrow> bool \<times> 'y) \<Rightarrow> 'y \<Rightarrow> (unit run \<times> 'y) option" where
  "AllocKeys fuel m = Keys fuel Val entryItem m"

definition AllocValues ::
  "nat \<Rightarrow> ('k, 'b, 's) AMap \<Rightarrow> ('b \<Rightarrow> 'y \<Rightarrow> bool \<times> 'y) \<Rightarrow> 'y \<Rightarrow> (unit run \<times> 'y) option" where
  "AllocValues fuel m = Values fuel Val entryItem m"

section \<open>Resize\<close>

lemma generations_resizable: "generations m \<Longrightarrow> resizable m"
  using settledD(1) [OF generations_settled] by (auto simp: resizable_def generations_def)

lemma AllocTriggerResize_run:
  assumes "consistent cmp m" "length (bins (current m)) \<le> 2 ^ 32"
    "chunkCount (length (bins (current m))) \<le> fuel"
  shows "\<exists>m'. AllocTriggerResize fuel m = Some (Returned True, m') \<and> consistent cmp m' \<and>
    absOf cmp m' = absOf cmp m \<and> hashConfig m' = hashConfig m \<and> active m' = Suc (active m) \<and>
    2 * length (bins (current m)) \<le> length (bins (current m'))"
proof -
  let ?h = "hashOf cmp m"
  have g: "generations m" "entries_wf entryContent ?h (entryOk ?h) (current m)"
    using assms(1) by (simp_all add: consistent_def)
  obtain m' where m': "triggerResize fuel None moveEntry GetTransferSentinel m = Some (Returned True, m')"
    "generations m'" "active m' = Suc (active m)" "hashConfig m' = hashConfig m"
    "entries_wf entryContent ?h (entryOk ?h) (current m')"
    "absMap entryContent ?h (current m') = absMap entryContent ?h (current m)"
    "2 * length (bins (current m)) \<le> length (bins (current m'))" "linksExact (current m')"
    by (rule alloc.triggerResize_spec [OF generations_resizable [OF g(1)] g(2) assms(2) _ assms(3),
          where zv = None and transferSentinel = GetTransferSentinel]) (simp, rule that)
  have h: "hashOf cmp m' = ?h" using m'(4) by (simp add: hashOf_def)
  show ?thesis
    using m' by (intro exI [of _ m']) (simp add: AllocTriggerResize_def consistent_def absOf_def h)
qed

section \<open>Stats after a run of calls\<close>

lemma AllocNew_linksExact:
  fixes m :: "('k, 'b, 's) AMap"
  assumes "unat initialSize \<le> 2 ^ 33" and m: "m = AllocNew seed initialSize"
  shows "linksExact (current m)"
proof -
  obtain n where n: "n \<le> 33" "current m = newIndex None (2 ^ n)"
    by (rule New_generations [OF assms(1), of None "initHashConfig seed"])
      (rule that, simp_all add: AllocNew_def m)
  have "(\<Sum>b | inBin (current m) b. linkCount (current m) b) = 0"
    unfolding n(2) by (rule sum.neutral) (auto intro: newIndex_invalid(4))
  then show ?thesis
    unfolding n(2) linksExact_def by (simp add: newIndex_def fresh_sizes [OF n(1)])
qed

lemma Stats_after_run:
  fixes m :: "('k, 'b, 's) AMap"
  assumes new: "unat initialSize \<le> 2 ^ 33" "m = AllocNew seed initialSize"
    and B: "B \<le> 33" "2 ^ B \<le> fuel" "sparse (hashOf cmp m) B (keyOf ` set cs)"
  obtains rs m' st where "apiRun fuel cmp zv newp cs m = Some (rs, m')" "statsOf m' = Some st"
    "unat (StatsSize st) = card (dom (snd (specRun zv cs Map.empty)))"
    "unat (Bins st) = length (bins (current m'))" "unat (Capacity st) = 15 * length (bins (current m'))"
    "unat (Links st) = card {(b, u). inBin (current m') b \<and> u < 3 \<and> linkAt (current m') b u \<noteq> 0}"
    "unat (LinkCapacity st) = length (links (current m'))"
    "LoadFactor st = of_nat (card (dom (snd (specRun zv cs Map.empty)))) / of_nat (15 * length (bins (current m')))"
    "\<not> Resizing st"
proof -
  note n = AllocNew_consistent(1,2) [OF new, where cmp = cmp]
  have "dom (absOf cmp m) \<subseteq> keyOf ` set cs" by (simp add: n(2))
  from apiRun_refines [OF B n(1) this order_refl, of zv newp, unfolded n(2)]
  obtain m' where m': "apiRun fuel cmp zv newp cs m =
      Some (map Returned (fst (specRun zv cs Map.empty)), m')"
    "consistent cmp m'" "absOf cmp m' = snd (specRun zv cs Map.empty)" "linksExact (current m')"
    using AllocNew_linksExact [OF new] by blast
  have g: "generations m'" "entries_wf entryContent (hashOf cmp m') (entryOk (hashOf cmp m')) (current m')"
    using m'(2) by (simp_all add: consistent_def)
  have wf: "wf_index (current m')" using settledD(1) [OF generations_settled [OF g(1)]] .
  show ?thesis
  proof (rule statsOf_spec [OF g])
    fix st
    assume "statsOf m' = Some st"
      "unat (StatsSize st) = card (dom (absMap entryContent (hashOf cmp m') (current m')))"
      "unat (Bins st) = length (bins (current m'))" "unat (Capacity st) = 15 * length (bins (current m'))"
      "unat (Links st) = unat (linkNext (current m')) + (if unat (linkCapacity (current m')) < length (links (current m'))
        then length (links (current m')) - unat (linkCapacity (current m')) - 1 else 0)"
      "unat (LinkCapacity st) = length (links (current m'))"
      "LoadFactor st = of_nat (card (dom (absMap entryContent (hashOf cmp m') (current m')))) /
        of_nat (15 * length (bins (current m')))" "\<not> Resizing st"
    with attached_count [OF wf m'(4)] m'(1,3) show thesis
      unfolding absOf_def by (intro that [OF m'(1)]) simp_all
  qed
qed

section \<open>Iteration\<close>

lemma entryItem_Val: "entryItem \<circ> Val = entryContent"
  by (simp add: fun_eq_iff entryItem_def entryContent_def)

definition pairs :: "('k, 'b, 's) AMap \<Rightarrow> ('k \<times> 'b) list" where
  "pairs m = allEntries entryContent (current m)"

lemma pairs_map:
  assumes "consistent cmp m"
  shows "distinct (map fst (pairs m))" "map_of (pairs m) = absOf cmp m"
    "length (pairs m) = card (dom (absOf cmp m))"
proof -
  have ew: "entries_wf entryContent (hashOf cmp m) (entryOk (hashOf cmp m)) (current m)"
    and sh: "shape (current m)"
    using assms settledD(3) [OF generations_settled] by (auto simp: consistent_def)
  show "distinct (map fst (pairs m))" "map_of (pairs m) = absOf cmp m"
    "length (pairs m) = card (dom (absOf cmp m))"
    unfolding pairs_def absOf_def
    using distinct_allEntries [OF ew sh] absMap_allEntries [OF ew sh] length_allEntries [OF ew sh]
    by simp_all
qed

lemma AllocRange_consume:
  assumes "generations m" "0 < fuel"
  shows "AllocRange fuel yld m y = Some (Returned (), snd (consume yld (pairs m) y))"
  unfolding AllocRange_def Range_spec [OF assms] entryItem_Val pairs_def by (simp add: case_prod_beta')

lemma AllocRangeFrom_consume:
  assumes "consistent cmp m" "i \<le> active m" "active m - i < fuel"
  obtains es where "distinct (map fst es)" "map_of es = absOf cmp m"
    "\<And>yld (y :: 'y). AllocRangeFrom fuel yld m i y = Some (Returned (), snd (consume yld es y))"
proof -
  have g: "generations m" using assms(1) by (simp add: consistent_def)
  obtain es where es: "mset es = mset (allEntries entryContent (current m))"
    "\<And>yld (y :: 'y). rangeFrom fuel Val entryItem yld m i y =
      (let (b, y') = consume yld es y in Some (Returned (), y'))"
    by (rule rangeFrom_spec [OF g assms(2,3), where load = Val and item = entryItem, unfolded entryItem_Val])
      (rule that)
  have p: "mset es = mset (pairs m)" using es(1) by (simp add: pairs_def)
  note d = map_of_mset [OF this pairs_map(1) [OF assms(1)]]
  from d pairs_map(2) [OF assms(1)] es(2) show ?thesis
    by (intro that [of es]) (simp_all add: AllocRangeFrom_def case_prod_beta')
qed

section \<open>Size and Stats\<close>

lemma Size_run:
  assumes "consistent cmp m"
  shows "\<exists>n. Size m = Some n \<and> unat n = card (dom (absOf cmp m))"
  using Size_card assms unfolding consistent_def absOf_def by blast

end
