(* ===== verification/InlineTable.thy ===== *)
theory InlineTable
  imports InlineMap AllocTable
begin

text \<open>
  The rest of the inline package: its copies of the index, link and resize code, which differ
  from the allocator's only in the type of a slot's second word, as instances of the shared
  models; then resizing, iteration, \<open>Size\<close> and \<open>Stats\<close> over the abstract map.
\<close>

section \<open>Index and links\<close>

definition inlineNewIndex :: "64 word \<Rightarrow> 64 word index" where
  "inlineNewIndex n = newIndex 0 n"

definition inlineGetBin :: "64 word index \<Rightarrow> 64 word \<Rightarrow> 64 word PrimaryBucket option" where
  "inlineGetBin ix hash = getBin ix hash"

definition inlineGetBinByIndex :: "64 word index \<Rightarrow> 64 word \<Rightarrow> 64 word PrimaryBucket option" where
  "inlineGetBinByIndex ix b = getBinByIndex ix b"

definition inlineGetLinkBucket :: "64 word index \<Rightarrow> 32 word \<Rightarrow> 64 word LinkBucket option" where
  "inlineGetLinkBucket ix l = getLinkBucket ix l"

definition inlineGetSlotByIndex :: "64 word index \<Rightarrow> 64 word \<Rightarrow> int \<Rightarrow> SlotRef option option" where
  "inlineGetSlotByIndex ix b i = getSlotByIndex ix b i"

definition inlineChooseInsertSlot :: "64 word index \<Rightarrow> 64 word \<Rightarrow> (int \<times> 64 word index) option" where
  "inlineChooseInsertSlot ix b = chooseInsertSlot ix b"

definition inlineAllocateLink :: "64 word index \<Rightarrow> 32 word \<times> 64 word index" where
  "inlineAllocateLink ix = allocateLink ix"

definition inlineAllocateLinkPair :: "64 word index \<Rightarrow> 32 word \<times> 64 word index" where
  "inlineAllocateLinkPair ix = allocateLinkPair ix"

definition inlineAttachSingle :: "64 word index \<Rightarrow> 64 word \<Rightarrow> (32 word \<times> 64 word index) option" where
  "inlineAttachSingle ix b = attachSingle ix b"

definition inlineAttachPair :: "64 word index \<Rightarrow> 64 word \<Rightarrow> (32 word \<times> 64 word index) option" where
  "inlineAttachPair ix b = attachPair ix b"

section \<open>Insert\<close>

text \<open>\<open>slot.Key = 0; slot.Val = 0\<close>\<close>

definition inlineWipe :: "64 word Slot \<Rightarrow> 64 word Slot" where
  "inlineWipe s = s\<lparr>Key := 0, Val := 0\<rparr>"

definition inlineUnreserveSlot ::
  "64 word index \<Rightarrow> 64 word \<Rightarrow> int \<Rightarrow> (bool \<times> 64 word index) option" where
  "inlineUnreserveSlot ix b i = unreserveSlot inlineWipe ix b i"

section \<open>Resize\<close>

definition inlineFindFreeSlotOrChain ::
  "64 word index \<Rightarrow> 64 word \<Rightarrow> 32 word \<Rightarrow> (int \<times> 64 word index \<times> 32 word) option" where
  "inlineFindFreeSlotOrChain ix b linkNextR = findFreeSlotOrChain ix b linkNextR"

definition inlineTransferValidSlots ::
  "(64 word \<Rightarrow> 64 word) \<Rightarrow> 32 word \<Rightarrow> (int \<Rightarrow> SlotRef) \<Rightarrow> 64 word \<Rightarrow> 64 word xfer \<Rightarrow> 64 word xfer option" where
  "inlineTransferValidSlots hash vm baseSlot sentinel st =
     transferSlots (moveKey hash) vm baseSlot sentinel st"

definition inlineTransferBin ::
  "(64 word \<Rightarrow> 64 word) \<Rightarrow> 's InlineHashConfig \<Rightarrow> 64 word \<Rightarrow> 64 word xfer \<Rightarrow> 64 word xfer option" where
  "inlineTransferBin hash cfg binIndex st =
     transferBin (moveKey hash) (inlineGetTransferSentinel cfg) binIndex st"

definition inlineTransferChunk ::
  "('s \<Rightarrow> 64 word \<Rightarrow> 64 word) \<Rightarrow> 's IMap \<Rightarrow> nat \<Rightarrow> 64 word \<Rightarrow> 's IMap option" where
  "inlineTransferChunk cmp m c chunkIndex =
     transferChunk (moveKey (inlineHashOf cmp m)) (inlineGetTransferSentinel (hashConfig m)) m c chunkIndex"

definition inlineHelpWithChunks ::
  "nat \<Rightarrow> ('s \<Rightarrow> 64 word \<Rightarrow> 64 word) \<Rightarrow> 's IMap \<Rightarrow> nat \<Rightarrow> (unit run \<times> 's IMap) option" where
  "inlineHelpWithChunks fuel cmp m c =
     helpWithChunks fuel (moveKey (inlineHashOf cmp m)) (inlineGetTransferSentinel (hashConfig m)) m c"

definition inlineTriggerResize ::
  "nat \<Rightarrow> ('s \<Rightarrow> 64 word \<Rightarrow> 64 word) \<Rightarrow> 's IMap \<Rightarrow> (bool run \<times> 's IMap) option" where
  "inlineTriggerResize fuel cmp m =
     triggerResize fuel 0 (moveKey (inlineHashOf cmp m)) (inlineGetTransferSentinel (hashConfig m)) m"

definition inlineHelpResize ::
  "nat \<Rightarrow> ('s \<Rightarrow> 64 word \<Rightarrow> 64 word) \<Rightarrow> 's IMap \<Rightarrow> (unit run \<times> 's IMap) option" where
  "inlineHelpResize fuel cmp m =
     helpResize fuel (moveKey (inlineHashOf cmp m)) (inlineGetTransferSentinel (hashConfig m)) m"

lemma inlineTriggerResize_run:
  assumes "inlineReady cmp m" "length (bins (current m)) \<le> 2 ^ 32"
    "chunkCount (length (bins (current m))) \<le> fuel"
  shows "\<exists>m'. inlineTriggerResize fuel cmp m = Some (Returned True, m') \<and> inlineReady cmp m' \<and>
    inlineRaw cmp m' = inlineRaw cmp m \<and> hashConfig m' = hashConfig m \<and>
    active m' = Suc (active m) \<and> 2 * length (bins (current m)) \<le> length (bins (current m'))"
proof -
  let ?h = "inlineHashOf cmp m" and ?s = "inlineGetTransferSentinel (hashConfig m)"
  have g: "generations m" "entries_wf pairContent ?h (\<lambda>_. True) (current m)"
    "2 \<le> length (bins (current m))" "opposed cmp (hashConfig m)"
    using assms(1) by (simp_all add: inlineReady_def inlineConsistent_def)
  have "sentinel_safe pairContent ?h (\<lambda>_. True) (\<lambda>sentinel s. Key s \<noteq> sentinel) ?s 2"
    using g(4) by (intro inline_sentinel_safe) (simp_all add: inlineHashOf_def)
  then have av: "\<forall>b i s. inBin (current m) b \<and> view (current m) b i = Some s \<longrightarrow> Key s \<noteq> ?s b"
    using g(2,3) settledD(1) [OF generations_settled [OF g(1)]] unfolding sentinel_safe_def by blast
  obtain m' where m': "triggerResize fuel 0 (moveKey ?h) ?s m = Some (Returned True, m')"
    "generations m'" "active m' = Suc (active m)" "hashConfig m' = hashConfig m"
    "entries_wf pairContent ?h (\<lambda>_. True) (current m')"
    "absMap pairContent ?h (current m') = absMap pairContent ?h (current m)"
    "2 * length (bins (current m)) \<le> length (bins (current m'))" "linksExact (current m')"
    by (rule inl.triggerResize_spec [OF generations_resizable [OF g(1)] g(2) assms(2) av assms(3),
          where zv = 0]) (rule that)
  have h: "inlineHashOf cmp m' = ?h" using m'(4) by (simp add: inlineHashOf_def)
  show ?thesis
    using m' g(3,4)
    by (intro exI [of _ m'])
      (simp add: inlineTriggerResize_def inlineReady_def inlineConsistent_def inlineRaw_def h)
qed

section \<open>Iteration\<close>

text \<open>The buffer holds copies of the slots; \<open>yield(s.Key, V(s.Val))\<close>.\<close>

definition copySlot :: "64 word Slot \<Rightarrow> 64 word Slot" where
  "copySlot s = \<lparr>Key = Key s, Val = Val s\<rparr>"

definition slotItem :: "64 word Slot \<Rightarrow> (64 word \<times> 'a::len word) option" where
  "slotItem s = Some (Key s, fromRaw (Val s))"

definition readPrimarySlotsInline ::
  "64 word PrimaryBucket \<Rightarrow> 32 word \<Rightarrow> 64 word Slot list option" where
  "readPrimarySlotsInline pb vm = readPrimarySlots copySlot pb vm"

definition readLinkSlotsInline ::
  "64 word LinkBucket \<Rightarrow> 32 word \<Rightarrow> 64 word Slot list option" where
  "readLinkSlotsInline lb vm = readLinkSlots copySlot lb vm"

definition inlineScanBin ::
  "nat \<Rightarrow> (64 word \<Rightarrow> 'a::len word \<Rightarrow> 'y \<Rightarrow> bool \<times> 'y) \<Rightarrow> 's IMap \<Rightarrow> nat \<Rightarrow> 64 word \<Rightarrow> 'y \<Rightarrow>
     (bool run \<times> 'y) option" where
  "inlineScanBin fuel yld m idx binIdx y = scanBin fuel copySlot slotItem yld m idx binIdx y"

definition inlineScanShards ::
  "nat \<Rightarrow> (64 word \<Rightarrow> 'a::len word \<Rightarrow> 'y \<Rightarrow> bool \<times> 'y) \<Rightarrow> 's IMap \<Rightarrow> nat \<Rightarrow> 64 word \<Rightarrow> 'y \<Rightarrow>
     (bool run \<times> 'y) option" where
  "inlineScanShards fuel yld m oldIdx oldBinIdx y =
     scanShards (inlineScanBin fuel yld m) m oldIdx oldBinIdx y"

definition inlineRangeFrom ::
  "nat \<Rightarrow> (64 word \<Rightarrow> 'a::len word \<Rightarrow> 'y \<Rightarrow> bool \<times> 'y) \<Rightarrow> 's IMap \<Rightarrow> nat \<Rightarrow> 'y \<Rightarrow> (unit run \<times> 'y) option" where
  "inlineRangeFrom fuel yld m idx y = rangeFrom fuel copySlot slotItem yld m idx y"

definition inlineRange ::
  "nat \<Rightarrow> (64 word \<Rightarrow> 'a::len word \<Rightarrow> 'y \<Rightarrow> bool \<times> 'y) \<Rightarrow> 's IMap \<Rightarrow> 'y \<Rightarrow> (unit run \<times> 'y) option" where
  "inlineRange fuel yld m y = Range fuel copySlot slotItem yld m y"

definition inlineAll ::
  "nat \<Rightarrow> 's IMap \<Rightarrow> (64 word \<Rightarrow> 'a::len word \<Rightarrow> 'y \<Rightarrow> bool \<times> 'y) \<Rightarrow> 'y \<Rightarrow> (unit run \<times> 'y) option" where
  "inlineAll fuel m = All fuel copySlot slotItem m"

definition inlineKeys ::
  "'a::len itself \<Rightarrow> nat \<Rightarrow> 's IMap \<Rightarrow> (64 word \<Rightarrow> 'y \<Rightarrow> bool \<times> 'y) \<Rightarrow> 'y \<Rightarrow> (unit run \<times> 'y) option" where
  "inlineKeys _ fuel m = Keys fuel copySlot (slotItem :: _ \<Rightarrow> (64 word \<times> 'a word) option) m"

definition inlineValues ::
  "nat \<Rightarrow> 's IMap \<Rightarrow> ('a::len word \<Rightarrow> 'y \<Rightarrow> bool \<times> 'y) \<Rightarrow> 'y \<Rightarrow> (unit run \<times> 'y) option" where
  "inlineValues fuel m = Values fuel copySlot slotItem m"

text \<open>The stored pairs, values as the caller sees them.\<close>

definition inlinePairs :: "'s IMap \<Rightarrow> (64 word \<times> 'a::len word) list" where
  "inlinePairs m = map (\<lambda>(k, raw). (k, fromRaw raw)) (allEntries pairContent (current m))"

lemma slotItem_copy:
  "(slotItem \<circ> copySlot :: _ \<Rightarrow> (64 word \<times> 'a::len word) option) =
     map_option (\<lambda>(k, raw). (k, fromRaw raw)) \<circ> pairContent"
  by (simp add: fun_eq_iff slotItem_def copySlot_def pairContent_def)

lemma binEntries_map_option:
  "binEntries (map_option f \<circ> content) ix b = map f (binEntries content ix b)"
proof -
  have "slotEntry (map_option f \<circ> content) ix b i = map_option f (slotEntry content ix b i)" for i
    by (cases "view ix b i") (simp_all add: slotEntry_def)
  then show ?thesis
    by (simp add: binEntries_def List.map_filter_def comp_def option.map_sel)
qed

lemma allEntries_inline: "allEntries (slotItem \<circ> copySlot) (current m) = inlinePairs m"
  unfolding allEntries_def slotItem_copy binEntries_map_option inlinePairs_def
  by (simp add: map_concat comp_def)

lemma map_of_inline: "map_of (map (\<lambda>(k, raw). (k, f raw)) ps) k = map_option f (map_of ps k)"
  by (induction ps) auto

lemma inlinePairs_map:
  assumes "inlineConsistent cmp m"
  shows "distinct (map fst (inlinePairs m :: (64 word \<times> 'a::len word) list))"
    "map_of (inlinePairs m :: (64 word \<times> 'a::len word) list) = inlineAbs cmp m"
    "length (inlinePairs m :: (64 word \<times> 'a::len word) list) = card (dom (inlineRaw cmp m))"
proof -
  have ew: "entries_wf pairContent (inlineHashOf cmp m) (\<lambda>_. True) (current m)"
    and sh: "shape (current m)"
    using assms settledD(3) [OF generations_settled] by (auto simp: inlineConsistent_def)
  have "map fst (inlinePairs m :: (64 word \<times> 'a::len word) list) =
      map fst (allEntries pairContent (current m))"
    by (simp add: inlinePairs_def comp_def case_prod_beta')
  then show "distinct (map fst (inlinePairs m :: (64 word \<times> 'a::len word) list))"
    by (simp only: distinct_allEntries [OF ew sh])
  show "map_of (inlinePairs m :: (64 word \<times> 'a::len word) list) = inlineAbs cmp m"
    by (rule ext)
      (simp add: inlinePairs_def map_of_inline inlineAbs_def inlineRaw_def absMap_allEntries [OF ew sh])
  show "length (inlinePairs m :: (64 word \<times> 'a::len word) list) = card (dom (inlineRaw cmp m))"
    by (simp add: inlinePairs_def inlineRaw_def length_allEntries [OF ew sh])
qed

lemma inlineRange_consume:
  assumes "generations m" "0 < fuel"
  shows "inlineRange fuel yld m y = Some (Returned (), snd (consume yld (inlinePairs m) y))"
  unfolding inlineRange_def Range_spec [OF assms] allEntries_inline by (simp add: case_prod_beta')

lemma inlineRangeFrom_consume:
  assumes "inlineConsistent cmp m" "i \<le> active m" "active m - i < fuel"
  obtains es :: "(64 word \<times> 'a::len word) list"
  where "distinct (map fst es)" "map_of es = inlineAbs cmp m"
    "\<And>yld (y :: 'y). inlineRangeFrom fuel yld m i y = Some (Returned (), snd (consume yld es y))"
proof -
  have g: "generations m" using assms(1) by (simp add: inlineConsistent_def)
  obtain es :: "(64 word \<times> 'a word) list" where es: "mset es = mset (inlinePairs m)"
    "\<And>yld (y :: 'y). rangeFrom fuel copySlot slotItem yld m i y =
      (let (b, y') = consume yld es y in Some (Returned (), y'))"
    by (rule rangeFrom_spec [OF g assms(2,3), where load = copySlot and item = slotItem,
          unfolded allEntries_inline]) (rule that)
  note d = map_of_mset [OF es(1) inlinePairs_map(1) [OF assms(1)]]
  from d inlinePairs_map(2) [OF assms(1), where 'a = 'a] es(2) show ?thesis
    by (intro that [of es]) (simp_all add: inlineRangeFrom_def case_prod_beta')
qed

section \<open>Size and Stats\<close>

definition inlineSize :: "'s IMap \<Rightarrow> 64 word option" where
  "inlineSize m = Size m"

definition inlineStats :: "'s IMap \<Rightarrow> Stats option" where
  "inlineStats m = statsOf m"

end
