(* ===== verification/StaleStart.thy ===== *)
theory StaleStart
  imports InlineTable
begin

text \<open>
  Operations that start at an older generation: a goroutine loads \<open>m.active\<close>, others finish
  one or more resizes, and it goes on with what it loaded. Its first rounds follow the
  \<open>indexNext\<close> chain; from there it does what an operation started now would do.
\<close>

section \<open>One round at a retired generation\<close>

lemma inlineGet_round_retired:
  assumes "generations m" "i < active m"
  shows "inlineGet_round cmp m key i = Some (Goto (Suc i))"
  unfolding inlineGet_round_def Let_def getBin_def
    binGuard_retired(1) [OF assms retired_bin [OF assms]] Option.bind.simps
    getBinByIndex_in [OF retired_bin [OF assms]] hdr_def [symmetric]
    binGuard_retired(2) [OF assms retired_bin [OF assms]] option.case ..

lemma inlinePut_round_retired:
  assumes "generations m" "i < active m"
  shows "inlinePut_round fuel isSigned cmp key newValue i m = Some (Goto (Suc i), m)"
  unfolding inlinePut_round_def Let_def getBin_def
    binGuard_retired(1) [OF assms retired_bin [OF assms]] Option.bind.simps
    getBinByIndex_in [OF retired_bin [OF assms]] hdr_def [symmetric]
    binGuard_retired(2) [OF assms retired_bin [OF assms]] option.case ..

lemma inlineDelete_round_retired:
  assumes "generations m" "i < active m"
  shows "inlineDelete_round cmp key i m = Some (Goto (Suc i), m)"
  unfolding inlineDelete_round_def Let_def getBin_def
    binGuard_retired(1) [OF assms retired_bin [OF assms]] Option.bind.simps
    getBinByIndex_in [OF retired_bin [OF assms]] hdr_def [symmetric]
    binGuard_retired(2) [OF assms retired_bin [OF assms]] option.case ..

section \<open>From any generation to the active one\<close>

lemma stale_run:
  assumes "\<forall>i < active m. body i m = Some (Goto (Suc i), m)" and i: "i \<le> active m"
  shows "retryLoop (active m - i + fuel) body i m = retryLoop fuel body (active m) m"
proof -
  have "body i m = Some (Goto (Suc i), m)" if "i < active m" for i using assms(1) that by blast
  then show ?thesis by (rule retryLoop_chain [of "active m" body m i fuel]) (use i in auto)
qed

lemma Put_stale:
  assumes "generations m" "i \<le> active m"
  shows "retryLoop (active m - i + fuel) (Put_round n cmp zv newp key newValue) i m =
    retryLoop fuel (Put_round n cmp zv newp key newValue) (getActiveIndex m) m"
  unfolding getActiveIndex_def
  by (intro stale_run assms(2) allI impI Put_round_retired [OF assms(1)])

lemma Delete_stale:
  assumes "generations m" "i \<le> active m"
  shows "retryLoop (active m - i + fuel) (Delete_round n cmp zv key) i m =
    retryLoop fuel (Delete_round n cmp zv key) (getActiveIndex m) m"
  unfolding getActiveIndex_def
  by (intro stale_run assms(2) allI impI Delete_round_retired [OF assms(1)])

lemma Insert_stale:
  assumes "generations m" "i \<le> active m"
  shows "retryLoop (active m - i + fuel) (Insert_round n look wipe grow zero h w v) i m =
    retryLoop fuel (Insert_round n look wipe grow zero h w v) (getActiveIndex m) m"
  unfolding getActiveIndex_def
  by (intro stale_run assms(2) allI impI retired_round [OF assms(1)])

lemma inlinePut_stale:
  assumes "generations m" "i \<le> active m"
  shows "retryLoop (active m - i + fuel) (inlinePut_round n isSigned cmp key newValue) i m =
    retryLoop fuel (inlinePut_round n isSigned cmp key newValue) (getActiveIndex m) m"
  unfolding getActiveIndex_def
  by (intro stale_run assms(2) allI impI inlinePut_round_retired [OF assms(1)])

lemma inlineDelete_stale:
  assumes "generations m" "i \<le> active m"
  shows "retryLoop (active m - i + fuel) (inlineDelete_round cmp key) i m =
    retryLoop fuel (inlineDelete_round cmp key) (getActiveIndex m) m"
  unfolding getActiveIndex_def
  by (intro stale_run assms(2) allI impI inlineDelete_round_retired [OF assms(1)])

end
