(* ===== verification/AlignedSlices.thy ===== *)
theory AlignedSlices
  imports BucketIndex
begin

text \<open>
  Where the buckets lie in memory (index.go, both packages; internal/cpu). \<open>make\<close> is a
  parameter: \<open>mk lay n\<close> is the address of a fresh array of \<open>n\<close> 64-byte buckets whose words the
  collector scans after the layout \<open>lay\<close>. Shown: the slice carved out of it stays inside
  the array, starts at a cache line, and its pointer words are words the collector scans.
\<close>

section \<open>Layouts\<close>

definition CacheLineSize_amd64 :: "64 word" where "CacheLineSize_amd64 = 64"
definition CacheLineSize_arm64 :: "64 word" where "CacheLineSize_arm64 = 128"

text \<open>The four struct types \<open>make\<close> is called with; \<open>ptrWords\<close>: the offsets of their pointers.\<close>

datatype layout = Primary | Link | PrimaryRot8 | LinkRot8

definition primaryPtrs :: "nat list" where
  "primaryPtrs = map (\<lambda>i. 16 + 16 * i + 8) [0..<3]"

definition linkPtrs :: "nat list" where
  "linkPtrs = map (\<lambda>i. 16 * i + 8) [0..<4]"

definition PrimaryBucketRot8 :: "nat list" where
  "PrimaryBucketRot8 = map (\<lambda>i. 8 + 16 * i + 8) [0..<3]"

definition LinkBucketRot8 :: "nat list" where
  "LinkBucketRot8 = 0 # map (\<lambda>i. 8 + 16 * i + 8) [0..<3]"

fun ptrWords :: "layout \<Rightarrow> nat list" where
  "ptrWords Primary = primaryPtrs"
| "ptrWords Link = linkPtrs"
| "ptrWords PrimaryRot8 = PrimaryBucketRot8"
| "ptrWords LinkRot8 = LinkBucketRot8"

fun rotated :: "layout \<Rightarrow> layout" where
  "rotated Primary = PrimaryRot8"
| "rotated Link = LinkRot8"
| "rotated l = l"

text \<open>An address range of \<open>bucketCount\<close> buckets inside an array of \<open>arrayCount\<close> buckets.\<close>

record carved =
  startAddr :: "64 word"
  bucketCount :: "64 word"
  arrayAddr :: "64 word"
  arrayCount :: "64 word"
  scanned :: layout

section \<open>The functions\<close>

definition minSizeForMallocHeader :: "64 word" where [simp]: "minSizeForMallocHeader = 512"
definition mallocHeaderSize :: "64 word" where [simp]: "mallocHeaderSize = 8"
definition maxSmallSize :: "64 word" where [simp]: "maxSmallSize = 32 * 1024"
definition bucketByteSize :: "64 word" where [simp]: "bucketByteSize = 64"

definition largeBufferSize :: "64 word" where
  "largeBufferSize = (maxSmallSize - mallocHeaderSize) div bucketByteSize + 1"

definition mallocgcAddsHeader :: "64 word \<Rightarrow> bool" where
  "mallocgcAddsHeader n =
     (let total = (n + 2) * bucketByteSize
      in total > minSizeForMallocHeader \<and> total + mallocHeaderSize \<le> maxSmallSize)"

definition fallbackSlice ::
  "(layout \<Rightarrow> 64 word \<Rightarrow> 64 word) \<Rightarrow> layout \<Rightarrow> 64 word \<Rightarrow> carved option" where
  "fallbackSlice mk lay n =
     (let len = max n largeBufferSize; addr = mk lay len
      in Some \<lparr>startAddr = addr, bucketCount = n, arrayAddr = addr, arrayCount = len, scanned = lay\<rparr>)"

text \<open>\<open>None\<close> is the panic of \<open>buf[skip : skip+n : skip+n]\<close> out of range.\<close>

definition makeAlignedSlice ::
  "64 word \<Rightarrow> (layout \<Rightarrow> 64 word \<Rightarrow> 64 word) \<Rightarrow> layout \<Rightarrow> 64 word \<Rightarrow> carved option" where
  "makeAlignedSlice cacheLine mk lay n =
     (if mallocgcAddsHeader n
      then let rotAddr = mk (rotated lay) (n + 2)
           in if rotAddr AND 63 = 8
              then let padding = (- rotAddr) AND (cacheLine - 1)
                   in Some \<lparr>startAddr = rotAddr + padding, bucketCount = n, arrayAddr = rotAddr,
                            arrayCount = n + 2, scanned = rotated lay\<rparr>
              else fallbackSlice mk lay n
      else let addr = mk lay (n + 2)
           in if addr AND 63 = 0
              then let skip = ((- addr) AND (cacheLine - 1)) div 64
                   in if skip + n \<le> n + 2
                      then Some \<lparr>startAddr = addr + skip * 64, bucketCount = n, arrayAddr = addr,
                                 arrayCount = n + 2, scanned = lay\<rparr>
                      else None
              else fallbackSlice mk lay n)"

definition makePrimaryAlignedSlice ::
  "64 word \<Rightarrow> (layout \<Rightarrow> 64 word \<Rightarrow> 64 word) \<Rightarrow> 64 word \<Rightarrow> carved option" where
  "makePrimaryAlignedSlice cacheLine mk n = makeAlignedSlice cacheLine mk Primary n"

definition makeLinkAlignedSlice ::
  "64 word \<Rightarrow> (layout \<Rightarrow> 64 word \<Rightarrow> 64 word) \<Rightarrow> 64 word \<Rightarrow> carved option" where
  "makeLinkAlignedSlice cacheLine mk n = makeAlignedSlice cacheLine mk Link n"

text \<open>The inline package has no pointers in its buckets and no fallback.\<close>

definition nilSlice :: "layout \<Rightarrow> carved" where
  "nilSlice lay = \<lparr>startAddr = 0, bucketCount = 0, arrayAddr = 0, arrayCount = 0, scanned = lay\<rparr>"

definition inlineMakePrimaryAlignedSlice ::
  "64 word \<Rightarrow> (layout \<Rightarrow> 64 word \<Rightarrow> 64 word) \<Rightarrow> 64 word \<Rightarrow> carved" where
  "inlineMakePrimaryAlignedSlice cacheLine mk n =
     (if n = 0 then nilSlice Primary
      else let addr = mk Primary (n + 2); alignedPadding = (- addr) AND (cacheLine - 1)
           in \<lparr>startAddr = addr + alignedPadding, bucketCount = n, arrayAddr = addr,
               arrayCount = n + 2, scanned = Primary\<rparr>)"

definition inlineMakeLinkAlignedSlice ::
  "(layout \<Rightarrow> 64 word \<Rightarrow> 64 word) \<Rightarrow> 64 word \<Rightarrow> carved" where
  "inlineMakeLinkAlignedSlice mk n =
     (if n = 0 then nilSlice Link
      else let addr = mk Link (n + 2); alignedPadding = (- addr) AND 15
           in \<lparr>startAddr = addr + alignedPadding, bucketCount = n, arrayAddr = addr,
               arrayCount = n + 2, scanned = Link\<rparr>)"

section \<open>What a carved slice must satisfy\<close>

text \<open>Inside the array, byte offsets counted from its start.\<close>

definition inside :: "carved \<Rightarrow> bool" where
  "inside c \<longleftrightarrow> unat (startAddr c - arrayAddr c) + 64 * unat (bucketCount c) \<le> 64 * unat (arrayCount c)"

text \<open>
  Bucket \<open>j\<close> of the slice, read with layout \<open>lay\<close>, has its pointers at words the collector
  scans in the array and at no other words.
\<close>

definition scansPointers :: "layout \<Rightarrow> carved \<Rightarrow> bool" where
  "scansPointers lay c \<longleftrightarrow>
     (\<forall>off. off mod 64 \<in> set (ptrWords lay) \<longleftrightarrow>
        (unat (startAddr c - arrayAddr c) + off) mod 64 \<in> set (ptrWords (scanned c)))"

section \<open>Alignment\<close>

lemma unat_and_mask: "unat (x AND Bit_Operations.mask k :: 64 word) = unat x mod 2 ^ k"
  unfolding take_bit_eq_mask [symmetric] unsigned_take_bit_eq by (rule take_bit_eq_mod)

lemma low_masks:
  "63 = (Bit_Operations.mask 6 :: 64 word)" "127 = (Bit_Operations.mask 7 :: 64 word)"
  "15 = (Bit_Operations.mask 4 :: 64 word)"
  by (simp_all add: mask_eq_exp_minus_1)

text \<open>The padding up to the next multiple of \<open>2 ^ k\<close>.\<close>

lemma padding:
  fixes a :: "64 word"
  assumes "k \<le> 64"
  shows "unat ((- a) AND Bit_Operations.mask k) < 2 ^ k"
    "(unat a + unat ((- a) AND Bit_Operations.mask k)) mod 2 ^ k = 0"
proof -
  show "unat ((- a) AND Bit_Operations.mask k) < 2 ^ k" by (simp add: unat_and_mask)
  have "unat (a + - a) = (unat a + unat (- a)) mod 2 ^ 64" by (simp only: unat_word_ariths) simp
  then have "(unat a + unat (- a)) mod 2 ^ 64 = 0" by simp
  moreover have "(2::nat) ^ k dvd 2 ^ 64" using assms by (intro le_imp_power_dvd)
  ultimately have "(unat a + unat (- a)) mod 2 ^ k = 0" by (metis dvd_imp_mod_0 dvd_trans mod_0_imp_dvd)
  then show "(unat a + unat ((- a) AND Bit_Operations.mask k)) mod 2 ^ k = 0"
    by (simp only: unat_and_mask) (simp only: mod_add_right_eq)
qed

text \<open>
  A cache line is \<open>2 ^ k\<close> bytes, \<open>k\<close> 6 or 7. \<open>aligned k\<close>: an address at a multiple of
  \<open>2 ^ k\<close>. The contract of \<open>make\<close>: an array too large for the size classes is page aligned.
\<close>

definition aligned :: "nat \<Rightarrow> carved \<Rightarrow> bool" where
  "aligned k c \<longleftrightarrow> unat (startAddr c) mod 2 ^ k = 0"

definition pageAligned :: "(layout \<Rightarrow> 64 word \<Rightarrow> 64 word) \<Rightarrow> bool" where
  "pageAligned mk \<longleftrightarrow> (\<forall>lay n. largeBufferSize \<le> n \<longrightarrow> unat (mk lay n) mod 8192 = 0)"

lemma scans_same: "scanned c = lay \<Longrightarrow> unat (startAddr c - arrayAddr c) mod 64 = 0 \<Longrightarrow> scansPointers lay c"
  unfolding scansPointers_def by (simp add: mod_simps(1) flip: mod_add_left_eq)

lemma residues:
  assumes "x < 64"
  shows "x \<in> set (ptrWords Primary) \<longleftrightarrow> (56 + x) mod 64 \<in> set (ptrWords (rotated Primary))"
    "x \<in> set (ptrWords Link) \<longleftrightarrow> (56 + x) mod 64 \<in> set (ptrWords (rotated Link))"
proof -
  have "list_all (\<lambda>x. List.member (ptrWords Primary) x = List.member (ptrWords (rotated Primary)) ((56 + x) mod 64) \<and>
      List.member (ptrWords Link) x = List.member (ptrWords (rotated Link)) ((56 + x) mod 64)) [0..<64]"
    by code_simp
  then show "x \<in> set (ptrWords Primary) \<longleftrightarrow> (56 + x) mod 64 \<in> set (ptrWords (rotated Primary))"
    "x \<in> set (ptrWords Link) \<longleftrightarrow> (56 + x) mod 64 \<in> set (ptrWords (rotated Link))"
    using assms unfolding list_all_iff List.member_iff by simp_all
qed

lemma scans_rotated:
  assumes "lay = Primary \<or> lay = Link" "scanned c = rotated lay" "unat (startAddr c - arrayAddr c) mod 64 = 56"
  shows "scansPointers lay c"
proof -
  have "off mod 64 \<in> set (ptrWords lay) \<longleftrightarrow> (56 + off mod 64) mod 64 \<in> set (ptrWords (rotated lay))" for off
  proof -
    have "\<forall>x < 64. x \<in> set (ptrWords lay) \<longleftrightarrow> (56 + x) mod 64 \<in> set (ptrWords (rotated lay))"
      using assms(1) residues by fastforce
    then show ?thesis by simp
  qed
  moreover have "(unat (startAddr c - arrayAddr c) + off) mod 64 = (56 + off mod 64) mod 64" for off
    using assms(3) by (metis mod_add_eq mod_mod_trivial)
  ultimately show ?thesis by (simp add: scansPointers_def assms(2))
qed

lemma fallback_ok:
  assumes "pageAligned mk" "k \<le> 7" "fallbackSlice mk lay n = Some c"
  shows "inside c" "aligned k c" "scansPointers lay c" "bucketCount c = n"
proof -
  let ?len = "max n largeBufferSize"
  have c: "c = \<lparr>startAddr = mk lay ?len, bucketCount = n, arrayAddr = mk lay ?len, arrayCount = ?len, scanned = lay\<rparr>"
    using assms(3) by (simp add: fallbackSlice_def Let_def)
  have "unat n \<le> unat ?len" using max.cobounded1 [of n largeBufferSize] by (simp only: word_le_nat_alt)
  then show "inside c" by (simp add: c inside_def)
  define a where "a = unat (mk lay ?len)"
  have "a mod 8192 = 0" using assms(1) by (simp add: pageAligned_def a_def)
  then have "2 ^ 13 dvd a" by (simp add: mod_0_imp_dvd)
  moreover have "(2::nat) ^ k dvd 2 ^ 13" using assms(2) by (intro le_imp_power_dvd) simp
  ultimately have "a mod 2 ^ k = 0" using dvd_trans by (metis dvd_imp_mod_0)
  then show "aligned k c" by (simp add: aligned_def c a_def)
  show "scansPointers lay c" by (rule scans_same) (simp_all add: c)
  show "bucketCount c = n" by (simp add: c)
qed

text \<open>An address moved up by the padding: aligned, and the padding keeps its residue.\<close>

lemma padded:
  fixes a :: "64 word"
  assumes "k = 6 \<or> k = 7" "unat a mod 64 = r" "r < 64"
  defines "p \<equiv> (- a) AND (2 ^ k - 1)"
  shows "unat p < 128" "(r + unat p) mod 64 = 0" "unat (a + p) mod 2 ^ k = 0"
proof -
  have msk: "2 ^ k - 1 = (Bit_Operations.mask k :: 64 word)" by (simp add: mask_eq_exp_minus_1)
  have k: "k \<le> 64" "2 ^ k \<le> (128 :: nat)" "(2::nat) ^ 6 dvd 2 ^ k" "(2::nat) ^ k dvd 2 ^ 64"
    using assms(1) by auto
  note pd = padding [OF k(1), of a, folded msk, folded p_def]
  show "unat p < 128" using pd(1) k(2) by simp
  have "(unat a + unat p) mod 2 ^ 6 = 0" using pd(2) k(3) by (metis dvd_imp_mod_0 dvd_trans mod_0_imp_dvd)
  then have "(unat a + unat p) mod 64 = 0" by simp
  then show "(r + unat p) mod 64 = 0" using assms(2,3) by (metis mod_add_left_eq)
  have "unat (a + p) = (unat a + unat p) mod 2 ^ 64" by (simp only: unat_word_ariths) simp
  then show "unat (a + p) mod 2 ^ k = 0" using pd(2) k(4) by (simp add: mod_mod_cancel)
qed

lemma makeAlignedSlice_ok:
  assumes k: "k = 6 \<or> k = 7" and pa: "pageAligned mk" and lay: "lay = Primary \<or> lay = Link"
    and n: "unat n \<le> 2 ^ 33"
  shows "\<exists>c. makeAlignedSlice (2 ^ k) mk lay n = Some c \<and> inside c \<and> aligned k c \<and>
    scansPointers lay c \<and> bucketCount c = n"
proof -
  have n2: "unat (n + 2) = unat n + 2" using n by (simp add: unat_word_ariths)
  have fb: ?thesis if "makeAlignedSlice (2 ^ k) mk lay n = fallbackSlice mk lay n"
  proof -
    obtain c where c: "fallbackSlice mk lay n = Some c" by (simp add: fallbackSlice_def Let_def)
    have "k \<le> 7" using k by auto
    from fallback_ok [OF pa this c] c that show ?thesis by auto
  qed
  have low: "unat x mod 64 = unat (x AND 63)" for x :: "64 word"
    unfolding low_masks unat_and_mask by simp
  consider (rot) "mallocgcAddsHeader n" "mk (rotated lay) (n + 2) AND 63 = 8"
    | (nat) "\<not> mallocgcAddsHeader n" "mk lay (n + 2) AND 63 = 0"
    | (fb) "makeAlignedSlice (2 ^ k) mk lay n = fallbackSlice mk lay n"
    by (cases "mallocgcAddsHeader n"; cases "mk (rotated lay) (n + 2) AND 63 = 8";
        cases "mk lay (n + 2) AND 63 = 0") (simp_all add: makeAlignedSlice_def)
  then show ?thesis
  proof cases
    case rot
    define a where "a = mk (rotated lay) (n + 2)"
    define p where "p = (- a) AND (2 ^ k - 1)"
    have "unat a mod 64 = 8" using rot(2) low [of a] by (simp add: a_def)
    note pd = padded [OF k this, folded p_def]
    have p: "unat p \<le> 120" "unat p mod 64 = 56" using pd(1,2) by presburger+
    let ?c = "\<lparr>startAddr = a + p, bucketCount = n, arrayAddr = a, arrayCount = n + 2, scanned = rotated lay\<rparr>"
    have "makeAlignedSlice (2 ^ k) mk lay n = Some ?c"
      unfolding makeAlignedSlice_def Let_def using rot by (simp add: a_def p_def)
    moreover have "inside ?c" using p(1) by (simp add: inside_def n2)
    moreover have "aligned k ?c" using pd(3) by (simp add: aligned_def)
    moreover have "scansPointers lay ?c" by (rule scans_rotated [OF lay]) (simp_all add: p(2))
    ultimately show ?thesis by (intro exI [of _ ?c]) simp
  next
    case nat
    define a where "a = mk lay (n + 2)"
    define p where "p = (- a) AND (2 ^ k - 1)"
    have "unat a mod 64 = 0" using nat(2) low [of a] by (simp add: a_def)
    note pd = padded [OF k this, folded p_def]
    from pd(2) have "64 dvd unat p" by (simp add: mod_0_imp_dvd)
    then obtain q where q: "unat p = 64 * q" by (elim dvdE)
    then have q1: "q \<le> 1" using pd(1) by simp
    have u64: "unat (p div 64) = q" by (simp add: unat_div q)
    have "unat (p div 64 * 64) = (q * 64) mod 2 ^ 64"
      by (subst unat_word_ariths(2)) (simp add: u64)
    also have "\<dots> = q * 64" using q1 by simp
    also have "\<dots> = unat p" by (simp add: q)
    finally have ps: "p div 64 * 64 = p" by (simp only: word_unat_eq_iff)
    have sk: "p div 64 + n \<le> n + 2"
      using n q1 by (simp add: word_le_nat_alt n2 unat_word_ariths(1) u64)
    let ?c = "\<lparr>startAddr = a + p, bucketCount = n, arrayAddr = a, arrayCount = n + 2, scanned = lay\<rparr>"
    have "makeAlignedSlice (2 ^ k) mk lay n = Some ?c"
      unfolding makeAlignedSlice_def Let_def using nat sk ps by (simp add: a_def p_def)
    moreover have "inside ?c" using q q1 by (simp add: inside_def n2)
    moreover have "aligned k ?c" using pd(3) by (simp add: aligned_def)
    moreover have "scansPointers lay ?c" using pd(2) by (intro scans_same) simp_all
    ultimately show ?thesis by (intro exI [of _ ?c]) simp
  qed (rule fb)
qed

text \<open>The inline package: slots aligned to 16 bytes, as a 16-byte compare-and-swap needs.\<close>

lemma inlineMakePrimary_ok:
  assumes k: "k = 6 \<or> k = 7" and n: "unat n \<le> 2 ^ 33"
  shows "inside (inlineMakePrimaryAlignedSlice (2 ^ k) mk n)"
    "aligned k (inlineMakePrimaryAlignedSlice (2 ^ k) mk n)"
    "bucketCount (inlineMakePrimaryAlignedSlice (2 ^ k) mk n) = n"
proof -
  have n2: "unat (n + 2) = unat n + 2" using n by (simp add: unat_word_ariths)
  define a where "a = mk Primary (n + 2)"
  have "unat a mod 64 < 64" by simp
  note pd = padded [OF k refl this]
  have def: "inlineMakePrimaryAlignedSlice (2 ^ k) mk n = (if n = 0 then nilSlice Primary else
      \<lparr>startAddr = a + ((- a) AND (2 ^ k - 1)), bucketCount = n, arrayAddr = a, arrayCount = n + 2, scanned = Primary\<rparr>)"
    by (simp add: inlineMakePrimaryAlignedSlice_def a_def Let_def)
  show "inside (inlineMakePrimaryAlignedSlice (2 ^ k) mk n)"
    using pd(1) by (simp add: def inside_def n2 nilSlice_def)
  show "aligned k (inlineMakePrimaryAlignedSlice (2 ^ k) mk n)"
    using pd(3) by (simp add: def aligned_def nilSlice_def)
  show "bucketCount (inlineMakePrimaryAlignedSlice (2 ^ k) mk n) = n"
    by (simp add: def nilSlice_def)
qed

lemma inlineMakeLink_ok:
  assumes n: "unat n \<le> 2 ^ 33"
  shows "inside (inlineMakeLinkAlignedSlice mk n)" "aligned 4 (inlineMakeLinkAlignedSlice mk n)"
    "bucketCount (inlineMakeLinkAlignedSlice mk n) = n"
proof -
  have n2: "unat (n + 2) = unat n + 2" using n by (simp add: unat_word_ariths)
  define a where "a = mk Link (n + 2)"
  define p where "p = (- a) AND 15"
  have pd: "unat p < 2 ^ 4" "(unat a + unat p) mod 2 ^ 4 = 0"
    using padding [of 4 a] unfolding p_def low_masks by simp_all
  have "unat (a + p) = (unat a + unat p) mod 2 ^ 64" by (simp only: unat_word_ariths) simp
  then have al: "unat (a + p) mod 2 ^ 4 = 0"
    using pd(2) mod_mod_cancel [of "2 ^ 4" "2 ^ 64" "unat a + unat p"] by simp
  have def: "inlineMakeLinkAlignedSlice mk n = (if n = 0 then nilSlice Link else
      \<lparr>startAddr = a + p, bucketCount = n, arrayAddr = a, arrayCount = n + 2, scanned = Link\<rparr>)"
    by (simp add: inlineMakeLinkAlignedSlice_def a_def p_def Let_def)
  show "inside (inlineMakeLinkAlignedSlice mk n)"
    using pd(1) by (simp add: def inside_def n2 nilSlice_def)
  show "aligned 4 (inlineMakeLinkAlignedSlice mk n)"
    using al by (simp add: def aligned_def nilSlice_def)
  show "bucketCount (inlineMakeLinkAlignedSlice mk n) = n" by (simp add: def nilSlice_def)
qed

end
