(* ===== verification/InsertRace.thy ===== *)
theory InsertRace
  imports AllocInsert InlineInsert
begin

text \<open>
  The second half of \<open>Insert\<close> (insert.go, from the label \<open>retryWithSlot\<close>), which a call
  reaches when another goroutine changed the header between the reservation of the slot and
  its publication. The state here is the one such a call finds: the bin may have been changed
  in any way by others, the reserved slot is still Trying and holds our words. The call either
  finds the key and releases the slot, or publishes it, or meets a transfer and starts again.
\<close>

section \<open>Releasing a reserved slot\<close>

text \<open>The state in which a goroutine owns slot \<open>i\<close> of bin \<open>b\<close>, with pointer \<open>r\<close>.\<close>

definition ownsSlot :: "'v index \<Rightarrow> 64 word \<Rightarrow> nat \<Rightarrow> SlotRef \<Rightarrow> bool" where
  "ownsSlot ix b i r \<longleftrightarrow> wf_index ix \<and> inBin ix b \<and> i < 15 \<and> slotRef ix b i = Some r \<and>
     getSlotState (hdr ix b) (int i) = SlotTrying"

lemma owns_not_valid: "ownsSlot ix b i r \<Longrightarrow> \<not> isValid ix b i"
  using slot_state_cases [of i "hdr ix b"] by (auto simp: ownsSlot_def isValid_def)

lemma owns_loadHeader: "ownsSlot ix b i r \<Longrightarrow> atomicLoadHeader ix b = Some (hdr ix b)"
  by (simp add: ownsSlot_def atomicLoadHeader_def hdr_def)

text \<open>Setting the state of an owned slot to Invalid or Valid.\<close>

lemma owned_setState:
  assumes own: "ownsSlot ix b i r" and s: "s = SlotInvalid \<or> s = SlotValid"
  obtains ix' where
    "atomicCASHeader ix b (hdr ix b) (setSlotStateAndVersion (hdr ix b) (int i) s) = Some (True, ix')"
    "same_frame ix ix'" "wf_index ix'" "slotIn ix' = slotIn ix"
    "getSlotState (hdr ix' b) (int i) = s"
    "\<And>b' j. inBin ix b' \<Longrightarrow> view ix' b' j =
       (if b' = b \<and> j = i then if s = SlotValid then slotIn ix b i else None else view ix b' j)"
proof -
  have o: "wf_index ix" "inBin ix b" "i < 15" "slotRef ix b i \<noteq> None"
    using own by (simp_all add: ownsSlot_def)
  have "s \<in> {0, 1, 2}" using s by auto
  from setSlotState_effect [OF o this]
  obtain ix' where a: "storeHeader ix b (setSlotStateAndVersion (hdr ix b) (int i) s) = Some ix'"
    "same_frame ix ix'" "wf_index ix'" "slotIn ix' = slotIn ix"
    "hdr ix' b = setSlotStateAndVersion (hdr ix b) (int i) s"
    "\<And>b' j. j < 15 \<Longrightarrow> isValid ix' b' j = (if b' = b \<and> j = i then s = 2 else isValid ix b' j)"
    by metis
  show ?thesis
  proof (rule that [OF CAS_hit [OF o(2) refl a(1)] a(2,3,4)])
    show "getSlotState (hdr ix' b) (int i) = s"
      using o(3) s by (auto simp: a(5) getSlotState_setSlot)
    show "view ix' b' j =
        (if b' = b \<and> j = i then if s = SlotValid then slotIn ix b i else None else view ix b' j)"
      if "inBin ix b'" for b' j
      using a(6) [of j b'] o(3) by (auto simp: view_def a(4))
  qed
qed

lemma unreserveSlot_owned:
  assumes own: "ownsSlot ix b i r" and bs: "getBinState (hdr ix b) = BinNoTransfer"
  obtains ix' where "unreserveSlot wipe ix b (int i) = Some (True, ix')"
    "same_frame ix ix'" "wf_index ix'" "getSlotState (hdr ix' b) (int i) = SlotInvalid"
    "\<And>b' j. inBin ix b' \<Longrightarrow> view ix' b' j = view ix b' j"
    "\<And>b' j. inBin ix b' \<Longrightarrow> j < 15 \<Longrightarrow> slotIn ix' b' j =
       (if b' = b \<and> j = i then map_option wipe (slotIn ix b i) else slotIn ix b' j)"
proof -
  have o: "wf_index ix" "inBin ix b" "i < 15" "slotRef ix b i = Some r"
    "getSlotState (hdr ix b) (int i) = SlotTrying"
    using own by (simp_all add: ownsSlot_def)
  obtain s where s: "loadSlot ix r = Some s"
    using slotRef_load [OF _ _ o(2-4)] o(1) by (auto simp: wf_index_def)
  obtain ix1 where a: "storeSlot ix r (wipe s) = Some ix1" "same_frame ix ix1" "hdr ix1 = hdr ix"
    "slotRef ix1 = slotRef ix" "wf_index ix1"
    "\<And>b' j. inBin ix b' \<Longrightarrow> j < 15 \<Longrightarrow>
       slotIn ix1 b' j = (if b' = b \<and> j = i then Some (wipe s) else slotIn ix b' j)"
    using storeSlotAt_effect [OF o(1-4), of "wipe s"] by metis
  have in1: "inBin ix1 b' = inBin ix b'" for b'
    using same_geometry_inBin [OF same_frame_geometry [OF a(2)]] .
  have own1: "ownsSlot ix1 b i r" using own a by (simp add: ownsSlot_def in1)
  obtain ix2 where c:
    "atomicCASHeader ix1 b (hdr ix b) (setSlotStateAndVersion (hdr ix b) (int i) SlotInvalid) = Some (True, ix2)"
    "same_frame ix1 ix2" "wf_index ix2" "slotIn ix2 = slotIn ix1"
    "getSlotState (hdr ix2 b) (int i) = SlotInvalid"
    "\<And>b' j. inBin ix1 b' \<Longrightarrow> view ix2 b' j = (if b' = b \<and> j = i then None else view ix1 b' j)"
    by (rule owned_setState [OF own1, of SlotInvalid]) (auto simp: a(3))
  have sl: "slotIn ix b i = Some s" using o(4) s by (simp add: slotIn_def)
  show ?thesis
  proof (rule that [of ix2])
    show "unreserveSlot wipe ix b (int i) = Some (True, ix2)"
      using o bs s a(1) c(1)
      by (subst unreserveSlot.simps)
        (simp add: owns_loadHeader [OF own] getSlotByIndex_ref [OF o(4)] Let_def)
    show "same_frame ix ix2" using a(2) c(2) by (rule same_frame_trans)
    show "view ix2 b' j = view ix b' j" if "inBin ix b'" for b' j
      using that c(6) [of b' j] a(6) [of b' j] owns_not_valid [OF own]
      by (auto simp: in1 view_def isValid_def a(3))
    show "slotIn ix2 b' j = (if b' = b \<and> j = i then map_option wipe (slotIn ix b i) else slotIn ix b' j)"
      if "inBin ix b'" "j < 15" for b' j
      using a(6) [OF that] by (simp add: c(4) sl)
  qed (rule c(3,5))+
qed

lemma unreserveSlot_refused:
  assumes "inBin ix b" "getSlotState (hdr ix b) i \<noteq> SlotTrying \<or> getBinState (hdr ix b) \<noteq> BinNoTransfer"
  shows "unreserveSlot wipe ix b i = Some (False, ix)"
proof -
  have "atomicLoadHeader ix b = Some (hdr ix b)" using assms(1) by (simp add: atomicLoadHeader_def hdr_def)
  with assms(2) show ?thesis by (subst unreserveSlot.simps) simp
qed

section \<open>The race\<close>

context slot_insert begin

lemma race_lost:
  assumes own: "ownsSlot ix b i r" and at: "indexAt m idx = Some ix" and b: "b = binOf ix (hash k)"
    and ew: "entries_wf content hash ok ix" and bs: "getBinState (hdr ix b) = BinNoTransfer"
    and found: "absMap content hash ix k = Some v"
  obtains ix' where
    "retryWithSlot (Suc n) (look k) wipe zero idx b (int i) m = Some (Ret (v, False), putIndex m idx ix')"
    "wf_index ix'" "entries_wf content hash ok ix'" "getSlotState (hdr ix' b) (int i) = SlotInvalid"
    "absMap content hash ix' = absMap content hash ix"
proof -
  have wf: "wf_index ix" using own by (simp add: ownsSlot_def)
  then have sh: "shape ix" by (simp add: wf_index_def)
  from unreserveSlot_owned [OF own bs, of wipe] obtain ix' where u:
    "unreserveSlot wipe ix b (int i) = Some (True, ix')" "same_frame ix ix'" "wf_index ix'"
    "getSlotState (hdr ix' b) (int i) = SlotInvalid" "\<And>b' j. inBin ix b' \<Longrightarrow> view ix' b' j = view ix b' j"
    by metis
  note sv = same_view_abs [OF sh ew same_frame_geometry [OF u(2)] u(5)]
  show ?thesis
    by (rule that [OF _ u(3) sv(2) u(4) sv(1)])
      (simp add: at owns_loadHeader [OF own] looks [OF wf ew b] found u(1) bs [simplified])
qed

lemma race_won:
  assumes own: "ownsSlot ix b i r" and at: "indexAt m idx = Some ix" and b: "b = binOf ix (hash k)"
    and ew: "entries_wf content hash ok ix" and bs: "getBinState (hdr ix b) = BinNoTransfer"
    and mine: "slotIn ix b i = Some s" "ok s" "content s = Some (k, v)"
    and absent: "absMap content hash ix k = None"
  obtains ix' where
    "retryWithSlot (Suc n) (look k) wipe zero idx b (int i) m = Some (Ret (zero, True), putIndex m idx ix')"
    "wf_index ix'" "entries_wf content hash ok ix'" "getSlotState (hdr ix' b) (int i) = SlotValid"
    "absMap content hash ix' = (absMap content hash ix)(k \<mapsto> v)"
proof -
  have wf: "wf_index ix" using own by (simp add: ownsSlot_def)
  then have sh: "shape ix" by (simp add: wf_index_def)
  obtain ix' where u:
    "atomicCASHeader ix b (hdr ix b) (setSlotStateAndVersion (hdr ix b) (int i) SlotValid) = Some (True, ix')"
    "same_frame ix ix'" "wf_index ix'" "getSlotState (hdr ix' b) (int i) = SlotValid"
    "\<And>b' j. inBin ix b' \<Longrightarrow> view ix' b' j = (if b' = b \<and> j = i then Some s else view ix b' j)"
    by (rule owned_setState [OF own, of SlotValid]) (auto simp: mine(1))
  have "slotEntry content ix b i = None"
    using owns_not_valid [OF own] by (simp add: slotEntry_def view_def)
  note up = entries_update [OF ew sh same_frame_geometry [OF u(2)] b disjI1 [OF conjI [OF this absent]] u(5)]
  have ew': "entries_wf content hash ok ix'" "absMap content hash ix' = (absMap content hash ix)(k \<mapsto> v)"
    using up mine(2,3) by auto
  show ?thesis
    by (rule that [OF _ u(3) ew'(1) u(4) ew'(2)])
      (use u(1) in \<open>simp add: at owns_loadHeader [OF own] looks [OF wf ew b] absent finalizeSlot_def bs [simplified]\<close>)
qed

end

end
