(* ===== verification/InlineWords.thy ===== *)
theory InlineWords
  imports InsertRace InlineTable
begin

text \<open>
  The functions of the inline package whose source is, word for word, the allocator's
  (inline/header.go, inline/linkmeta.go and the small helpers of the other files): each is the
  shared model at the inline slot type. The last section is the constructors of map.go.
\<close>

section \<open>inline/header.go\<close>

definition inlineGetBinState :: "Header \<Rightarrow> 8 word" where
  "inlineGetBinState h = getBinState h"

definition inlineGetSlotStates :: "Header \<Rightarrow> 32 word" where
  "inlineGetSlotStates h = getSlotStates h"

definition inlineGetSlotState :: "Header \<Rightarrow> int \<Rightarrow> 8 word" where
  "inlineGetSlotState h slotIdx = getSlotState h slotIdx"

definition inlineSetBinState :: "Header \<Rightarrow> 8 word \<Rightarrow> Header" where
  "inlineSetBinState h binState = setBinState h binState"

definition inlineSetSlotStateAndVersion :: "Header \<Rightarrow> int \<Rightarrow> 8 word \<Rightarrow> Header" where
  "inlineSetSlotStateAndVersion h slotIdx state = setSlotStateAndVersion h slotIdx state"

definition inlineAtomicLoadHeader :: "64 word index \<Rightarrow> 64 word \<Rightarrow> 64 word option" where
  "inlineAtomicLoadHeader ix b = atomicLoadHeader ix b"

definition inlineAtomicCASHeader ::
  "64 word index \<Rightarrow> 64 word \<Rightarrow> 64 word \<Rightarrow> 64 word \<Rightarrow> (bool \<times> 64 word index) option" where
  "inlineAtomicCASHeader ix b old new = atomicCASHeader ix b old new"

definition inlineAtomicLoadSlotVal :: "64 word index \<Rightarrow> SlotRef \<Rightarrow> 64 word option" where
  "inlineAtomicLoadSlotVal ix r = atomicLoadSlotVal ix r"

definition inlineAtomicStoreSlotVal ::
  "64 word index \<Rightarrow> SlotRef \<Rightarrow> 64 word \<Rightarrow> 64 word index option" where
  "inlineAtomicStoreSlotVal ix r val = atomicStoreSlotVal ix r val"

definition inlineValidMask3 :: "Header \<Rightarrow> 32 word" where
  "inlineValidMask3 h = validMask3 h"

definition inlineValidMask4 :: "Header \<Rightarrow> nat \<Rightarrow> 32 word" where
  "inlineValidMask4 h base = validMask4 h base"

definition inlineInvalidMask3 :: "Header \<Rightarrow> 32 word" where
  "inlineInvalidMask3 h = invalidMask3 h"

definition inlineInvalidMask4 :: "Header \<Rightarrow> nat \<Rightarrow> 32 word" where
  "inlineInvalidMask4 h base = invalidMask4 h base"

definition inlineB2u32 :: "bool \<Rightarrow> 32 word" where
  "inlineB2u32 b = b2u32 b"

section \<open>inline/linkmeta.go\<close>

definition inlineNewLinkMeta :: "32 word \<Rightarrow> 32 word \<Rightarrow> LinkMeta" where
  "inlineNewLinkMeta pairStart single = newLinkMeta pairStart single"

definition inlineGetPairStart :: "LinkMeta \<Rightarrow> 32 word" where
  "inlineGetPairStart lm = getPairStart lm"

definition inlineGetSingle :: "LinkMeta \<Rightarrow> 32 word" where
  "inlineGetSingle lm = getSingle lm"

definition inlineSetPairStart :: "LinkMeta \<Rightarrow> 32 word \<Rightarrow> LinkMeta" where
  "inlineSetPairStart lm ps = setPairStart lm ps"

definition inlineSetSingle :: "LinkMeta \<Rightarrow> 32 word \<Rightarrow> LinkMeta" where
  "inlineSetSingle lm s = setSingle lm s"

definition inlineResolveLink :: "LinkMeta \<Rightarrow> int \<Rightarrow> 32 word" where
  "inlineResolveLink lm linkIdx = resolveLink lm linkIdx"

definition inlineGetAttachedLinkCount :: "LinkMeta \<Rightarrow> int" where
  "inlineGetAttachedLinkCount lm = getAttachedLinkCount lm"

definition inlineAtomicCASLinkMeta ::
  "64 word index \<Rightarrow> 64 word \<Rightarrow> 64 word \<Rightarrow> 64 word \<Rightarrow> (bool \<times> 64 word index) option" where
  "inlineAtomicCASLinkMeta ix b old new = atomicCASLinkMeta ix b old new"

section \<open>Search, Insert and Resize\<close>

definition inlineMatchPrimaryBucketKeys ::
  "64 word PrimaryBucket \<Rightarrow> 64 word \<Rightarrow> 64 word \<Rightarrow> 32 word option" where
  "inlineMatchPrimaryBucketKeys pb h key = matchPrimaryBucketKeys pb h key"

definition inlineReserveSlot ::
  "64 word index \<Rightarrow> 64 word \<Rightarrow> 64 word \<Rightarrow> 64 word \<Rightarrow> (bool \<times> 64 word index) option" where
  "inlineReserveSlot ix b oldH newH = reserveSlot ix b oldH newH"

definition inlineFinalizeSlot ::
  "64 word index \<Rightarrow> 64 word \<Rightarrow> 64 word \<Rightarrow> int \<Rightarrow> (bool \<times> 64 word index) option" where
  "inlineFinalizeSlot ix b oldH i = finalizeSlot ix b oldH i"

definition inlineRetryWithSlot ::
  "nat \<Rightarrow> 64 word \<Rightarrow> nat \<Rightarrow> 64 word \<Rightarrow> int \<Rightarrow> 's IMap \<Rightarrow> ((64 word \<times> bool) ctl \<times> 's IMap) option" where
  "inlineRetryWithSlot n key idx b slotIndex m =
     retryWithSlot n (findKey key) inlineWipe 0 idx b slotIndex m"

definition inlineNextPowerOf2 :: "64 word \<Rightarrow> 64 word" where
  "inlineNextPowerOf2 n = nextPowerOf2 n"

definition inlineGetResizeContext :: "'s IMap \<Rightarrow> nat option" where
  "inlineGetResizeContext m = getResizeContext m"

definition inlineSetResizeContext :: "'s IMap \<Rightarrow> resizeContext \<Rightarrow> 's IMap" where
  "inlineSetResizeContext m ctx = setResizeContext m ctx"

definition inlineTrySetResizeContext :: "'s IMap \<Rightarrow> resizeContext \<Rightarrow> bool \<times> 's IMap" where
  "inlineTrySetResizeContext m ctx = trySetResizeContext m ctx"

definition inlineNextSingleLinkForResize :: "32 word \<Rightarrow> 32 word \<times> 32 word" where
  "inlineNextSingleLinkForResize linkNextR = nextSingleLinkForResize linkNextR"

definition inlineNextLinkPairForResize :: "32 word \<Rightarrow> 32 word \<times> 32 word" where
  "inlineNextLinkPairForResize linkNextR = nextLinkPairForResize linkNextR"

definition inlineAttachSingleForResize ::
  "64 word index \<Rightarrow> 64 word \<Rightarrow> 32 word \<Rightarrow> (32 word \<times> 64 word index \<times> 32 word) option" where
  "inlineAttachSingleForResize ix b linkNextR = attachSingleForResize ix b linkNextR"

definition inlineAttachPairForResize ::
  "64 word index \<Rightarrow> 64 word \<Rightarrow> 32 word \<Rightarrow> (32 word \<times> 64 word index \<times> 32 word) option" where
  "inlineAttachPairForResize ix b linkNextR = attachPairForResize ix b linkNextR"

definition inlineValidSlotCount :: "64 word index \<Rightarrow> 64 word" where
  "inlineValidSlotCount ix = validSlotCount ix"

section \<open>map.go\<close>

text \<open>\<open>seed\<close> is the seed \<open>maphash.MakeSeed\<close> returned.\<close>

definition NewMap :: "'s \<Rightarrow> 64 word \<Rightarrow> ('k, 'b, 's) AMap" where
  "NewMap seed initialSize = AllocNew seed initialSize"

definition NewInline ::
  "('s \<Rightarrow> 64 word \<Rightarrow> 64 word) \<Rightarrow> 's \<Rightarrow> 64 word \<Rightarrow> 's IMap option" where
  "NewInline cmp seed initialSize = inlineNew cmp seed initialSize"

end
