(* ===== verification/HeaderSteps.thy ===== *)
theory HeaderSteps
  imports SlotInsert
begin

text \<open>
  What the interleaved models of the two packages share. A search reads the slots of a bin
  bucket by bucket (\<open>segment\<close>); what it read under a header \<open>h\<close> counts as long as the header is
  \<open>h\<close>. \<open>captured\<close> is why a header that equals \<open>h\<close> later was \<open>h\<close> all the time: a
  compare-and-swap raises the version, and the AND of \<open>markSlotInvalid\<close>, which does not, only
  clears bits.
\<close>

section \<open>The slots a search reads\<close>

text \<open>The slots of one bucket, each with its number in the bin and its pointer.\<close>

type_synonym segment = "(nat \<times> SlotRef) list"


definition primarySegment :: "64 word \<Rightarrow> segment" where
  "primarySegment b = [(0, PrimarySlot b 0), (1, PrimarySlot b 1), (2, PrimarySlot b 2)]"

definition bucketSegment :: "nat \<Rightarrow> 32 word \<Rightarrow> segment" where
  "bucketSegment base l = [(base, LinkSlot l 0), (base + 1, LinkSlot l 1), (base + 2, LinkSlot l 2),
     (base + 3, LinkSlot l 3)]"

text \<open>The link buckets a search visits, for header \<open>h\<close> and link descriptor \<open>lm\<close>.\<close>

definition linkSegmentsOf :: "64 word \<Rightarrow> 64 word \<Rightarrow> segment list" where
  "linkSegmentsOf h lm =
     (let s = getSingle lm; p = getPairStart lm
      in if s = NO_LINK then []
         else (if validMask4 h 3 \<noteq> 0 then [bucketSegment 3 s] else []) @
           (if p = NO_LINK then []
            else (if validMask4 h 7 \<noteq> 0 then [bucketSegment 7 p] else []) @
              (if validMask4 h 11 \<noteq> 0 then [bucketSegment 11 (p + 1)] else [])))"

definition refsOk :: "'v index \<Rightarrow> 64 word \<Rightarrow> segment \<Rightarrow> bool" where
  "refsOk ix b sg \<longleftrightarrow> (\<forall>(i, r) \<in> set sg. i < 15 \<and> slotRef ix b i = Some r)"

definition attached :: "'v index \<Rightarrow> 64 word \<Rightarrow> 64 word \<Rightarrow> bool" where
  "attached ix b h \<longleftrightarrow> (\<forall>i<15. stHi h i \<longrightarrow> slotRef ix b i \<noteq> None)"

definition slotsOf :: "segment \<Rightarrow> nat set" where "slotsOf sg = fst ` set sg"

definition pending :: "segment list option \<Rightarrow> nat set" where
  "pending rest = (case rest of None \<Rightarrow> {3..<15} | Some segs \<Rightarrow> slotsOf (concat segs))"

definition restOk :: "'v index \<Rightarrow> 64 word \<Rightarrow> segment list option \<Rightarrow> bool" where
  "restOk ix b rest = (case rest of None \<Rightarrow> True | Some segs \<Rightarrow> refsOk ix b (concat segs))"

lemma links_refs:
  assumes lw: "links_wf ix" and b: "inBin ix b"
  shows "refsOk ix b (concat (linkSegmentsOf h (lmeta ix b)))"
proof -
  have lw: "linkAt ix b 1 \<noteq> 0 \<Longrightarrow> linkAt ix b 0 \<noteq> 0 \<and> linkAt ix b 2 \<noteq> 0"
    using lw b by (simp add: links_wf_def)
  show ?thesis
    using lw b
    by (auto simp: refsOk_def linkSegmentsOf_def bucketSegment_def Let_def slotRef_alt linkAt_simps split: if_splits)
qed

lemma slotsOf_simps [simp]:
  "slotsOf [] = {}" "slotsOf (x # xs) = insert (fst x) (slotsOf xs)"
  "slotsOf (xs @ ys) = slotsOf xs \<union> slotsOf ys"
  by (auto simp: slotsOf_def)

lemma refsOk_simps [simp]:
  "refsOk ix b []" "refsOk ix b (x # xs) \<longleftrightarrow> fst x < 15 \<and> slotRef ix b (fst x) = Some (snd x) \<and> refsOk ix b xs"
  "refsOk ix b (xs @ ys) \<longleftrightarrow> refsOk ix b xs \<and> refsOk ix b ys"
  by (auto simp: refsOk_def)

lemma validMask4_hit:
  assumes "base = 3 \<or> base = 7 \<or> base = 11" "base \<le> i" "i < base + 4" "stHi h i"
  shows "validMask4 h base \<noteq> 0"
proof -
  have "i = base \<or> i = base + 1 \<or> i = base + 2 \<or> i = base + 3" using assms(2,3) by arith
  then show ?thesis
    unfolding validMask4_spread [OF assms(1)] using assms(4) by (auto simp: spread4_eq_0)
qed

lemma links_cover:
  assumes lw: "links_wf ix" and b: "inBin ix b" and at: "attached ix b h"
    and i: "3 \<le> i" "i < 15" "stHi h i"
  shows "i \<in> slotsOf (concat (linkSegmentsOf h (lmeta ix b)))"
proof -
  have lw: "linkAt ix b 1 \<noteq> 0 \<Longrightarrow> linkAt ix b 0 \<noteq> 0 \<and> linkAt ix b 2 \<noteq> 0"
    using lw b by (simp add: links_wf_def)
  have ref: "linkAt ix b ((i - 3) div 4) \<noteq> 0"
    using at i b by (auto simp: attached_def slotRef_alt split: if_splits)
  consider (s) "i \<in> {3, 4, 5, 6}" "(i - 3) div 4 = 0" | (p) "i \<in> {7, 8, 9, 10}" "(i - 3) div 4 = 1"
    | (q) "i \<in> {11, 12, 13, 14}" "(i - 3) div 4 = 2"
  proof -
    have "i \<in> {3, 4, 5, 6} \<and> (i - 3) div 4 = 0 \<or> i \<in> {7, 8, 9, 10} \<and> (i - 3) div 4 = 1 \<or>
        i \<in> {11, 12, 13, 14} \<and> (i - 3) div 4 = 2"
      using i(1,2) by (simp, arith)
    then show ?thesis using that by blast
  qed
  then show ?thesis
  proof cases
    case s
    then have "validMask4 h 3 \<noteq> 0" using i(3) by (intro validMask4_hit [of 3 i]) auto
    with s ref show ?thesis by (auto simp: linkSegmentsOf_def bucketSegment_def Let_def linkAt_simps)
  next
    case p
    then have "validMask4 h 7 \<noteq> 0" using i(3) by (intro validMask4_hit [of 7 i]) auto
    with p ref lw show ?thesis by (auto simp: linkSegmentsOf_def bucketSegment_def Let_def linkAt_simps)
  next
    case q
    then have "validMask4 h 11 \<noteq> 0" using i(3) by (intro validMask4_hit [of 11 i]) auto
    with q ref lw show ?thesis
      by (auto simp: linkSegmentsOf_def bucketSegment_def Let_def linkAt_simps split: if_splits)
  qed
qed

section \<open>Reserved slots\<close>

definition trying :: "'v index \<Rightarrow> 64 word \<Rightarrow> nat \<Rightarrow> bool" where
  "trying ix b i \<longleftrightarrow> i < 15 \<and> \<not> stHi (hdr ix b) i \<and> stLo (hdr ix b) i \<and> slotRef ix b i \<noteq> None"

lemma trying_states: "trying ix b i \<Longrightarrow> \<not> isValid ix b i \<and> \<not> isInvalid ix b i \<and> i < 15"
  by (auto simp: trying_def isValid_def isInvalid_def)

lemma trying_frame: "hdr ix' = hdr ix \<Longrightarrow> slotRef ix' = slotRef ix \<Longrightarrow> trying ix' b i = trying ix b i"
  by (simp add: trying_def)

lemma attached_now: "states_wf ix \<Longrightarrow> inBin ix b \<Longrightarrow> attached ix b (hdr ix b)"
  by (fastforce simp: attached_def states_wf_def isInvalid_def)

lemma valid_now: "states_wf ix \<Longrightarrow> inBin ix b \<Longrightarrow> i < 15 \<Longrightarrow> stHi (hdr ix b) i \<Longrightarrow> isValid ix b i"
  by (fastforce simp: states_wf_def isValid_def)

section \<open>Headers\<close>

text \<open>
  A header stays, is replaced by a successful compare-and-swap, which raises the version, or
  loses bits to the AND of \<open>markSlotInvalid\<close>.
\<close>

definition headerStep :: "64 word \<Rightarrow> 64 word \<Rightarrow> bool" where
  "headerStep h h' \<longleftrightarrow> h' = h \<or> version h' = version h + 1 \<or>
     (version h' = version h \<and> h' \<noteq> h \<and> (\<forall>n. bit h' n \<longrightarrow> bit h n))"

definition countWrites ::
  "'v index \<Rightarrow> 'v index \<Rightarrow> (64 word \<Rightarrow> nat) \<Rightarrow> 64 word \<Rightarrow> nat" where
  "countWrites ix ix' w b = (if version (hdr ix' b) = version (hdr ix b) then w b else Suc (w b))"

definition writesOk :: "'v index \<Rightarrow> (64 word \<Rightarrow> nat) \<Rightarrow> bool" where
  "writesOk ix w \<longleftrightarrow> (\<forall>b. inBin ix b \<longrightarrow> unat (version (hdr ix b)) = w b)"

definition captured :: "'v index \<Rightarrow> (64 word \<Rightarrow> nat) \<Rightarrow> 64 word \<Rightarrow> 64 word \<Rightarrow> bool" where
  "captured ix w b h \<longleftrightarrow> unat (version h) < w b \<or>
     (version h = version (hdr ix b) \<and> (\<forall>n. bit (hdr ix b) n \<longrightarrow> bit h n))"

lemma captured_now [simp]: "captured ix w b (hdr ix b)"
  by (simp add: captured_def)


lemma countWrites_same [simp]: "countWrites ix ix w = w"
  by (simp add: countWrites_def fun_eq_iff)

lemma countWrites_hdr: "hdr ix' = hdr ix \<Longrightarrow> countWrites ix ix' w = w"
  by (simp add: countWrites_def fun_eq_iff)

lemma countWrites_mono: "w b \<le> countWrites ix ix' w b"
  by (simp add: countWrites_def)

lemma writesOk_step:
  assumes ok: "writesOk ix w" and bins: "\<And>b. inBin ix' b = inBin ix b"
    and hs: "\<And>b. inBin ix b \<Longrightarrow> headerStep (hdr ix b) (hdr ix' b)"
    and wrap: "\<And>b. inBin ix b \<Longrightarrow> countWrites ix ix' w b < 2 ^ 32"
  shows "writesOk ix' (countWrites ix ix' w)"
  unfolding writesOk_def bins
proof (intro allI impI)
  fix b assume b: "inBin ix b"
  have u: "unat (version (hdr ix b)) = w b" using ok b by (simp add: writesOk_def)
  have "version (hdr ix' b) = version (hdr ix b) \<or> version (hdr ix' b) = version (hdr ix b) + 1"
    using hs [OF b] by (auto simp: headerStep_def)
  then show "unat (version (hdr ix' b)) = countWrites ix ix' w b"
  proof
    assume v: "version (hdr ix' b) = version (hdr ix b) + 1"
    then have "countWrites ix ix' w b = Suc (w b)" by (simp add: countWrites_def)
    moreover from this have "Suc (unat (version (hdr ix b))) < 2 ^ LENGTH(32)" using wrap [OF b] u by simp
    then have "unat (version (hdr ix b) + 1) = Suc (unat (version (hdr ix b)))"
      by (simp add: unat_word_ariths)
    ultimately show ?thesis by (simp add: v u)
  qed (simp add: countWrites_def u)
qed

lemma captured_step:
  assumes "captured ix w b h" "headerStep (hdr ix b) (hdr ix' b)" "inBin ix b" "writesOk ix w"
  shows "captured ix' (countWrites ix ix' w) b h"
proof -
  have u: "unat (version (hdr ix b)) = w b" using assms(3,4) by (simp add: writesOk_def)
  show ?thesis
    using assms(1,2) u countWrites_mono [of w b ix ix'] by (auto simp: captured_def headerStep_def countWrites_def)
qed

lemma captured_return:
  assumes "captured ix w b h" "headerStep (hdr ix b) (hdr ix' b)" "inBin ix' b"
    "writesOk ix' (countWrites ix ix' w)" "hdr ix' b = h"
  shows "hdr ix b = h"
proof -
  have "unat (version h) = countWrites ix ix' w b" using assms(3-5) by (auto simp: writesOk_def)
  then have c: "version h = version (hdr ix b)" "\<And>n. bit (hdr ix b) n \<Longrightarrow> bit h n"
    using assms(1) countWrites_mono [of w b ix ix'] by (auto simp: captured_def)
  consider "hdr ix' b = hdr ix b" | "\<And>n. bit h n \<Longrightarrow> bit (hdr ix b) n"
    using assms(2,5) c(1) by (auto simp: headerStep_def)
  then show ?thesis
  proof cases
    case 2
    then show ?thesis using c(2) by (intro bit_word_eqI) blast
  qed (use assms(5) in simp)
qed

lemma CAS_header:
  assumes "inBin ix b"
  obtains ix' where "storeHeader ix b new = Some ix'"
    "atomicCASHeader ix b h new = Some (if hdr ix b = h then (True, ix') else (False, ix))"
proof -
  obtain ix' where "storeHeader ix b new = Some ix'" using storeHeader_effect [OF assms] by metis
  then show ?thesis using assms by (intro that [of ix']) (simp_all add: atomicCASHeader_def hdr_def)
qed

lemma headerStep_set: "i < 15 \<Longrightarrow> headerStep h (setSlotStateAndVersion h (int i) s)"
  by (simp add: headerStep_def version_setSlot)

lemma load_header: "inBin ix b \<Longrightarrow> atomicLoadHeader ix b = Some (hdr ix b)"
  by (simp add: atomicLoadHeader_def hdr_def)

lemma storeSlot_total: "loadSlot ix r = Some s \<Longrightarrow> \<exists>ix'. storeSlot ix r x = Some ix'"
  by (rule storeSlot_effect [of ix r s x]) blast+

end
