(* ===== verification/ChooseSteps.thy ===== *)
theory ChooseSteps
  imports HeaderSteps
begin

text \<open>
  \<open>chooseInsertSlot\<close> once more (index.go, link.go, the same in both packages), one access to the
  shared memory at a time: the header, the link descriptor, the fetch-and-add that allocates a
  link or a pair, and the loop that attaches it. A link that another goroutine attaches in
  between stays allocated and unused.
\<close>

section \<open>The accesses\<close>

text \<open>\<open>Chosen i\<close> is the result, negative when the bin is full; the flag is true for a pair.\<close>

datatype chooser =
    ChooseHeader
  | ChooseLinks "64 word"
  | AllocLink
  | AllocPair
  | AttachLoad bool "32 word"
  | AttachSwap bool "32 word" "64 word"
  | Chosen int

definition attachSlot :: "bool \<Rightarrow> int" where
  "attachSlot pair = (if pair then PRIMARY_SLOTS + LINK_SLOTS else PRIMARY_SLOTS)"

definition attachedIn :: "bool \<Rightarrow> 64 word \<Rightarrow> 32 word" where
  "attachedIn pair lm = (if pair then getPairStart lm else getSingle lm)"

definition attachIn :: "bool \<Rightarrow> 64 word \<Rightarrow> 32 word \<Rightarrow> 64 word" where
  "attachIn pair lm l = (if pair then setPairStart lm l else setSingle lm l)"

definition chooseFrom :: "64 word \<Rightarrow> 64 word \<Rightarrow> chooser" where
  "chooseFrom h lm =
     (let hasSingle = (getSingle lm \<noteq> NO_LINK);
          hasPair = (getPairStart lm \<noteq> NO_LINK);
          singleMask = invalidMask4 h 3;
          pair0Mask = invalidMask4 h 7;
          pair1Mask = invalidMask4 h 11
      in if hasSingle \<and> singleMask \<noteq> 0 then Chosen (PRIMARY_SLOTS + lowestSlot singleMask)
         else if hasPair \<and> pair0Mask \<noteq> 0 then Chosen (PRIMARY_SLOTS + LINK_SLOTS + lowestSlot pair0Mask)
         else if hasPair \<and> pair1Mask \<noteq> 0 then Chosen (PRIMARY_SLOTS + 2 * LINK_SLOTS + lowestSlot pair1Mask)
         else if \<not> hasSingle then AllocLink
         else if \<not> hasPair then AllocPair
         else Chosen (-1))"

fun chooseStep :: "64 word \<Rightarrow> chooser \<Rightarrow> 'v index \<Rightarrow> (chooser \<times> 'v index) option" where
  "chooseStep b ChooseHeader ix = do {
     h \<leftarrow> atomicLoadHeader ix b;
     let primaryMask = invalidMask3 h;
     Some (if primaryMask \<noteq> 0 then Chosen (lowestSlot primaryMask) else ChooseLinks h, ix) }"
| "chooseStep b (ChooseLinks h) ix = do {
     pb \<leftarrow> getBinByIndex ix b;
     Some (chooseFrom h (LinkMeta pb), ix) }"
| "chooseStep b AllocLink ix =
     (let (l, ix') = allocateLink ix
      in Some (if l = NO_LINK then Chosen (-1) else AttachLoad False l, ix'))"
| "chooseStep b AllocPair ix =
     (let (l, ix') = allocateLinkPair ix
      in Some (if l = NO_LINK then Chosen (-1) else AttachLoad True l, ix'))"
| "chooseStep b (AttachLoad pair l) ix = do {
     pb \<leftarrow> getBinByIndex ix b;
     let cur = LinkMeta pb;
     Some (if attachedIn pair cur \<noteq> NO_LINK then Chosen (attachSlot pair) else AttachSwap pair l cur, ix) }"
| "chooseStep b (AttachSwap pair l cur) ix = do {
     (ok, ix') \<leftarrow> atomicCASLinkMeta ix b cur (attachIn pair cur l);
     Some (if ok then Chosen (attachSlot pair) else AttachLoad pair l, ix') }"
| "chooseStep b (Chosen i) ix = None"

section \<open>Run alone\<close>

text \<open>Without interference the accesses give what the sequential model returns.\<close>

fun chooseSteps :: "nat \<Rightarrow> 64 word \<Rightarrow> chooser \<Rightarrow> 'v index \<Rightarrow> (int \<times> 'v index) option" where
  "chooseSteps n b (Chosen i) ix = Some (i, ix)"
| "chooseSteps 0 b cp ix = None"
| "chooseSteps (Suc n) b cp ix = do { (cp', ix') \<leftarrow> chooseStep b cp ix; chooseSteps n b cp' ix' }"

lemma chooseSteps_Chosen [simp]: "chooseSteps n b (Chosen i) ix = Some (i, ix)"
  by (cases n) simp_all

lemma attach_alone:
  assumes "inBin ix b"
  shows "chooseSteps 2 b (AttachLoad False l) ix =
      map_option (\<lambda>(_, ix'). (attachSlot False, ix')) (attachSingle_loop ix b l)"
    "chooseSteps 2 b (AttachLoad True l) ix =
      map_option (\<lambda>(_, ix'). (attachSlot True, ix')) (attachPair_loop ix b l)"
  using assms
  by (auto simp: numeral_2_eq_2 attachSingle_loop.simps [of ix] attachPair_loop.simps [of ix] Let_def
      attachedIn_def attachIn_def atomicCASLinkMeta_def storeLinkMeta_def)

text \<open>All of it, for a bin of a well-formed index.\<close>

lemma attachSlot_simps: "attachSlot False = PRIMARY_SLOTS" "attachSlot True = PRIMARY_SLOTS + LINK_SLOTS"
  by (simp_all add: attachSlot_def)

lemma attach_loop_link:
  assumes "inBin ix b" "l \<noteq> 0"
  shows "attachSingle_loop ix b l \<bind> (\<lambda>(l', ix'). Some (if l' \<noteq> 0 then c else d, ix')) =
      map_option (\<lambda>(_, ix'). (c, ix')) (attachSingle_loop ix b l)"
    "attachPair_loop ix b l \<bind> (\<lambda>(l', ix'). Some (if l' \<noteq> 0 then c else d, ix')) =
      map_option (\<lambda>(_, ix'). (c, ix')) (attachPair_loop ix b l)"
  using assms
  by (auto simp: attachSingle_loop.simps [of ix] attachPair_loop.simps [of ix] Let_def
      atomicCASLinkMeta_def storeLinkMeta_def)

lemma chooseSteps_alone:
  assumes "inBin ix b"
  shows "chooseSteps 5 b ChooseHeader ix = chooseInsertSlot ix b"
proof -
  let ?lm = "LinkMeta (bins ix ! unat b)" and ?h = "Header (bins ix ! unat b)"
  have n: "(5 :: nat) = Suc (Suc (Suc 2))" by simp
  have frame: "inBin (ix\<lparr>linkNext := n\<rparr>) b" for n using assms by (simp add: linkNext_update)
  have single: "chooseSteps (Suc 2) b AllocLink ix =
      do { (l, ix') \<leftarrow> attachSingle ix b; Some (if l \<noteq> NO_LINK then PRIMARY_SLOTS else -1, ix') }"
    unfolding chooseSteps.simps chooseStep.simps
    by (auto simp: attach_alone(1) [OF frame] attach_loop_link(1) [OF frame]
        attachSingle_def allocateLink_def Let_def attachSlot_simps split: option.splits)
  have pair: "chooseSteps (Suc 2) b AllocPair ix =
      do { (l, ix') \<leftarrow> attachPair ix b; Some (if l \<noteq> NO_LINK then PRIMARY_SLOTS + LINK_SLOTS else -1, ix') }"
    unfolding chooseSteps.simps chooseStep.simps
    by (auto simp: attach_alone(2) [OF frame] attach_loop_link(2) [OF frame]
        attachPair_def allocateLinkPair_def Let_def attachSlot_simps split: option.splits)
  have links: "chooseSteps (Suc (Suc 2)) b (ChooseLinks ?h) ix = chooseSteps (Suc 2) b (chooseFrom ?h ?lm) ix"
    unfolding chooseSteps.simps chooseStep.simps using assms by simp
  have header: "chooseSteps (Suc m) b ChooseHeader ix =
      (if invalidMask3 ?h \<noteq> 0 then Some (lowestSlot (invalidMask3 ?h), ix)
       else chooseSteps m b (ChooseLinks ?h) ix)" for m
    using assms by (simp add: atomicLoadHeader_def Let_def)
  have "chooseSteps 5 b ChooseHeader ix =
      (if invalidMask3 ?h \<noteq> 0 then Some (lowestSlot (invalidMask3 ?h), ix)
       else chooseSteps (Suc 2) b (chooseFrom ?h ?lm) ix)"
    unfolding n links [symmetric] header by simp
  then show ?thesis
    unfolding chooseInsertSlot_def chooseFrom_def Let_def getBinByIndex_in [OF assms] Option.bind.simps
    by (simp only: single pair chooseSteps_Chosen split: if_split) simp
qed

section \<open>With interference\<close>

text \<open>A link that is allocated and in no bin, and the links a goroutine at a point keeps for itself.\<close>

definition linkFree :: "'v index \<Rightarrow> 32 word \<Rightarrow> bool" where
  "linkFree ix l \<longleftrightarrow> l \<noteq> 0 \<and> unat l \<le> unat (linkNext ix) \<and>
     (\<forall>b u. inBin ix b \<and> u < 3 \<longrightarrow> linkAt ix b u \<noteq> l)"

fun heldLinks :: "chooser \<Rightarrow> 32 word set" where
  "heldLinks (AttachLoad pair l) = (if pair then {l, l + 1} else {l})"
| "heldLinks (AttachSwap pair l cur) = (if pair then {l, l + 1} else {l})"
| "heldLinks cp = {}"

text \<open>
  \<open>linkStep H H' ix ix'\<close>: an access of a goroutine that keeps the links \<open>H\<close> and then \<open>H'\<close>. It
  attaches none but its own, and takes new ones from above \<open>linkNext\<close>.
\<close>

definition linkStep :: "32 word set \<Rightarrow> 32 word set \<Rightarrow> 'v index \<Rightarrow> 'v index \<Rightarrow> bool" where
  "linkStep H H' ix ix' \<longleftrightarrow> unat (linkNext ix) \<le> unat (linkNext ix') \<and>
     (\<forall>b u. inBin ix b \<and> u < 3 \<longrightarrow> linkAt ix' b u = linkAt ix b u \<or> linkAt ix' b u \<in> H) \<and>
     (\<forall>l \<in> H'. l \<in> H \<or> unat (linkNext ix) < unat l)"

lemma linkStep_same:
  "linkNext ix' = linkNext ix \<Longrightarrow> lmeta ix' = lmeta ix \<Longrightarrow> H' \<subseteq> H \<Longrightarrow> linkStep H H' ix ix'"
  by (auto simp: linkStep_def linkAt_def)

lemma linkFree_step:
  "linkFree ix l \<Longrightarrow> linkStep H H' ix ix' \<Longrightarrow> l \<notin> H \<Longrightarrow> (\<And>b. inBin ix' b = inBin ix b) \<Longrightarrow> linkFree ix' l"
  unfolding linkFree_def linkStep_def by (metis le_trans)

text \<open>What is known at a point, for a call whose search saw header \<open>h\<close>.\<close>

definition freeSlot :: "'v index \<Rightarrow> 64 word \<Rightarrow> 64 word \<Rightarrow> nat \<Rightarrow> bool" where
  "freeSlot ix b h j \<longleftrightarrow> (hdr ix b = h \<longrightarrow> isInvalid ix b j)"

definition attaching :: "'v index \<Rightarrow> 64 word \<Rightarrow> 64 word \<Rightarrow> bool \<Rightarrow> 32 word \<Rightarrow> bool" where
  "attaching ix b h pair l \<longleftrightarrow> freeSlot ix b h (nat (attachSlot pair)) \<and>
     (pair \<longrightarrow> slotRef ix b 3 \<noteq> None) \<and> (\<forall>x \<in> heldLinks (AttachLoad pair l). linkFree ix x)"

fun chooseInv :: "'v index \<Rightarrow> 64 word \<Rightarrow> 64 word \<Rightarrow> chooser \<Rightarrow> bool" where
  "chooseInv ix b h ChooseHeader \<longleftrightarrow> True"
| "chooseInv ix b h (ChooseLinks h') \<longleftrightarrow> (hdr ix b = h \<longrightarrow> h' = h)"
| "chooseInv ix b h AllocLink \<longleftrightarrow> freeSlot ix b h 3"
| "chooseInv ix b h AllocPair \<longleftrightarrow> freeSlot ix b h 7 \<and> slotRef ix b 3 \<noteq> None"
| "chooseInv ix b h (AttachLoad pair l) \<longleftrightarrow> attaching ix b h pair l"
| "chooseInv ix b h (AttachSwap pair l cur) \<longleftrightarrow> attaching ix b h pair l \<and> attachedIn pair cur = 0"
| "chooseInv ix b h (Chosen i) \<longleftrightarrow>
     (0 \<le> i \<longrightarrow> (\<exists>j<15. i = int j \<and> freeSlot ix b h j \<and> slotRef ix b j \<noteq> None))"

lemma held_linkFree: "chooseInv ix b h cp \<Longrightarrow> l \<in> heldLinks cp \<Longrightarrow> linkFree ix l"
  by (cases cp) (auto simp: attaching_def)

lemma freeSlot_later: "freeSlot ix b h j \<Longrightarrow> (hdr ix' b = h \<Longrightarrow> hdr ix b = h) \<Longrightarrow> freeSlot ix' b h j"
  by (auto simp: freeSlot_def isInvalid_def)

lemma chooseInv_later:
  assumes inv: "chooseInv ix b h cp" and same: "hdr ix' b = h \<Longrightarrow> hdr ix b = h"
    and refs: "\<And>i. slotRef ix b i \<noteq> None \<Longrightarrow> slotRef ix' b i \<noteq> None"
    and ls: "linkStep H H' ix ix'" "H \<inter> heldLinks cp = {}" "\<And>b. inBin ix' b = inBin ix b"
  shows "chooseInv ix' b h cp"
proof -
  note fs = freeSlot_later [OF _ same]
  have at: "attaching ix' b h pair l"
    if "attaching ix b h pair l" "H \<inter> heldLinks (AttachLoad pair l) = {}" for pair l
    unfolding attaching_def
  proof (intro conjI impI ballI)
    fix x assume x: "x \<in> heldLinks (AttachLoad pair l)"
    show "linkFree ix' x"
      by (rule linkFree_step [OF _ ls(1) _ ls(3)]) (use that x in \<open>auto simp: attaching_def\<close>)
  qed (use that fs refs in \<open>auto simp: attaching_def\<close>)
  show ?thesis
  proof (cases cp)
    case (Chosen i)
    then show ?thesis using inv fs refs by fastforce
  qed (use inv same fs refs at ls(2) in auto)
qed

lemma attach_store:
  assumes wf: "wf_index ix" and al: "alloc_ok ix" and b: "inBin ix b"
    and free: "\<forall>x \<in> heldLinks (AttachLoad pair l). linkFree ix x"
    and none: "attachedIn pair (lmeta ix b) = 0" and single: "pair \<Longrightarrow> slotRef ix b 3 \<noteq> None"
  obtains ix' where "storeLinkMeta ix b (attachIn pair (lmeta ix b) l) = Some ix'" "links_extend ix ix'"
    "wf_index ix'" "alloc_ok ix'" "linkStep (heldLinks (AttachLoad pair l)) {} ix ix'"
    "slotRef ix' b (nat (attachSlot pair)) \<noteq> None"
proof -
  let ?H = "heldLinks (AttachLoad pair l)"
  obtain ix' where st: "storeLinkMeta ix b (attachIn pair (lmeta ix b) l) = Some ix'" and sf: "same_frame ix ix'"
    and lm: "\<And>b'. lmeta ix' b' = (if b' = b then attachIn pair (lmeta ix b) l else lmeta ix b')"
    and hl: "hdr ix' = hdr ix" "\<And>r. loadSlot ix' r = loadSlot ix r"
    using storeLinkMeta_effect [OF b] by metis
  have sg: "same_geometry ix ix'" using sf by (rule same_frame_geometry)
  have inb: "inBin ix' b' = inBin ix b'" for b' using same_geometry_inBin [OF sg] .
  have nx: "linkNext ix' = linkNext ix" "linkCapacity ix' = linkCapacity ix" "indexNext ix' = indexNext ix"
    using sf by (simp_all add: same_frame_def)
  have cap: "unat (linkNext ix) \<le> length (links ix)" using al by (auto simp: alloc_ok_def)
  have s: "getSingle (lmeta ix b) \<noteq> 0" if pair
    using single [OF that] b by (auto simp: slotRef_alt linkAt_simps split: if_splits)
  have p0: "getPairStart (lmeta ix b) = 0"
    using none wf b by (cases pair) (force simp: attachedIn_def wf_index_def links_wf_def linkAt_simps)+
  have new: "l \<noteq> 0" "pair \<Longrightarrow> l + 1 \<noteq> 0" using free by (auto simp: linkFree_def)
  have lk: "linkAt ix' b' u = (if b' \<noteq> b then linkAt ix b' u
      else if pair then if u = 1 then l else if u = 2 then l + 1 else linkAt ix b u
      else if u = 0 then l else linkAt ix b u)" for b' u
    using new by (auto simp: linkAt_def resolveLink_def lm link_simps Let_def attachIn_def)
  have old: "linkAt ix b u = 0" if "linkAt ix' b u \<noteq> linkAt ix b u" "u < 3" for u
    using that none p0 by (auto simp: lk attachedIn_def linkAt_simps ex_less_3 split: if_splits)
  have own: "linkAt ix' b u \<in> ?H" if "linkAt ix' b u \<noteq> linkAt ix b u" for u
    using that by (auto simp: lk split: if_splits)
  have keep: "linkAt ix' b' u = linkAt ix b' u" if "linkAt ix b' u \<noteq> 0" for b' u
    using that none p0 by (auto simp: lk attachedIn_def linkAt_simps split: if_splits)
  have ext: "links_extend ix ix'"
    using sg nx hl keep by (auto simp: links_extend_def)
  have "wf_index ix'"
  proof (rule attach_wf [OF wf b ext])
    show "unat (linkAt ix' b u) \<le> length (links ix)" if "u < 3" for u
      using own [of u] free cap wf b that
      by (cases "linkAt ix' b u = linkAt ix b u") (force simp: wf_index_def links_wf_def linkFree_def)+
    show "linkAt ix' b u \<noteq> linkAt ix b' u'" if "u' < 3" "inBin ix b'" "linkAt ix' b u \<noteq> linkAt ix b u" for u b' u'
      using own [OF that(3)] free that(1,2) unfolding linkFree_def by metis
    show "linkAt ix' b 0 \<noteq> 0 \<and> linkAt ix' b 2 \<noteq> 0" if "linkAt ix' b 1 \<noteq> 0"
      using that p0 s new by (auto simp: lk linkAt_simps [of ix] split: if_splits)
    show "u = u'" if "linkAt ix' b u \<noteq> linkAt ix b u" "linkAt ix' b u' \<noteq> linkAt ix b u'"
      "linkAt ix' b u = linkAt ix' b u'" for u u'
      using that by (auto simp: lk split: if_splits)
  qed (simp add: lk)
  moreover have "alloc_ok ix'"
  proof (rule alloc_ok_extend [OF al sg nx(2)])
    show "linkAt ix' b' u = linkAt ix b' u \<or> unat (linkAt ix' b' u) \<le> unat (linkNext ix')" for b' u
      using own [of u] free by (cases "b' = b") (auto simp: lk [of b'] nx linkFree_def)
  qed (use al nx in \<open>auto simp: alloc_ok_def\<close>)
  moreover have "linkStep ?H {} ix ix'"
    using own by (auto simp: linkStep_def nx lk)
  moreover have "slotRef ix' b (nat (attachSlot pair)) \<noteq> None"
    using b new by (simp add: attachSlot_def slotRef_alt inb lk)
  ultimately show ?thesis using that st ext by blast
qed

lemma allocate_ok:
  assumes wf: "wf_index ix" and al: "alloc_ok ix" and n: "n = 1 \<or> n = (2 :: 32 word)"
    and fits: "\<not> linkNext ix + n > linkCapacity ix"
  defines "ix' \<equiv> ix\<lparr>linkNext := linkNext ix + n\<rparr>"
  shows "links_extend ix ix'" "wf_index ix'" "alloc_ok ix'" "slotRef ix' = slotRef ix"
    "\<And>m l. l = linkNext ix + m \<Longrightarrow> m = 1 \<or> m = n \<Longrightarrow> linkFree ix' l \<and> unat (linkNext ix) < unat l"
    "linkStep H {l. unat (linkNext ix) < unat l} ix ix'"
proof -
  note ab = alloc_bounds [OF wf al]
  have un: "unat (linkNext ix + m) = unat (linkNext ix) + unat m" if "m = 1 \<or> m = n" for m
    using ab n that by auto
  have n1: "unat n = 1 \<or> unat n = 2" using n by auto
  have le: "unat (linkNext ix) + unat n \<le> unat (linkCapacity ix)"
    using fits un [of n] by (simp add: word_less_nat_alt)
  show "links_extend ix ix'" by (simp add: links_extend_def ix'_def linkNext_update)
  show "wf_index ix'" unfolding ix'_def using linkNext_update(1,3,2) wf by (rule wf_index_frame)
  show "alloc_ok ix'"
    by (rule alloc_ok_extend [OF al]) (use un [of n] le in \<open>auto simp: ix'_def linkNext_update\<close>)
  show "slotRef ix' = slotRef ix"
    by (simp add: fun_eq_iff slotRef_alt ix'_def linkNext_update)
  show "linkFree ix' l \<and> unat (linkNext ix) < unat l" if lm: "l = linkNext ix + m" "m = 1 \<or> m = n" for m l
  proof -
    have l: "unat l = unat (linkNext ix) + unat m" "unat m \<le> unat n" "0 < unat m"
      using lm un [OF lm(2)] n1 by auto
    moreover have "linkAt ix b u \<noteq> l" if "inBin ix b" "u < 3" for b u
      by (rule alloc_fresh [OF al that]) (use l le in auto)
    ultimately show ?thesis
      using un [of n] by (auto simp: linkFree_def ix'_def linkNext_update)
  qed
  show "linkStep H {l. unat (linkNext ix) < unat l} ix ix'"
    using un [of n] by (auto simp: linkStep_def ix'_def linkNext_update)
qed

lemma chooseFrom_inv:
  assumes wf: "wf_index ix" and b: "inBin ix b" and h: "hdr ix b = h \<Longrightarrow> h' = h"
  shows "chooseInv ix b h (chooseFrom h' (lmeta ix b))" "heldLinks (chooseFrom h' (lmeta ix b)) = {}"
proof -
  have lw: "linkAt ix b 1 \<noteq> 0 \<Longrightarrow> linkAt ix b 0 \<noteq> 0 \<and> linkAt ix b 2 \<noteq> 0" and sw: "states_wf ix"
    using wf b by (auto simp: wf_index_def links_wf_def)
  have fr: "freeSlot ix b h j" if "\<not> stHi h' j" "\<not> stLo h' j" for j
    using that h by (auto simp: freeSlot_def isInvalid_def)
  have un: "freeSlot ix b h j" if "slotRef ix b j = None" "j < 15" for j
    using sw b that by (auto simp: freeSlot_def states_wf_def)
  have pick: "\<exists>j<15. int base + lowestSlot (invalidMask4 h' base) = int j \<and> freeSlot ix b h j \<and> slotRef ix b j \<noteq> None"
    if base: "base = 3 \<or> base = 7 \<or> base = 11" "invalidMask4 h' base \<noteq> 0" "linkAt ix b ((base - 3) div 4) \<noteq> 0" for base
  proof -
    obtain j where j: "base \<le> j" "j < base + 4" "int base + lowestSlot (invalidMask4 h' base) = int j"
      "\<not> stHi h' j" "\<not> stLo h' j" by (rule invalidMask4_lowest [OF base(1,2)])
    have "(j - 3) div 4 = (base - 3) div 4" "3 \<le> j" "j < 15" using j(1,2) base(1) by auto
    then show ?thesis using j fr base(3) b by (intro exI [of _ j]) (simp add: slotRef_alt)
  qed
  note picks = pick [of 3] pick [of 7] pick [of 11]
  show "chooseInv ix b h (chooseFrom h' (lmeta ix b))"
    using picks lw un [of 3] un [of 7] b
    by (auto simp: chooseFrom_def Let_def linkAt_simps slotRef_alt split: if_splits)
  show "heldLinks (chooseFrom h' (lmeta ix b)) = {}"
    by (simp add: chooseFrom_def Let_def)
qed

text \<open>One access: it never faults; unless the bin is full, everything is kept.\<close>

lemma chooseStep_ok:
  assumes wf: "wf_index ix" and al: "alloc_ok ix" and b: "inBin ix b" and inv: "chooseInv ix b h cp"
    and run: "\<And>i. cp \<noteq> Chosen i"
  obtains cp' ix' where "chooseStep b cp ix = Some (cp', ix')"
    "cp' = Chosen (-1) \<or> links_extend ix ix' \<and> wf_index ix' \<and> alloc_ok ix' \<and> chooseInv ix' b h cp' \<and>
       linkStep (heldLinks cp) (heldLinks cp') ix ix'"
proof -
  have lm: "LinkMeta (bins ix ! unat b) = lmeta ix b" by (simp add: lmeta_def)
  show ?thesis
  proof (cases cp)
    case ChooseHeader
    show ?thesis
    proof (cases "invalidMask3 (hdr ix b) = 0")
      case False
      then obtain j where "j < 3" "lowestSlot (invalidMask3 (hdr ix b)) = int j" "\<not> stHi (hdr ix b) j" "\<not> stLo (hdr ix b) j"
        by (rule invalidMask3_lowest)
      then show ?thesis
        using False wf al b
        by (intro that [of "Chosen (int j)" ix])
          (auto simp: ChooseHeader load_header freeSlot_def isInvalid_def slotRef_primary linkStep_same)
    qed (use wf al b in \<open>auto intro!: that simp: ChooseHeader load_header linkStep_same\<close>)
  next
    case (ChooseLinks h')
    show ?thesis
      using inv chooseFrom_inv [OF wf b, of h h'] wf al b lm
      by (intro that [of "chooseFrom h' (lmeta ix b)" ix]) (auto simp: ChooseLinks linkStep_same)
  next
    case AllocLink
    let ?ix = "ix\<lparr>linkNext := linkNext ix + 1\<rparr>"
    show ?thesis
    proof (cases "linkNext ix + 1 > linkCapacity ix")
      case False
      note a = allocate_ok [OF wf al disjI1 [OF refl] False]
      have "linkFree ?ix (linkNext ix + 1) \<and> unat (linkNext ix) < unat (linkNext ix + 1)" using a(5) by blast
      then show ?thesis
        using a(1-3) a(6) [of "{}"] inv False
        by (intro that [of "AttachLoad False (linkNext ix + 1)" ?ix])
          (auto simp: AllocLink allocateLink_def Let_def attaching_def attachSlot_def linkFree_def freeSlot_def
            isInvalid_def linkNext_update linkStep_def)
    qed (use that [of "Chosen (-1)" ?ix] in \<open>simp add: AllocLink allocateLink_def Let_def\<close>)
  next
    case AllocPair
    let ?l = "linkNext ix + 1" and ?ix = "ix\<lparr>linkNext := linkNext ix + 2\<rparr>"
    have eq: "linkNext ix + 2 - 1 = ?l" "?l + 1 = linkNext ix + 2" by simp_all
    show ?thesis
    proof (cases "linkNext ix + 2 > linkCapacity ix")
      case False
      note a = allocate_ok [OF wf al disjI2 [OF refl] False]
      have "linkFree ?ix ?l \<and> unat (linkNext ix) < unat ?l"
        "linkFree ?ix (?l + 1) \<and> unat (linkNext ix) < unat (?l + 1)" using a(5) eq(2) by blast+
      then show ?thesis
        using a(1-4) a(6) [of "{}"] inv False
        by (intro that [of "AttachLoad True ?l" ?ix])
          (auto simp: AllocPair allocateLinkPair_def Let_def attaching_def attachSlot_def linkFree_def freeSlot_def
            isInvalid_def linkNext_update linkStep_def eq)
    qed (use that [of "Chosen (-1)" ?ix] in \<open>simp add: AllocPair allocateLinkPair_def Let_def eq\<close>)
  next
    case (AttachLoad pair l)
    have "slotRef ix b (nat (attachSlot pair)) \<noteq> None" if "attachedIn pair (lmeta ix b) \<noteq> 0"
      using that b by (auto simp: attachSlot_def attachedIn_def slotRef_alt linkAt_simps)
    then show ?thesis
      using inv wf al b lm
      by (intro that [of "if attachedIn pair (lmeta ix b) \<noteq> 0 then Chosen (attachSlot pair) else AttachSwap pair l (lmeta ix b)" ix])
        (auto simp: AttachLoad Let_def attaching_def linkStep_same attachSlot_def intro!: exI [of _ 3] exI [of _ 7])
  next
    case (AttachSwap pair l cur)
    show ?thesis
    proof (cases "lmeta ix b = cur")
      case True
      obtain ix' where a: "storeLinkMeta ix b (attachIn pair (lmeta ix b) l) = Some ix'" "links_extend ix ix'"
        "wf_index ix'" "alloc_ok ix'" "linkStep (heldLinks (AttachLoad pair l)) {} ix ix'"
        "slotRef ix' b (nat (attachSlot pair)) \<noteq> None"
        by (rule attach_store [OF wf al b, of pair l]) (use inv True in \<open>auto simp: AttachSwap attaching_def\<close>)
      have "freeSlot ix' b h (nat (attachSlot pair))"
        using inv a(2) by (auto simp: AttachSwap attaching_def freeSlot_def isInvalid_def links_extend_def)
      then show ?thesis
        using a True b lm
        by (intro that [of "Chosen (attachSlot pair)" ix'])
          (auto simp: AttachSwap atomicCASLinkMeta_def attachSlot_def)
    next
      case False
      then show ?thesis
        using inv wf al b lm
        by (intro that [of "AttachLoad pair l" ix]) (auto simp: AttachSwap atomicCASLinkMeta_def linkStep_same)
    qed
  qed (use run in simp)
qed

end
