(* ===== verification/Interleave.thy ===== *)
theory Interleave
  imports AllocMap ChooseSteps
begin

text \<open>
  Goroutines on one table of the allocator package, one shared access at a time. \<open>pc\<close> is where
  a call is in get.go, put.go, delete.go or insert.go, \<open>exec\<close> its next access to the shared
  memory, and \<open>step\<close> lets any goroutine that is in a call make its access, or start a new
  call. Covered are all loads and stores of headers, hash words, entry pointers and link
  descriptors by the four operations between two resizes, with the attaching of link buckets:
  the model ends when a call finds no free slot and would trigger a resize (\<open>Grow\<close>).
\<close>

section \<open>Program counters\<close>

text \<open>
  A search reads the hash words of a bucket (\<open>Keys\<close>: slots still to read, slots that matched, buckets still to
  search once the link descriptor is loaded), then the entries of the slots that matched
  (\<open>Vals\<close>). \<open>own\<close> is the reserved slot of an \<open>Insert\<close> that searches again.
\<close>

datatype ('k, 'b) pc =
    Idle
  | Load0
  | Keys "64 word" segment segment "segment list option" "nat option"
  | Vals "64 word" segment "segment list option" "nat option"
  | LoadLinks "64 word" "nat option"
  | Again "64 word" "(nat \<times> SlotRef \<times> ('k, 'b) Entry) option" "nat option"
  | Choose "64 word"
  | Choosing "64 word" chooser
  | Reserve "64 word" nat
  | SlotPtr "64 word" nat
  | WriteKey "64 word" nat SlotRef
  | WriteVal "64 word" nat SlotRef
  | Finalize "64 word" nat
  | Load2 nat
  | Unreserve nat "('b \<times> bool) option"
  | UnreserveVal "64 word" nat "('b \<times> bool) option"
  | UnreserveCAS "64 word" nat "('b \<times> bool) option"
  | Swap nat SlotRef "('k, 'b) Entry"
  | Mark nat "'b \<times> bool"
  | LoopHeader nat SlotRef
  | LoopKey "64 word" nat SlotRef
  | LoopVal "64 word" nat SlotRef
  | LoopCheck "64 word" nat SlotRef "('k, 'b) Entry"
  | LoopAgain "64 word" nat SlotRef "('k, 'b) Entry"
  | Done "'b \<times> bool"
  | Grow

text \<open>Where a call goes after its search: nothing found, and header unchanged or not.\<close>

fun afterMiss :: "('k, 'b) call \<Rightarrow> 64 word \<Rightarrow> nat option \<Rightarrow> ('k, 'b) pc" where
  "afterMiss (CallInsert k v) h None = Choose h"
| "afterMiss (CallInsert k v) h (Some i) = Finalize h i"
| "afterMiss c h own = Again h None own"

fun afterMatch ::
  "'b \<Rightarrow> ('k, 'b) call \<Rightarrow> (nat \<times> SlotRef \<times> ('k, 'b) Entry) option \<Rightarrow> nat option \<Rightarrow> ('k, 'b) pc" where
  "afterMatch zv (CallInsert k v) (Some (i, r, e)) None = Done (entryValue e, False)"
| "afterMatch zv (CallInsert k v) (Some (i, r, e)) (Some j) = Unreserve j (Some (entryValue e, False))"
| "afterMatch zv (CallInsert k v) None own = Load0"
| "afterMatch zv (CallGet k) (Some (i, r, e)) own = Done (entryValue e, True)"
| "afterMatch zv (CallPut k v) (Some (i, r, e)) own = Swap i r e"
| "afterMatch zv (CallDelete k) (Some (i, r, e)) own = Swap i r e"
| "afterMatch zv c None own = Done (zv, False)"

definition afterMismatch :: "nat option \<Rightarrow> ('k, 'b) pc" where
  "afterMismatch own = (case own of None \<Rightarrow> Load0 | Some i \<Rightarrow> Load2 i)"

text \<open>The end of \<open>unreserveSlot\<close>: its caller returns, or goes to \<open>retry\<close>.\<close>

definition afterUnreserve :: "('b \<times> bool) option \<Rightarrow> ('k, 'b) pc" where
  "afterUnreserve r = (case r of None \<Rightarrow> Load0 | Some res \<Rightarrow> Done res)"

text \<open>What \<open>Put\<close> and \<open>Delete\<close> swap in, and where they go then.\<close>

fun swapIn :: "nat \<Rightarrow> ('k, 'b) call \<Rightarrow> ('k, 'b) EntryPtr" where
  "swapIn p (CallPut k v) = newEntry p k v"
| "swapIn p c = None"

fun afterSwap :: "('k, 'b) call \<Rightarrow> nat \<Rightarrow> ('k, 'b) Entry \<Rightarrow> ('k, 'b) pc" where
  "afterSwap (CallDelete k) i e = Mark i (entryValue e, True)"
| "afterSwap c i e = Done (entryValue e, True)"

fun insertValue :: "nat \<Rightarrow> ('k, 'b) call \<Rightarrow> ('k, 'b) EntryPtr" where
  "insertValue p (CallInsert k v) = newEntry p k v"
| "insertValue p c = None"

section \<open>One access\<close>

text \<open>
  \<open>k\<close>, \<open>h0\<close> and \<open>b\<close> are the key of the call, its hash and its bin; \<open>p\<close> is the address of the
  entry the call allocates. \<open>None\<close> is a fault, or a call that is not running.
\<close>

fun exec ::
  "('k \<Rightarrow> 64 word) \<Rightarrow> 'b \<Rightarrow> ('k, 'b) call \<Rightarrow> nat \<Rightarrow> ('k, 'b) pc \<Rightarrow> ('k, 'b) EntryPtr index \<Rightarrow>
     (('k, 'b) pc \<times> ('k, 'b) EntryPtr index) option" where
  "exec hash zv c p Load0 ix =
     (let b = binOf ix (hash (keyOf c)) in do {
        h \<leftarrow> atomicLoadHeader ix b;
        Some (if getBinState h \<noteq> BinNoTransfer then Load0
              else Keys h (primarySegment b) [] None None, ix) })"
| "exec hash zv c p (Load2 i) ix =
     (let b = binOf ix (hash (keyOf c)) in do {
        h \<leftarrow> atomicLoadHeader ix b;
        Some (if getBinState h \<noteq> BinNoTransfer then Unreserve i None
              else Keys h (primarySegment b) [] None (Some i), ix) })"
| "exec hash zv c p (Keys h ((i, r) # todo) hits rest own) ix = do {
     w \<leftarrow> loadSlotKey ix r;
     Some (Keys h todo (if w = hash (keyOf c) \<and> stHi h i then hits @ [(i, r)] else hits) rest own, ix) }"
| "exec hash zv c p (Keys h [] hits rest own) ix = Some (Vals h hits rest own, ix)"
| "exec hash zv c p (Vals h ((i, r) # hits) rest own) ix = do {
     v \<leftarrow> atomicLoadSlotVal ix r;
     Some (case candidateFor (keyOf c) v of
             Some e \<Rightarrow> Again h (Some (i, r, e)) own
           | None \<Rightarrow> Vals h hits rest own, ix) }"
| "exec hash zv c p (Vals h [] rest own) ix =
     Some (case rest of
             None \<Rightarrow> LoadLinks h own
           | Some [] \<Rightarrow> afterMiss c h own
           | Some (seg # segs) \<Rightarrow> Keys h seg [] (Some segs) own, ix)"
| "exec hash zv c p (LoadLinks h own) ix = do {
     pb \<leftarrow> getBin ix (hash (keyOf c));
     Some (Vals h [] (Some (linkSegmentsOf h (LinkMeta pb))) own, ix) }"
| "exec hash zv c p (Again h fnd own) ix = do {
     h1 \<leftarrow> atomicLoadHeader ix (binOf ix (hash (keyOf c)));
     Some (if h = h1 then afterMatch zv c fnd own else afterMismatch own, ix) }"
| "exec hash zv c p (Choose h) ix =
     Some (if invalidMask3 h \<noteq> 0 then Reserve h (nat (lowestSlot (invalidMask3 h)))
           else Choosing h ChooseHeader, ix)"
| "exec hash zv c p (Choosing h cp) ix = do {
     (cp', ix') \<leftarrow> chooseStep (binOf ix (hash (keyOf c))) cp ix;
     Some (case cp' of
             Chosen i \<Rightarrow> if i < 0 then (Grow, ix) else (Reserve h (nat i), ix')
           | _ \<Rightarrow> (Choosing h cp', ix')) }"
| "exec hash zv c p (Reserve h i) ix = do {
     let h1 = setSlotStateAndVersion h (int i) SlotTrying;
     (ok, ix') \<leftarrow> reserveSlot ix (binOf ix (hash (keyOf c))) h h1;
     Some (if ok then SlotPtr h1 i else Load0, ix') }"
| "exec hash zv c p (SlotPtr h i) ix = do {
     slot \<leftarrow> getSlotByIndex ix (binOf ix (hash (keyOf c))) (int i);
     Some (case slot of None \<Rightarrow> Unreserve i None | Some r \<Rightarrow> WriteKey h i r, ix) }"
| "exec hash zv c p (WriteKey h i r) ix = do {
     ix' \<leftarrow> storeSlotKey ix r (hash (keyOf c));
     Some (WriteVal h i r, ix') }"
| "exec hash zv c p (WriteVal h i r) ix = do {
     ix' \<leftarrow> atomicStoreSlotVal ix r (insertValue p c);
     Some (Finalize h i, ix') }"
| "exec hash zv c p (Finalize h i) ix = do {
     (ok, ix') \<leftarrow> finalizeSlot ix (binOf ix (hash (keyOf c))) h (int i);
     Some (if ok then Done (zv, True) else Load2 i, ix') }"
| "exec hash zv c p (Unreserve i res) ix = do {
     h \<leftarrow> atomicLoadHeader ix (binOf ix (hash (keyOf c)));
     Some (if getSlotState h (int i) \<noteq> SlotTrying \<or> getBinState h \<noteq> BinNoTransfer
           then afterUnreserve res else UnreserveVal h i res, ix) }"
| "exec hash zv c p (UnreserveVal h i res) ix = do {
     slot \<leftarrow> getSlotByIndex ix (binOf ix (hash (keyOf c))) (int i);
     ix' \<leftarrow> (case slot of None \<Rightarrow> Some ix | Some r \<Rightarrow> atomicStoreSlotVal ix r None);
     Some (UnreserveCAS h i res, ix') }"
| "exec hash zv c p (UnreserveCAS h i res) ix = do {
     (ok, ix') \<leftarrow> atomicCASHeader ix (binOf ix (hash (keyOf c))) h
                    (setSlotStateAndVersion h (int i) SlotInvalid);
     Some (if ok then afterUnreserve res else Unreserve i res, ix') }"
| "exec hash zv c p (Swap i r e) ix = do {
     (ok, ix') \<leftarrow> DWCAS samePtr ix r (hash (keyOf c)) (Some e) (hash (keyOf c)) (swapIn p c);
     Some (if ok then afterSwap c i e else LoopHeader i r, ix') }"
| "exec hash zv c p (Mark i res) ix = do {
     ix' \<leftarrow> markSlotInvalid ix (binOf ix (hash (keyOf c))) (int i);
     Some (Done res, ix') }"
| "exec hash zv c p (LoopHeader i r) ix = do {
     h \<leftarrow> atomicLoadHeader ix (binOf ix (hash (keyOf c)));
     Some (if getSlotState h (int i) \<noteq> SlotValid \<or>
              (case c of CallDelete _ \<Rightarrow> getBinState h \<noteq> BinNoTransfer | _ \<Rightarrow> False)
           then Load0 else LoopKey h i r, ix) }"
| "exec hash zv c p (LoopKey h i r) ix = do {
     w \<leftarrow> loadSlotKey ix r;
     Some (if w \<noteq> hash (keyOf c) then Load0 else LoopVal h i r, ix) }"
| "exec hash zv c p (LoopVal h i r) ix = do {
     v \<leftarrow> atomicLoadSlotVal ix r;
     Some (case candidateFor (keyOf c) v of None \<Rightarrow> Load0 | Some e \<Rightarrow> LoopCheck h i r e, ix) }"
| "exec hash zv c p (LoopCheck h i r e) ix = do {
     h1 \<leftarrow> atomicLoadHeader ix (binOf ix (hash (keyOf c)));
     Some (if h1 \<noteq> h then LoopHeader i r else LoopAgain h i r e, ix) }"
| "exec hash zv c p (LoopAgain h i r e) ix = do {
     v \<leftarrow> atomicLoadSlotVal ix r;
     Some (if \<not> samePtr v (Some e) then LoopHeader i r else Swap i r e, ix) }"
| "exec hash zv c p Idle ix = None"
| "exec hash zv c p (Done res) ix = None"
| "exec hash zv c p Grow ix = None"

section \<open>Interleaving\<close>

text \<open>
  A goroutine: its call, the address of the entry the call allocates, where it is. The rest of
  the state is memory; \<open>nextp\<close> is the next free address. The last three fields are not read
  by any step; they record what the properties speak of: the number of compare-and-swaps that
  changed each header, the values the key of each goroutine's call had from the start of the
  call to its return, and the answer of the call, once it has changed the map.
\<close>

record ('k, 'b) routine =
  doing :: "('k, 'b) call"
  ownAddr :: nat
  place :: "('k, 'b) pc"

record ('k, 'b) conc =
  mem :: "('k, 'b) EntryPtr index"
  gor :: "nat \<Rightarrow> ('k, 'b) routine"
  nextp :: nat
  writes :: "64 word \<Rightarrow> nat"
  seen :: "nat \<Rightarrow> 'b option set"
  effect :: "nat \<Rightarrow> ('b \<times> bool) option"

text \<open>Between the start of a call and its return.\<close>

definition inCall :: "('k, 'b) pc \<Rightarrow> bool" where
  "inCall q = (case q of Idle \<Rightarrow> False | Done _ \<Rightarrow> False | _ \<Rightarrow> True)"

text \<open>The contents of the table at this moment.\<close>

definition contents :: "('k \<Rightarrow> 64 word) \<Rightarrow> ('k, 'b) conc \<Rightarrow> 'k \<Rightarrow> 'b option" where
  "contents hash s = absMap entryContent hash (mem s)"

text \<open>The access that changes the map: a successful finalization, or a successful swap.\<close>

definition commits :: "('k, 'b) pc \<Rightarrow> ('k, 'b) pc \<Rightarrow> bool" where
  "commits q q' = (case q of
     Finalize _ _ \<Rightarrow> (case q' of Done _ \<Rightarrow> True | _ \<Rightarrow> False)
   | Swap _ _ _ \<Rightarrow> (case q' of Done _ \<Rightarrow> True | Mark _ _ \<Rightarrow> True | _ \<Rightarrow> False)
   | _ \<Rightarrow> False)"

text \<open>The answer a call has when it is through with its access to the map.\<close>

definition answerOf :: "('k, 'b) pc \<Rightarrow> ('b \<times> bool) option" where
  "answerOf q = (case q of Done res \<Rightarrow> Some res | Mark _ res \<Rightarrow> Some res | _ \<Rightarrow> None)"

definition begin_call ::
  "('k \<Rightarrow> 64 word) \<Rightarrow> nat \<Rightarrow> ('k, 'b) call \<Rightarrow> ('k, 'b) conc \<Rightarrow> ('k, 'b) conc" where
  "begin_call hash t c s =
     s\<lparr>gor := (gor s)(t := \<lparr>doing = c, ownAddr = nextp s, place = Load0\<rparr>), nextp := Suc (nextp s),
       seen := (seen s)(t := {contents hash s (keyOf c)}), effect := (effect s)(t := None)\<rparr>"

definition finish_access ::
  "('k \<Rightarrow> 64 word) \<Rightarrow> nat \<Rightarrow> ('k, 'b) pc \<Rightarrow> ('k, 'b) EntryPtr index \<Rightarrow> ('k, 'b) conc \<Rightarrow> ('k, 'b) conc" where
  "finish_access hash t q ix s =
     (let M = absMap entryContent hash ix
      in s\<lparr>mem := ix, gor := (gor s)(t := (gor s t)\<lparr>place := q\<rparr>),
           writes := countWrites (mem s) ix (writes s),
           seen := (\<lambda>u. if inCall (place (gor s u)) then insert (M (keyOf (doing (gor s u)))) (seen s u)
                         else seen s u),
           effect := (effect s)(t := if commits (place (gor s t)) q then answerOf q else effect s t)\<rparr>)"

definition access ::
  "('k \<Rightarrow> 64 word) \<Rightarrow> 'b \<Rightarrow> nat \<Rightarrow> ('k, 'b) conc \<Rightarrow> ('k, 'b) conc option" where
  "access hash zv t s = do {
     (q, ix) \<leftarrow> exec hash zv (doing (gor s t)) (ownAddr (gor s t)) (place (gor s t)) (mem s);
     Some (finish_access hash t q ix s) }"

text \<open>
  A step comes with the change of the map it makes: none, or the call of the goroutine and its
  answer. A call at \<open>Grow\<close> is about to replace the table; the model ends there, before the failed
  allocation of a link is recorded.
\<close>

type_synonym ('k, 'b) change = "('k, 'b) call \<times> 'b \<times> bool"

definition changeOf :: "nat \<Rightarrow> ('k, 'b) conc \<Rightarrow> ('k, 'b) conc \<Rightarrow> ('k, 'b) change list" where
  "changeOf t s s' =
     (if commits (place (gor s t)) (place (gor s' t))
      then [(doing (gor s t), the (answerOf (place (gor s' t))))] else [])"

inductive step ::
  "('k \<Rightarrow> 64 word) \<Rightarrow> 'b \<Rightarrow> ('k, 'b) conc \<Rightarrow> ('k, 'b) change list \<Rightarrow> ('k, 'b) conc \<Rightarrow> bool"
  for hash :: "'k \<Rightarrow> 64 word" and zv :: 'b where
  start_call: "\<forall>u. place (gor s u) \<noteq> Grow \<Longrightarrow> \<not> inCall (place (gor s t)) \<Longrightarrow>
    step hash zv s [] (begin_call hash t c s)"
| run: "\<forall>u. place (gor s u) \<noteq> Grow \<Longrightarrow> access hash zv t s = Some s' \<Longrightarrow>
    step hash zv s (changeOf t s s') s'"

text \<open>\<open>reachable hash zv s0 H s\<close>: some interleaving leads from \<open>s0\<close> to \<open>s\<close>, changing the map by \<open>H\<close>.\<close>

inductive reachable ::
  "('k \<Rightarrow> 64 word) \<Rightarrow> 'b \<Rightarrow> ('k, 'b) conc \<Rightarrow> ('k, 'b) change list \<Rightarrow> ('k, 'b) conc \<Rightarrow> bool"
  for hash :: "'k \<Rightarrow> 64 word" and zv :: 'b and s0 :: "('k, 'b) conc" where
  start: "reachable hash zv s0 [] s0"
| more: "reachable hash zv s0 H s \<Longrightarrow> step hash zv s e s' \<Longrightarrow> reachable hash zv s0 (H @ e) s'"

text \<open>No goroutine in a call, and a table between operations.\<close>

definition quiet :: "('k \<Rightarrow> 64 word) \<Rightarrow> ('k, 'b) conc \<Rightarrow> bool" where
  "quiet hash s \<longleftrightarrow> settled (mem s) \<and> entries_wf entryContent hash (entryOk hash) (mem s) \<and>
     (\<forall>t. place (gor s t) = Idle) \<and>
     (\<forall>b i x e. inBin (mem s) b \<and> i < 15 \<and> slotIn (mem s) b i = Some x \<and> Val x = Some e \<longrightarrow>
        isValid (mem s) b i \<and> entryAddr e < nextp s) \<and>
     (\<forall>r x. loadSlot (mem s) r = Some x \<and> Val x \<noteq> None \<longrightarrow>
        (\<exists>b i. inBin (mem s) b \<and> i < 15 \<and> slotRef (mem s) b i = Some r)) \<and>
     (\<forall>b. inBin (mem s) b \<longrightarrow> writes s b = unat (version (hdr (mem s) b)))"

end
