(* ===== verification/InterleaveMem.thy ===== *)
theory InterleaveMem
  imports Interleave
begin

text \<open>
  The memory of the interleaved model: its invariant \<open>memOk\<close>, the contents it stands for,
  and \<open>changes\<close>, what one access of one goroutine can do to it. Then one lemma for each kind
  of access.
\<close>

section \<open>Visible entries\<close>

definition slotEnt :: "('k, 'b) EntryPtr index \<Rightarrow> 64 word \<Rightarrow> nat \<Rightarrow> ('k, 'b) EntryPtr" where
  "slotEnt ix b i = (case slotIn ix b i of Some s \<Rightarrow> Val s | None \<Rightarrow> None)"

definition vis :: "('k, 'b) EntryPtr index \<Rightarrow> 64 word \<Rightarrow> nat \<Rightarrow> ('k, 'b) EntryPtr" where
  "vis ix b i = (if isValid ix b i then slotEnt ix b i else None)"

text \<open>
  \<open>memOk\<close>: a free slot and a link bucket no bin uses hold no entry, the entry of a valid slot
  lies in the bin and carries the hash word of its key, and no key is in two valid slots.
\<close>

definition memOk :: "('k \<Rightarrow> 64 word) \<Rightarrow> ('k, 'b) EntryPtr index \<Rightarrow> bool" where
  "memOk hash ix \<longleftrightarrow> wf_index ix \<and> alloc_ok ix \<and>
     (\<forall>b. inBin ix b \<longrightarrow> getBinState (hdr ix b) = BinNoTransfer) \<and>
     (\<forall>b i. inBin ix b \<and> i < 15 \<and> isInvalid ix b i \<longrightarrow> slotEnt ix b i = None) \<and>
     (\<forall>b i s e. inBin ix b \<and> i < 15 \<and> isValid ix b i \<and> slotIn ix b i = Some s \<and> Val s = Some e \<longrightarrow>
        Key s = hash (entryKey e) \<and> binOf ix (hash (entryKey e)) = b) \<and>
     (\<forall>b i j e e'. inBin ix b \<and> i < 15 \<and> j < 15 \<and> vis ix b i = Some e \<and> vis ix b j = Some e' \<and>
        entryKey e = entryKey e' \<longrightarrow> i = j) \<and>
     (\<forall>r s. loadSlot ix r = Some s \<and> Val s \<noteq> None \<longrightarrow>
        (\<exists>b i. inBin ix b \<and> i < 15 \<and> slotRef ix b i = Some r))"

lemma memOkD:
  assumes "memOk hash ix"
  shows "wf_index ix" "alloc_ok ix" "shape ix" "links_wf ix" "states_wf ix"
    "inBin ix b \<Longrightarrow> getBinState (hdr ix b) = 0"
    "inBin ix b \<Longrightarrow> i < 15 \<Longrightarrow> isInvalid ix b i \<Longrightarrow> slotEnt ix b i = None"
    "inBin ix b \<Longrightarrow> i < 15 \<Longrightarrow> isValid ix b i \<Longrightarrow> slotIn ix b i = Some s \<Longrightarrow> Val s = Some e \<Longrightarrow>
       Key s = hash (entryKey e) \<and> binOf ix (hash (entryKey e)) = b"
    "inBin ix b \<Longrightarrow> i < 15 \<Longrightarrow> j < 15 \<Longrightarrow> vis ix b i = Some e \<Longrightarrow> vis ix b j = Some e' \<Longrightarrow>
       entryKey e = entryKey e' \<Longrightarrow> i = j"
    "loadSlot ix r = Some s \<Longrightarrow> Val s \<noteq> None \<Longrightarrow> \<exists>b i. inBin ix b \<and> i < 15 \<and> slotRef ix b i = Some r"
  using assms unfolding memOk_def wf_index_def by (blast | simp)+

lemma vis_Some: "vis ix b i = Some e \<Longrightarrow> \<exists>s. slotIn ix b i = Some s \<and> Val s = Some e \<and> isValid ix b i"
  by (auto simp: vis_def slotEnt_def split: if_splits option.splits)

lemma slotEntry_vis:
  "slotEntry entryContent ix b i =
     (if i < 15 then map_option (\<lambda>e. (entryKey e, entryValue e)) (vis ix b i) else None)"
  by (auto simp: slotEntry_def view_def vis_def slotEnt_def entryContent_def split: option.splits)

lemma contents_vis:
  assumes "memOk hash ix"
  shows "absMap entryContent hash ix k = Some v \<longleftrightarrow>
    (\<exists>i<15. \<exists>e. vis ix (binOf ix (hash k)) i = Some e \<and> entryKey e = k \<and> entryValue e = v)"
proof -
  let ?b = "binOf ix (hash k)"
  have b: "inBin ix ?b" by (rule binOf_in [OF memOkD(3) [OF assms]])
  have "distinct (map fst (binEntries entryContent ix ?b))"
    unfolding binEntries_def
    by (rule distinct_map_filter) (auto simp: slotEntry_vis dest: memOkD(9) [OF assms b])
  then show ?thesis
    by (auto simp: absMap_def map_of_eq_Some_iff set_binEntries slotEntry_vis split: if_splits)
qed

lemma contents_None:
  assumes "memOk hash ix"
  shows "absMap entryContent hash ix k = None \<longleftrightarrow>
    (\<forall>i<15. \<forall>e. vis ix (binOf ix (hash k)) i = Some e \<longrightarrow> entryKey e \<noteq> k)"
  using contents_vis [OF assms, of k] by (metis not_None_eq)

text \<open>How the contents change with one slot.\<close>

lemma contents_same:
  assumes "memOk hash ix" "memOk hash ix'" "same_geometry ix ix'"
    "\<And>b i. inBin ix b \<Longrightarrow> i < 15 \<Longrightarrow> vis ix' b i = vis ix b i"
  shows "absMap entryContent hash ix' = absMap entryContent hash ix"
proof
  fix k
  have b: "inBin ix (binOf ix (hash k))" by (rule binOf_in [OF memOkD(3) [OF assms(1)]])
  have "absMap entryContent hash ix' k = Some v \<longleftrightarrow> absMap entryContent hash ix k = Some v" for v
    unfolding contents_vis [OF assms(1)] contents_vis [OF assms(2)] same_geometry_binOf [OF assms(3)]
    using assms(4) [OF b] by metis
  then show "absMap entryContent hash ix' k = absMap entryContent hash ix k" by (metis not_None_eq)
qed

lemma contents_update:
  assumes ok: "memOk hash ix" "memOk hash ix'" "same_geometry ix ix'"
    and i: "i < 15" "b = binOf ix (hash k)"
    and other: "\<And>b' j. inBin ix b' \<Longrightarrow> j < 15 \<Longrightarrow> (b', j) \<noteq> (b, i) \<Longrightarrow> vis ix' b' j = vis ix b' j"
    and old: "vis ix b i = None \<and> absMap entryContent hash ix k = None \<or>
      (\<exists>e. vis ix b i = Some e \<and> entryKey e = k)"
    and new: "\<And>e. vis ix' b i = Some e \<Longrightarrow> entryKey e = k"
  shows "absMap entryContent hash ix' =
    (absMap entryContent hash ix)(k := map_option entryValue (vis ix' b i))"
proof
  fix k'
  have sg: "binOf ix' h = binOf ix h" for h using same_geometry_binOf [OF ok(3)] .
  have b: "inBin ix (binOf ix (hash k'))" for k' by (rule binOf_in [OF memOkD(3) [OF ok(1)]])
  have only: "j = i" if "j < 15" "vis ix b j = Some e" "entryKey e = k" for j e
    using old
  proof
    assume "vis ix b i = None \<and> absMap entryContent hash ix k = None"
    then show ?thesis using that contents_None [OF ok(1), of k] i(2) by auto
  next
    assume "\<exists>e. vis ix b i = Some e \<and> entryKey e = k"
    then obtain e0 where "vis ix b i = Some e0" "entryKey e0 = k" by blast
    then show ?thesis using memOkD(9) [OF ok(1) _ that(1) i(1) that(2), of e0] that(3) b [of k] i(2) by simp
  qed
  have "absMap entryContent hash ix' k' = Some v \<longleftrightarrow>
      ((absMap entryContent hash ix)(k := map_option entryValue (vis ix' b i))) k' = Some v" for v
  proof (cases "k' = k")
    case True
    have "j = i" if "j < 15" "vis ix' b j = Some e" "entryKey e = k" for j e
    proof (rule ccontr)
      assume "j \<noteq> i"
      then have "vis ix b j = Some e" using that(1,2) other [of b j] b [of k] i(2) by simp
      then show False using only [OF that(1) _ that(3)] \<open>j \<noteq> i\<close> by simp
    qed
    then have "(\<exists>j<15. \<exists>e. vis ix' b j = Some e \<and> entryKey e = k \<and> entryValue e = v) \<longleftrightarrow>
        (\<exists>e. vis ix' b i = Some e \<and> entryValue e = v)"
      using new i(1) by metis
    then show ?thesis
      unfolding contents_vis [OF ok(2)] sg True by (simp add: i(2) [symmetric])
  next
    case False
    have "(\<exists>e. vis ix' (binOf ix (hash k')) j = Some e \<and> entryKey e = k' \<and> entryValue e = v) \<longleftrightarrow>
        (\<exists>e. vis ix (binOf ix (hash k')) j = Some e \<and> entryKey e = k' \<and> entryValue e = v)" if "j < 15" for j
    proof (cases "(binOf ix (hash k'), j) = (b, i)")
      case True
      then have eq: "binOf ix (hash k') = b" "j = i" by simp_all
      have "\<And>e. vis ix b i = Some e \<Longrightarrow> entryKey e = k" using old by auto
      then show ?thesis using new \<open>k' \<noteq> k\<close> unfolding eq by blast
    qed (use other [OF b that] in simp)
    then show ?thesis
      using False unfolding contents_vis [OF ok(2)] sg by (simp add: contents_vis [OF ok(1)]) blast
  qed
  then show "absMap entryContent hash ix' k' =
      ((absMap entryContent hash ix)(k := map_option entryValue (vis ix' b i))) k'"
    by (metis not_None_eq)
qed

section \<open>What one access changes\<close>

text \<open>
  \<open>changes T p ix ix'\<close>: one access by a goroutine whose entry has address \<open>p\<close>. At most slot
  \<open>T\<close> is written. An entry that appears in it has address \<open>p\<close>; while the slot is valid its
  entry can only be replaced by one of the same key, or cleared, and the slot stays valid as
  long as it holds one.
\<close>

definition changes ::
  "(64 word \<times> nat) option \<Rightarrow> nat \<Rightarrow> ('k, 'b) EntryPtr index \<Rightarrow> ('k, 'b) EntryPtr index \<Rightarrow> bool" where
  "changes T p ix ix' \<longleftrightarrow> same_geometry ix ix' \<and>
     (\<forall>b i r. slotRef ix b i = Some r \<longrightarrow> slotRef ix' b i = Some r) \<and>
     (\<forall>b. inBin ix b \<longrightarrow> headerStep (hdr ix b) (hdr ix' b)) \<and>
     (\<forall>b i. inBin ix b \<and> i < 15 \<and> T \<noteq> Some (b, i) \<longrightarrow>
        slotEnt ix' b i = slotEnt ix b i \<and> stHi (hdr ix' b) i = stHi (hdr ix b) i \<and>
        stLo (hdr ix' b) i = stLo (hdr ix b) i \<and>
        (slotRef ix b i \<noteq> None \<longrightarrow> slotIn ix' b i = slotIn ix b i)) \<and>
     (\<forall>b i. inBin ix b \<and> i < 15 \<and> T = Some (b, i) \<longrightarrow>
        (\<forall>e. slotEnt ix' b i = Some e \<longrightarrow> slotEnt ix b i = Some e \<or> entryAddr e = p) \<and>
        (isValid ix b i \<longrightarrow> (slotEnt ix b i \<noteq> None \<longrightarrow> isValid ix' b i) \<and>
           (\<forall>e'. slotEnt ix' b i = Some e' \<longrightarrow> (\<exists>e. slotEnt ix b i = Some e \<and> entryKey e' = entryKey e))))"

lemma changes_refl [simp]: "changes T p ix ix"
  by (auto simp: changes_def headerStep_def)

text \<open>A write to one slot, and to the state of one slot.\<close>

lemma changes_slot:
  assumes ok: "memOk hash ix" and b: "inBin ix b" "i < 15" "slotRef ix b i = Some r"
    and st: "storeSlot ix r x = Some ix'"
    and new: "\<And>e. Val x = Some e \<Longrightarrow> slotEnt ix b i = Some e \<or> entryAddr e = p"
    and val: "isValid ix b i \<Longrightarrow> Val x = None \<or>
      (\<exists>e e'. slotEnt ix b i = Some e \<and> Val x = Some e' \<and> entryKey e' = entryKey e \<and> Key x = hash (entryKey e))"
    and inv: "\<not> isInvalid ix b i"
  shows "memOk hash ix'" "changes (Some (b, i)) p ix ix'" "same_geometry ix ix'" "hdr ix' = hdr ix"
    "slotRef ix' = slotRef ix"
    "\<And>b' j. inBin ix b' \<Longrightarrow> j < 15 \<Longrightarrow> slotIn ix' b' j = (if b' = b \<and> j = i then Some x else slotIn ix b' j)"
    "H' \<subseteq> H \<Longrightarrow> linkStep H H' ix ix'"
proof -
  note wf = memOkD(1,2) [OF ok]
  obtain ix1 where a: "storeSlot ix r x = Some ix1" "same_frame ix ix1" "hdr ix1 = hdr ix"
    "lmeta ix1 = lmeta ix" "slotRef ix1 = slotRef ix" "wf_index ix1"
    "\<And>b' j. inBin ix b' \<Longrightarrow> j < 15 \<Longrightarrow> slotIn ix1 b' j = (if b' = b \<and> j = i then Some x else slotIn ix b' j)"
    using storeSlotAt_effect [OF wf(1) b] by metis
  have eq: "ix1 = ix'" using a(1) st by simp
  note a = a [unfolded eq]
  show "H' \<subseteq> H \<Longrightarrow> linkStep H H' ix ix'" using a(2,4) by (simp add: linkStep_same same_frame_def)
  show "same_geometry ix ix'" using a(2) by (rule same_frame_geometry)
  note sg = this
  show "hdr ix' = hdr ix" "slotRef ix' = slotRef ix" by (rule a(3), rule a(5))
  show si: "slotIn ix' b' j = (if b' = b \<and> j = i then Some x else slotIn ix b' j)"
    if "inBin ix b'" "j < 15" for b' j using a(7) [OF that] .
  have inb: "inBin ix' b' = inBin ix b'" "binOf ix' h = binOf ix h" for b' h
    using same_geometry_inBin [OF sg] same_geometry_binOf [OF sg] by auto
  have se: "slotEnt ix' b' j = (if b' = b \<and> j = i then Val x else slotEnt ix b' j)"
    if "inBin ix b'" "j < 15" for b' j using si [OF that] by (simp add: slotEnt_def)
  have v: "isValid ix' = isValid ix" "isInvalid ix' = isInvalid ix"
    by (rule isValid_frame [OF a(3)], rule isInvalid_frame [OF a(3)])
  have vi: "vis ix' b' j = (if b' = b \<and> j = i \<and> isValid ix b i then Val x else vis ix b' j)"
    if "inBin ix b'" "j < 15" for b' j using se [OF that] by (auto simp: vis_def v)
  obtain s0 where "loadSlot ix r = Some s0"
    using slotRef_load [OF memOkD(3,4) [OF ok] b] by blast
  then obtain ix2 where "storeSlot ix r x = Some ix2"
    "\<And>r'. loadSlot ix2 r' = (if r' = r then Some x else loadSlot ix r')"
    using storeSlot_effect by metis
  then have ld: "loadSlot ix' r' = (if r' = r then Some x else loadSlot ix r')" for r' using st by simp
  show "changes (Some (b, i)) p ix ix'"
    unfolding changes_def using sg a(3,5) se si new val
    by (auto simp: headerStep_def v)
  have "alloc_ok ix'"
    using wf(2) a(2,4) unfolding alloc_ok_def same_frame_def linkAt_def inb by (simp add: same_geometry_def)
  moreover have "slotEnt ix' b' j = None" if "inBin ix b'" "j < 15" "isInvalid ix b' j" for b' j
    using se [OF that(1,2)] memOkD(7) [OF ok that] inv that(3) by auto
  moreover have "Key s = hash (entryKey e) \<and> binOf ix (hash (entryKey e)) = b'"
    if v': "inBin ix b'" "j < 15" "isValid ix b' j" "slotIn ix' b' j = Some s" "Val s = Some e" for b' j s e
  proof (cases "b' = b \<and> j = i")
    case True
    then obtain e0 where "slotEnt ix b i = Some e0" "entryKey e = entryKey e0" "Key x = hash (entryKey e0)" "s = x"
      using v' si [OF v'(1,2)] val by auto
    then show ?thesis
      using memOkD(8) [OF ok b(1,2), of _ e0] v'(3) True
      by (auto simp: slotEnt_def split: option.splits)
  next
    case False
    then show ?thesis using memOkD(8) [OF ok that(1-3), of s e] that(4,5) si [OF that(1,2)] by auto
  qed
  moreover have "j = l" if "inBin ix b'" "j < 15" "l < 15" "vis ix' b' j = Some e" "vis ix' b' l = Some e'"
    "entryKey e = entryKey e'" for b' j l e e'
  proof -
    have "\<exists>e0. vis ix b' j = Some e0 \<and> entryKey e0 = entryKey e" if "j < 15" "vis ix' b' j = Some e" for j e
      using vi [OF \<open>inBin ix b'\<close> that(1)] that(2) val by (auto simp: vis_def split: if_splits)
    from this [OF that(2,4)] this [OF that(3,5)] show ?thesis
      using memOkD(9) [OF ok that(1-3)] that(6) by metis
  qed
  moreover have "\<exists>b' j. inBin ix b' \<and> j < 15 \<and> slotRef ix b' j = Some r'"
    if "loadSlot ix' r' = Some s" "Val s \<noteq> None" for r' s
    using that b memOkD(10) [OF ok] by (cases "r' = r") (auto simp: ld)
  ultimately show "memOk hash ix'"
    unfolding memOk_def inb a(3,5) v using a(6) memOkD(6) [OF ok] by simp blast
qed

text \<open>A write to the state of one slot.\<close>

lemma changes_state:
  assumes ok: "memOk hash ix" and b: "inBin ix b" "i < 15" "slotRef ix b i \<noteq> None"
    and st: "storeHeader ix b h' = Some ix'" and hs: "headerStep (hdr ix b) h'"
    and bits: "\<And>j. j < 15 \<Longrightarrow> stHi h' j = (if j = i then hi else stHi (hdr ix b) j)"
      "\<And>j. j < 15 \<Longrightarrow> stLo h' j = (if j = i then lo else stLo (hdr ix b) j)"
      "getBinState h' = getBinState (hdr ix b)" "\<not> (hi \<and> lo)"
    and free: "\<not> hi \<Longrightarrow> \<not> lo \<Longrightarrow> slotEnt ix b i = None"
    and val: "\<And>s e. hi \<Longrightarrow> slotIn ix b i = Some s \<Longrightarrow> Val s = Some e \<Longrightarrow>
      Key s = hash (entryKey e) \<and> binOf ix (hash (entryKey e)) = b \<and>
      (\<forall>j<15. \<forall>e'. j \<noteq> i \<and> vis ix b j = Some e' \<longrightarrow> entryKey e' \<noteq> entryKey e)"
    and stay: "isValid ix b i \<Longrightarrow> hi \<or> slotEnt ix b i = None"
  shows "memOk hash ix'" "changes (Some (b, i)) p ix ix'" "same_geometry ix ix'" "hdr ix' b = h'"
    "slotRef ix' = slotRef ix" "slotIn ix' = slotIn ix"
    "\<And>b' j. j < 15 \<Longrightarrow> vis ix' b' j = (if b' = b \<and> j = i then if hi then slotEnt ix b i else None else vis ix b' j)"
    "H' \<subseteq> H \<Longrightarrow> linkStep H H' ix ix'"
proof -
  note wf = memOkD(1,2) [OF ok]
  obtain ix1 where a: "storeHeader ix b h' = Some ix1" "same_frame ix ix1" "lmeta ix1 = lmeta ix"
    "slotRef ix1 = slotRef ix" "slotIn ix1 = slotIn ix" "\<And>r. loadSlot ix1 r = loadSlot ix r"
    "\<And>b'. hdr ix1 b' = (if b' = b then h' else hdr ix b')" "wf_index ix1"
    "\<And>b'. getBinState (hdr ix1 b') = getBinState (hdr ix b')"
    using writeState_effect [OF wf(1) b(1,2) b(3) bits(4,1-3)] by metis
  have eq: "ix1 = ix'" using a(1) st by simp
  note a = a [unfolded eq]
  show "H' \<subseteq> H \<Longrightarrow> linkStep H H' ix ix'" using a(2,3) by (simp add: linkStep_same same_frame_def)
  show sg: "same_geometry ix ix'" using a(2) by (rule same_frame_geometry)
  show "hdr ix' b = h'" "slotRef ix' = slotRef ix" "slotIn ix' = slotIn ix" by (simp_all add: a)
  have inb: "inBin ix' b' = inBin ix b'" "binOf ix' h = binOf ix h" for b' h
    using same_geometry_inBin [OF sg] same_geometry_binOf [OF sg] by auto
  have se: "slotEnt ix' = slotEnt ix" by (simp add: slotEnt_def [abs_def] a(5))
  have s: "stHi (hdr ix' b') j = (if b' = b \<and> j = i then hi else stHi (hdr ix b') j)"
    "stLo (hdr ix' b') j = (if b' = b \<and> j = i then lo else stLo (hdr ix b') j)" if "j < 15" for b' j
    using that by (auto simp: a(7) bits)
  have v: "isValid ix' b' j = (if b' = b \<and> j = i then hi else isValid ix b' j)"
    "isInvalid ix' b' j = (if b' = b \<and> j = i then \<not> hi \<and> \<not> lo else isInvalid ix b' j)" if "j < 15" for b' j
    using bits(4) by (auto simp: isValid_def isInvalid_def s [OF that])
  show vi: "vis ix' b' j = (if b' = b \<and> j = i then if hi then slotEnt ix b i else None else vis ix b' j)"
    if "j < 15" for b' j using v(1) [OF that] by (auto simp: vis_def se)
  have "\<forall>b'. inBin ix b' \<longrightarrow> headerStep (hdr ix b') (hdr ix' b')" using hs by (simp add: a(7) headerStep_def)
  then show "changes (Some (b, i)) p ix ix'"
    unfolding changes_def using sg s v stay by (auto simp: a(4,5) se)
  have "alloc_ok ix'"
    using wf(2) a(2,3) unfolding alloc_ok_def same_frame_def linkAt_def inb by (simp add: same_geometry_def)
  moreover have "slotEnt ix b' j = None" if "inBin ix b'" "j < 15" "isInvalid ix' b' j" for b' j
    using memOkD(7) [OF ok that(1,2)] free that(3) v(2) [OF that(2)] by (auto split: if_splits)
  moreover have "Key s = hash (entryKey e) \<and> binOf ix (hash (entryKey e)) = b'"
    if "inBin ix b'" "j < 15" "isValid ix' b' j" "slotIn ix b' j = Some s" "Val s = Some e" for b' j s e
    using memOkD(8) [OF ok that(1,2) _ that(4,5)] val [of s e] that v(1) [OF that(2)] by (auto split: if_splits)
  moreover have "j = l" if "inBin ix b'" "j < 15" "l < 15" "vis ix' b' j = Some e" "vis ix' b' l = Some e'"
    "entryKey e = entryKey e'" for b' j l e e'
  proof (cases "b' = b \<and> (j = i \<or> l = i) \<and> j \<noteq> l")
    case True
    have "False" if h: "hi" "slotEnt ix b i = Some e1" "l1 < 15" "l1 \<noteq> i" "vis ix b l1 = Some e2"
      "entryKey e1 = entryKey e2" for l1 e1 e2
    proof -
      obtain s where "slotIn ix b i = Some s" "Val s = Some e1"
        using h(2) by (auto simp: slotEnt_def split: option.splits)
      then show False using val [OF h(1)] h(3-) by metis
    qed
    from this [of e l e'] this [of e' j e] show ?thesis
      using True that vi [OF that(2), of b] vi [OF that(3), of b] by (auto split: if_splits)
  next
    case False
    then show ?thesis
      using that vi [OF that(2), of b'] vi [OF that(3), of b'] memOkD(9) [OF ok that(1-3)] by (auto split: if_splits)
  qed
  ultimately show "memOk hash ix'"
    unfolding memOk_def inb se a(4,5) using a(6,8,9) memOkD(6,10) [OF ok] by simp blast
qed

text \<open>Attaching link buckets.\<close>

lemma changes_links:
  assumes ok: "memOk hash ix" and ext: "links_extend ix ix'" and wf: "wf_index ix'" "alloc_ok ix'"
  shows "memOk hash ix'" "changes None p ix ix'" "same_geometry ix ix'" "hdr ix' = hdr ix"
    "\<And>b i. inBin ix b \<Longrightarrow> i < 15 \<Longrightarrow> vis ix' b i = vis ix b i"
proof -
  show sg: "same_geometry ix ix'" and h: "hdr ix' = hdr ix" using ext by (simp_all add: links_extend_def)
  have ld: "loadSlot ix' = loadSlot ix" using ext by (simp add: links_extend_def)
  have inb: "inBin ix' b' = inBin ix b'" "binOf ix' h = binOf ix h" for b' h
    using same_geometry_inBin [OF sg] same_geometry_binOf [OF sg] by auto
  have sr: "slotRef ix' b i = Some r" if "slotRef ix b i = Some r" for b i r
    by (rule links_extend_slotRef [OF ext that])
  have si: "slotIn ix' b i = slotIn ix b i" if "slotRef ix b i \<noteq> None" for b i
    using that sr by (auto simp: slotIn_def ld)
  have se: "slotEnt ix' b i = slotEnt ix b i" if "inBin ix b" "i < 15" for b i
  proof (cases "slotRef ix b i")
    case None
    have "Val s = None" if l: "slotRef ix' b i = Some r" "loadSlot ix r = Some s" for r s
    proof (rule ccontr)
      assume "Val s \<noteq> None"
      then obtain b' j where bj: "inBin ix b'" "j < 15" "slotRef ix b' j = Some r"
        using memOkD(10) [OF ok l(2)] by blast
      have "b' = b \<and> j = i"
        by (rule slotRef_inj [of ix']) (use wf(1) bj sr [OF bj(3)] l(1) \<open>inBin ix b\<close> \<open>i < 15\<close> in \<open>auto simp: wf_index_def inb\<close>)
      then show False using bj(3) None by simp
    qed
    then show ?thesis
      using None by (cases "slotRef ix' b i") (auto simp: slotEnt_def slotIn_def ld split: option.splits)
  qed (use si in \<open>simp add: slotEnt_def\<close>)
  have v: "isValid ix' = isValid ix" "isInvalid ix' = isInvalid ix"
    by (rule isValid_frame [OF h], rule isInvalid_frame [OF h])
  show vi: "vis ix' b i = vis ix b i" if "inBin ix b" "i < 15" for b i using se [OF that] by (simp add: vis_def v)
  show "changes None p ix ix'"
    unfolding changes_def using sg sr se si by (simp add: h headerStep_def)
  have "slotIn ix b i = Some s" if "inBin ix b" "i < 15" "isValid ix b i" "slotIn ix' b i = Some s" for b i s
  proof -
    have "slotRef ix b i \<noteq> None"
      using memOkD(5) [OF ok] that by (auto simp: states_wf_def isValid_def isInvalid_def)
    then show ?thesis using si that(4) by simp
  qed
  then have "Key s = hash (entryKey e) \<and> binOf ix (hash (entryKey e)) = b"
    if "inBin ix b" "i < 15" "isValid ix b i" "slotIn ix' b i = Some s" "Val s = Some e" for b i s e
    using memOkD(8) [OF ok that(1-3) _ that(5)] that by blast
  moreover have "i = j" if "inBin ix b" "i < 15" "j < 15" "vis ix' b i = Some e" "vis ix' b j = Some e'"
    "entryKey e = entryKey e'" for b i j e e'
    using memOkD(9) [OF ok that(1-3) _ _ that(6)] that vi by simp
  moreover have "\<exists>b i. inBin ix b \<and> i < 15 \<and> slotRef ix' b i = Some r"
    if "loadSlot ix r = Some s" "Val s \<noteq> None" for r s
    using memOkD(10) [OF ok that] sr by blast
  ultimately show "memOk hash ix'"
    unfolding memOk_def inb h v ld using wf memOkD(6,7) [OF ok] se by (intro conjI) (blast | simp)+
qed

end
