(* ===== verification/InterleaveInv.thy ===== *)
theory InterleaveInv
  imports InterleaveMem
begin

text \<open>
  What a goroutine knows at each point of its call (\<open>pcInv\<close>), and that no access of another
  goroutine invalidates it. What was read under a header \<open>h\<close> is known only as long as the
  header is \<open>h\<close>; \<open>captured\<close> is why a header that equals \<open>h\<close> later was \<open>h\<close> all the time.
\<close>

section \<open>Consequences of a change\<close>

lemma changesD:
  assumes "changes T p ix ix'"
  shows "same_geometry ix ix'" "inBin ix' b = inBin ix b" "binOf ix' h = binOf ix h"
    "slotRef ix b i = Some r \<Longrightarrow> slotRef ix' b i = Some r"
    "inBin ix b \<Longrightarrow> headerStep (hdr ix b) (hdr ix' b)"
    "inBin ix b \<Longrightarrow> i < 15 \<Longrightarrow> T \<noteq> Some (b, i) \<Longrightarrow> slotEnt ix' b i = slotEnt ix b i"
    "inBin ix b \<Longrightarrow> i < 15 \<Longrightarrow> T \<noteq> Some (b, i) \<Longrightarrow> stHi (hdr ix' b) i = stHi (hdr ix b) i"
    "inBin ix b \<Longrightarrow> i < 15 \<Longrightarrow> T \<noteq> Some (b, i) \<Longrightarrow> stLo (hdr ix' b) i = stLo (hdr ix b) i"
    "inBin ix b \<Longrightarrow> i < 15 \<Longrightarrow> T \<noteq> Some (b, i) \<Longrightarrow> slotRef ix b i = Some r \<Longrightarrow> slotIn ix' b i = slotIn ix b i"
    "inBin ix b \<Longrightarrow> i < 15 \<Longrightarrow> T = Some (b, i) \<Longrightarrow> slotEnt ix' b i = Some e \<Longrightarrow>
       slotEnt ix b i = Some e \<or> entryAddr e = p"
    "inBin ix b \<Longrightarrow> i < 15 \<Longrightarrow> T = Some (b, i) \<Longrightarrow> isValid ix b i \<Longrightarrow> slotEnt ix b i \<noteq> None \<Longrightarrow> isValid ix' b i"
    "inBin ix b \<Longrightarrow> i < 15 \<Longrightarrow> T = Some (b, i) \<Longrightarrow> isValid ix b i \<Longrightarrow> slotEnt ix' b i = Some e \<Longrightarrow>
       \<exists>e0. slotEnt ix b i = Some e0 \<and> entryKey e = entryKey e0"
  using assms same_geometry_inBin [of ix ix'] same_geometry_binOf [of ix ix']
  unfolding changes_def by (simp_all | blast)+

lemma writesOk_changes:
  assumes "writesOk ix w" "changes T p ix ix'"
    and "\<And>b. inBin ix b \<Longrightarrow> countWrites ix ix' w b < 2 ^ 32"
  shows "writesOk ix' (countWrites ix ix' w)"
  using changesD(5) [OF assms(2)] by (rule writesOk_step [OF assms(1) changesD(2) [OF assms(2)] _ assms(3)])

lemma captured_changes:
  assumes "captured ix w b h" "changes T p ix ix'" "inBin ix b" "writesOk ix w"
  shows "captured ix' (countWrites ix ix' w) b h"
  by (rule captured_step [OF assms(1) changesD(5) [OF assms(2,3)] assms(3,4)])

lemma captured_back:
  assumes "captured ix w b h" "changes T p ix ix'" "inBin ix b" "writesOk ix' (countWrites ix ix' w)"
    "hdr ix' b = h"
  shows "hdr ix b = h"
  by (rule captured_return [OF assms(1) changesD(5) [OF assms(2,3)] _ assms(4,5)])
    (simp add: changesD(2) [OF assms(2)] assms(3))

section \<open>What is known at each point\<close>

text \<open>The valid slots of bin \<open>b\<close> that may hold key \<open>k\<close> are in \<open>I\<close>.\<close>

definition covers :: "('k, 'b) EntryPtr index \<Rightarrow> 64 word \<Rightarrow> 'k \<Rightarrow> nat set \<Rightarrow> bool" where
  "covers ix b k I \<longleftrightarrow> (\<forall>i<15. \<forall>e. vis ix b i = Some e \<and> entryKey e = k \<longrightarrow> i \<in> I)"

text \<open>
  \<open>good\<close>: wherever a swap in slot \<open>i\<close> finds the address of \<open>e\<close>, it finds \<open>e\<close> itself, in a valid
  slot. \<open>F e\<close> says that no running call owns the address of \<open>e\<close>.
\<close>

definition good ::
  "('k, 'b) EntryPtr index \<Rightarrow> (('k, 'b) Entry \<Rightarrow> bool) \<Rightarrow> 64 word \<Rightarrow> nat \<Rightarrow> ('k, 'b) Entry \<Rightarrow> bool" where
  "good ix F b i e \<longleftrightarrow> F e \<and>
     (\<forall>x. slotEnt ix b i = Some x \<and> entryAddr x = entryAddr e \<longrightarrow> x = e \<and> isValid ix b i)"

definition filled :: "('k, 'b) EntryPtr index \<Rightarrow> 64 word \<Rightarrow> nat \<Rightarrow> 64 word \<Rightarrow> ('k, 'b) EntryPtr \<Rightarrow> bool" where
  "filled ix b i w v \<longleftrightarrow> trying ix b i \<and> slotIn ix b i = Some \<lparr>Key = w, Val = v\<rparr>"

definition isInsert :: "('k, 'b) call \<Rightarrow> bool" where
  "isInsert c = (case c of CallInsert _ _ \<Rightarrow> True | _ \<Rightarrow> False)"

definition isUpdate :: "('k, 'b) call \<Rightarrow> bool" where
  "isUpdate c = (case c of CallPut _ _ \<Rightarrow> True | CallDelete _ \<Rightarrow> True | _ \<Rightarrow> False)"

definition ownOk ::
  "('k \<Rightarrow> 64 word) \<Rightarrow> ('k, 'b) EntryPtr index \<Rightarrow> 64 word \<Rightarrow> ('k, 'b) call \<Rightarrow> nat \<Rightarrow> nat option \<Rightarrow> bool" where
  "ownOk hash ix b c p own = (case own of None \<Rightarrow> True
     | Some i \<Rightarrow> isInsert c \<and> filled ix b i (hash (keyOf c)) (insertValue p c))"

definition existing :: "'b option set \<Rightarrow> ('b \<times> bool) option \<Rightarrow> bool" where
  "existing S res = (case res of None \<Rightarrow> True | Some (v, f) \<Rightarrow> \<not> f \<and> Some v \<in> S)"

text \<open>
  The invariant of a call \<open>c\<close> that is at a point, with its new entry at address \<open>p\<close> and \<open>S\<close>
  the values its key has had.
\<close>

fun pcInv ::
  "('k \<Rightarrow> 64 word) \<Rightarrow> ('k, 'b) EntryPtr index \<Rightarrow> (64 word \<Rightarrow> nat) \<Rightarrow> (('k, 'b) Entry \<Rightarrow> bool) \<Rightarrow>
     'b option set \<Rightarrow> ('k, 'b) call \<Rightarrow> nat \<Rightarrow> 64 word \<Rightarrow> ('k, 'b) pc \<Rightarrow> bool" where
  "pcInv hash ix w F S c p b Idle \<longleftrightarrow> True"
| "pcInv hash ix w F S c p b Load0 \<longleftrightarrow> True"
| "pcInv hash ix w F S c p b (Done res) \<longleftrightarrow> True"
| "pcInv hash ix w F S c p b Grow \<longleftrightarrow> True"
| "pcInv hash ix w F S c p b (Load2 i) \<longleftrightarrow> ownOk hash ix b c p (Some i)"
| "pcInv hash ix w F S c p b (Keys h todo hits rest own) \<longleftrightarrow>
     captured ix w b h \<and> attached ix b h \<and> refsOk ix b todo \<and> refsOk ix b hits \<and> restOk ix b rest \<and>
     ownOk hash ix b c p own \<and> (\<forall>(i, r) \<in> set hits. stHi h i) \<and>
     (hdr ix b = h \<longrightarrow> covers ix b (keyOf c) (slotsOf todo \<union> slotsOf hits \<union> pending rest))"
| "pcInv hash ix w F S c p b (Vals h hits rest own) \<longleftrightarrow>
     captured ix w b h \<and> attached ix b h \<and> refsOk ix b hits \<and> restOk ix b rest \<and>
     ownOk hash ix b c p own \<and> (\<forall>(i, r) \<in> set hits. stHi h i) \<and>
     (hdr ix b = h \<longrightarrow> covers ix b (keyOf c) (slotsOf hits \<union> pending rest))"
| "pcInv hash ix w F S c p b (LoadLinks h own) \<longleftrightarrow>
     captured ix w b h \<and> attached ix b h \<and> ownOk hash ix b c p own \<and>
     (hdr ix b = h \<longrightarrow> covers ix b (keyOf c) {3..<15})"
| "pcInv hash ix w F S c p b (Again h fnd own) \<longleftrightarrow>
     captured ix w b h \<and> ownOk hash ix b c p own \<and>
     (case fnd of
        None \<Rightarrow> \<not> isInsert c \<and> (hdr ix b = h \<longrightarrow> covers ix b (keyOf c) {})
      | Some (i, r, e) \<Rightarrow> i < 15 \<and> slotRef ix b i = Some r \<and> entryKey e = keyOf c \<and>
          (hdr ix b = h \<longrightarrow> Some (entryValue e) \<in> S \<and> good ix F b i e))"
| "pcInv hash ix w F S c p b (Choose h) \<longleftrightarrow>
     isInsert c \<and> captured ix w b h \<and> (hdr ix b = h \<longrightarrow> covers ix b (keyOf c) {})"
| "pcInv hash ix w F S c p b (Choosing h cp) \<longleftrightarrow>
     isInsert c \<and> captured ix w b h \<and> (hdr ix b = h \<longrightarrow> covers ix b (keyOf c) {}) \<and>
     chooseInv ix b h cp \<and> (\<forall>i. cp \<noteq> Chosen i)"
| "pcInv hash ix w F S c p b (Reserve h i) \<longleftrightarrow>
     isInsert c \<and> i < 15 \<and> captured ix w b h \<and>
     (hdr ix b = h \<longrightarrow> covers ix b (keyOf c) {} \<and> isInvalid ix b i \<and> slotRef ix b i \<noteq> None)"
| "pcInv hash ix w F S c p b (SlotPtr h i) \<longleftrightarrow>
     isInsert c \<and> captured ix w b h \<and> trying ix b i \<and> slotEnt ix b i = None \<and>
     (hdr ix b = h \<longrightarrow> covers ix b (keyOf c) {})"
| "pcInv hash ix w F S c p b (WriteKey h i r) \<longleftrightarrow>
     isInsert c \<and> captured ix w b h \<and> trying ix b i \<and> slotEnt ix b i = None \<and> slotRef ix b i = Some r \<and>
     (hdr ix b = h \<longrightarrow> covers ix b (keyOf c) {})"
| "pcInv hash ix w F S c p b (WriteVal h i r) \<longleftrightarrow>
     isInsert c \<and> captured ix w b h \<and> filled ix b i (hash (keyOf c)) None \<and> slotRef ix b i = Some r \<and>
     (hdr ix b = h \<longrightarrow> covers ix b (keyOf c) {})"
| "pcInv hash ix w F S c p b (Finalize h i) \<longleftrightarrow>
     captured ix w b h \<and> ownOk hash ix b c p (Some i) \<and>
     (hdr ix b = h \<longrightarrow> covers ix b (keyOf c) {})"
| "pcInv hash ix w F S c p b (Unreserve i res) \<longleftrightarrow> isInsert c \<and> trying ix b i \<and> existing S res"
| "pcInv hash ix w F S c p b (UnreserveVal h i res) \<longleftrightarrow> isInsert c \<and> trying ix b i \<and> existing S res"
| "pcInv hash ix w F S c p b (UnreserveCAS h i res) \<longleftrightarrow>
     isInsert c \<and> trying ix b i \<and> existing S res \<and> slotEnt ix b i = None"
| "pcInv hash ix w F S c p b (Swap i r e) \<longleftrightarrow>
     isUpdate c \<and> i < 15 \<and> slotRef ix b i = Some r \<and> entryKey e = keyOf c \<and> good ix F b i e"
| "pcInv hash ix w F S c p b (Mark i res) \<longleftrightarrow>
     i < 15 \<and> slotRef ix b i \<noteq> None \<and> isValid ix b i \<and> slotEnt ix b i = None"
| "pcInv hash ix w F S c p b (LoopHeader i r) \<longleftrightarrow> isUpdate c \<and> i < 15 \<and> slotRef ix b i = Some r"
| "pcInv hash ix w F S c p b (LoopKey h i r) \<longleftrightarrow>
     isUpdate c \<and> i < 15 \<and> slotRef ix b i = Some r \<and> captured ix w b h \<and> stHi h i"
| "pcInv hash ix w F S c p b (LoopVal h i r) \<longleftrightarrow>
     isUpdate c \<and> i < 15 \<and> slotRef ix b i = Some r \<and> captured ix w b h \<and> stHi h i"
| "pcInv hash ix w F S c p b (LoopCheck h i r e) \<longleftrightarrow>
     isUpdate c \<and> i < 15 \<and> slotRef ix b i = Some r \<and> captured ix w b h \<and> entryKey e = keyOf c \<and>
     (hdr ix b = h \<longrightarrow> good ix F b i e)"
| "pcInv hash ix w F S c p b (LoopAgain h i r e) \<longleftrightarrow>
     isUpdate c \<and> i < 15 \<and> slotRef ix b i = Some r \<and> entryKey e = keyOf c \<and> good ix F b i e"

text \<open>The slot a call has to itself: reserved by \<open>Insert\<close>, or cleared by \<open>Delete\<close>.\<close>

fun ownedSlot :: "('k, 'b) pc \<Rightarrow> nat option" where
  "ownedSlot (Load2 i) = Some i"
| "ownedSlot (Keys h todo hits rest own) = own"
| "ownedSlot (Vals h hits rest own) = own"
| "ownedSlot (LoadLinks h own) = own"
| "ownedSlot (Again h fnd own) = own"
| "ownedSlot (SlotPtr h i) = Some i"
| "ownedSlot (WriteKey h i r) = Some i"
| "ownedSlot (WriteVal h i r) = Some i"
| "ownedSlot (Finalize h i) = Some i"
| "ownedSlot (Unreserve i res) = Some i"
| "ownedSlot (UnreserveVal h i res) = Some i"
| "ownedSlot (UnreserveCAS h i res) = Some i"
| "ownedSlot (Mark i res) = Some i"
| "ownedSlot q = None"

text \<open>The links it has allocated and not yet attached.\<close>

fun heldBy :: "('k, 'b) pc \<Rightarrow> 32 word set" where
  "heldBy (Choosing h cp) = heldLinks cp"
| "heldBy q = {}"

lemma held_free:
  "pcInv hash ix w F S c p b q \<Longrightarrow> l \<in> heldBy q \<Longrightarrow> linkFree ix l"
  by (cases q) (auto intro: held_linkFree)

section \<open>Stability\<close>

text \<open>An access of another goroutine: everything the lemmas below use of it.\<close>

definition elsewhere ::
  "(64 word \<times> nat) option \<Rightarrow> 32 word set \<Rightarrow> nat \<Rightarrow> ('k, 'b) EntryPtr index \<Rightarrow> ('k, 'b) EntryPtr index \<Rightarrow>
     (64 word \<Rightarrow> nat) \<Rightarrow> (('k, 'b) Entry \<Rightarrow> bool) \<Rightarrow> (('k, 'b) Entry \<Rightarrow> bool) \<Rightarrow> 64 word \<Rightarrow> bool" where
  "elsewhere T H p ix ix' w F F' b \<longleftrightarrow> changes T p ix ix' \<and> linkStep H {} ix ix' \<and> inBin ix b \<and> writesOk ix w \<and>
     writesOk ix' (countWrites ix ix' w) \<and> (\<forall>e. F e \<longrightarrow> F' e \<and> entryAddr e \<noteq> p)"

lemma elsewhereD:
  assumes "elsewhere T H p ix ix' w F F' b"
  shows "changes T p ix ix'" "inBin ix b" "writesOk ix w" "writesOk ix' (countWrites ix ix' w)"
    "F e \<Longrightarrow> F' e" "F e \<Longrightarrow> entryAddr e \<noteq> p" "linkStep H {} ix ix'"
  using assms by (auto simp: elsewhere_def)

lemma st_captured:
  "elsewhere T H p ix ix' w F F' b \<Longrightarrow> captured ix w b h \<Longrightarrow> captured ix' (countWrites ix ix' w) b h"
  by (rule captured_changes [OF _ elsewhereD(1-3)])

lemma st_back: "elsewhere T H p ix ix' w F F' b \<Longrightarrow> captured ix w b h \<Longrightarrow> hdr ix' b = h \<Longrightarrow> hdr ix b = h"
  by (rule captured_back [OF _ elsewhereD(1,2,4)])

lemma st_ref: "elsewhere T H p ix ix' w F F' b \<Longrightarrow> slotRef ix b i = Some r \<Longrightarrow> slotRef ix' b i = Some r"
  using changesD(4) elsewhereD(1) by blast

lemma st_ref': "elsewhere T H p ix ix' w F F' b \<Longrightarrow> slotRef ix b i \<noteq> None \<Longrightarrow> slotRef ix' b i \<noteq> None"
  using st_ref by blast

lemma st_covers:
  assumes el: "elsewhere T H p ix ix' w F F' b" and cov: "covers ix b k I" and h: "hdr ix' b = hdr ix b"
  shows "covers ix' b k I"
  unfolding covers_def
proof (intro allI impI; elim conjE)
  note ch = elsewhereD(1,2) [OF el]
  fix i e assume i: "i < 15" and e: "vis ix' b i = Some e" "entryKey e = k"
  have v: "isValid ix' b i" "isValid ix b i" "slotEnt ix' b i = Some e"
    using e(1) h by (auto simp: vis_def isValid_def split: if_splits)
  have "\<exists>e0. slotEnt ix b i = Some e0 \<and> entryKey e0 = k"
  proof (cases "T = Some (b, i)")
    case True
    then show ?thesis using changesD(12) [OF ch i True v(2,3)] e(2) by auto
  qed (use changesD(6) [OF ch i] v(3) e(2) in metis)
  then show "i \<in> I" using cov i v(2) by (auto simp: covers_def vis_def)
qed

lemma st_refs: "elsewhere T H p ix ix' w F F' b \<Longrightarrow> refsOk ix b sg \<Longrightarrow> refsOk ix' b sg"
  unfolding refsOk_def using st_ref by fast

lemma st_rest: "elsewhere T H p ix ix' w F F' b \<Longrightarrow> restOk ix b rest \<Longrightarrow> restOk ix' b rest"
  using st_refs by (auto simp: restOk_def split: option.splits)

lemma st_attached: "elsewhere T H p ix ix' w F F' b \<Longrightarrow> attached ix b h \<Longrightarrow> attached ix' b h"
  unfolding attached_def using st_ref' by blast

lemma st_good:
  assumes el: "elsewhere T H p ix ix' w F F' b" and i: "i < 15" and g: "good ix F b i e"
  shows "good ix' F' b i e"
  unfolding good_def
proof (intro conjI allI impI; (elim conjE)?)
  note ch = elsewhereD(1,2) [OF el]
  have F: "F e" using g by (simp add: good_def)
  then show "F' e" by (rule elsewhereD(5) [OF el])
  fix x assume x: "slotEnt ix' b i = Some x" "entryAddr x = entryAddr e"
  have "x = e \<and> isValid ix' b i"
  proof (cases "T = Some (b, i)")
    case True
    have "slotEnt ix b i = Some x"
      using changesD(10) [OF ch i True x(1)] elsewhereD(6) [OF el F] x(2) by auto
    then show ?thesis using g x(2) changesD(11) [OF ch i True] by (simp add: good_def)
  next
    case False
    then show ?thesis
      using changesD(6-8) [OF ch i False] g x unfolding isValid_def good_def by metis
  qed
  then show "x = e" "isValid ix' b i" by simp_all
qed

lemma st_trying:
  "elsewhere T H p ix ix' w F F' b \<Longrightarrow> T \<noteq> Some (b, i) \<Longrightarrow> trying ix b i \<Longrightarrow> trying ix' b i"
  using st_ref' [of T H p ix ix'] changesD(7,8) [OF elsewhereD(1,2)] unfolding trying_def by metis

lemma st_filled:
  assumes "elsewhere T H p ix ix' w F F' b" "T \<noteq> Some (b, i)" "filled ix b i v x"
  shows "filled ix' b i v x"
proof -
  have "trying ix b i" "slotIn ix b i = Some \<lparr>Key = v, Val = x\<rparr>" using assms(3) by (simp_all add: filled_def)
  moreover from this obtain r where "slotRef ix b i = Some r" "i < 15" by (auto simp: trying_def)
  ultimately show ?thesis
    using st_trying [OF assms(1,2)] changesD(9) [OF elsewhereD(1,2) [OF assms(1)] _ assms(2)]
    by (simp add: filled_def)
qed

lemma st_own:
  "elsewhere T H p ix ix' w F F' b \<Longrightarrow> (\<And>i. own = Some i \<Longrightarrow> T \<noteq> Some (b, i)) \<Longrightarrow>
     ownOk hash ix b c q own \<Longrightarrow> ownOk hash ix' b c q own"
  using st_filled by (auto simp: ownOk_def split: option.splits)

lemma st_own_Some:
  "elsewhere T H p ix ix' w F F' b \<Longrightarrow> T \<noteq> Some (b, i) \<Longrightarrow> ownOk hash ix b c q (Some i) \<Longrightarrow>
     ownOk hash ix' b c q (Some i)"
  by (rule st_own) simp_all

lemma st_ent:
  "elsewhere T H p ix ix' w F F' b \<Longrightarrow> i < 15 \<Longrightarrow> T \<noteq> Some (b, i) \<Longrightarrow> slotEnt ix b i = None \<Longrightarrow> slotEnt ix' b i = None"
  using changesD(6) [OF elsewhereD(1,2)] by metis

lemma st_valid:
  "elsewhere T H p ix ix' w F F' b \<Longrightarrow> i < 15 \<Longrightarrow> T \<noteq> Some (b, i) \<Longrightarrow> isValid ix b i \<Longrightarrow> isValid ix' b i"
  using changesD(7,8) [OF elsewhereD(1,2)] unfolding isValid_def by metis

lemma st_pcInv:
  assumes el: "elsewhere T H p ix ix' w F F' b" and inv: "pcInv hash ix w F S c q b pt" and S: "S \<subseteq> S'"
    and mine: "\<And>i. ownedSlot pt = Some i \<Longrightarrow> T \<noteq> Some (b, i)" "H \<inter> heldBy pt = {}"
  shows "pcInv hash ix' (countWrites ix ix' w) F' S' c q b pt"
proof -
  have ex: "existing S res \<Longrightarrow> existing S' res" for res
    using S by (auto simp: existing_def split: option.splits)
  have inval: "isInvalid ix' b i" if "hdr ix' b = hdr ix b" "isInvalid ix b i" for i
    using that by (simp add: isInvalid_def)
  have t15: "trying ix b i \<Longrightarrow> i < 15" "filled ix b i v x \<Longrightarrow> i < 15" for i v x
    by (simp_all add: trying_def filled_def)
  note st = st_captured [OF el] st_ref [OF el] st_refs [OF el] st_rest [OF el]
    st_attached [OF el] st_good [OF el] st_own [OF el]
  note same = st_back [OF el] st_covers [OF el]
  note own = st_own_Some [OF el] st_trying [OF el] st_filled [OF el] st_ent [OF el] st_valid [OF el]
  show ?thesis
  proof (cases pt)
    case (Again h fnd own)
    with inv mine st same S show ?thesis
      by (cases fnd) (auto 0 3)
  next
    case (Choosing h cp)
    then have "captured ix w b h" using inv by simp
    then have "chooseInv ix' b h cp"
      using chooseInv_later [of ix b h cp ix', OF _ same(1) _ elsewhereD(7) [OF el]] inv mine(2) st_ref' [OF el]
        changesD(2) [OF elsewhereD(1) [OF el]] by (simp add: Choosing)
    with Choosing inv st same show ?thesis by auto
  next
    case (Reserve h i)
    then have "hdr ix' b = hdr ix b" if "hdr ix' b = h" using st_back [OF el, of h] inv that by simp
    with Reserve inv st same inval show ?thesis by auto
  qed (use inv mine st same ex t15 own in \<open>auto 0 3\<close>)
qed

end
