(* ===== verification/InterleaveStep.thy ===== *)
theory InterleaveStep
  imports InterleaveInv
begin

text \<open>
  One access of a goroutine whose invariant holds: it never faults, it establishes the
  invariant of the next point, and it leaves the contents of the table alone, unless it is the
  access at which the call takes effect; then the contents change, and the answer is, as in the
  sequential specification \<open>specCall\<close>.
\<close>

section \<open>What an access has to show\<close>

text \<open>
  The result of a call that did not change the map is right for one of the values its key had
  during the call.
\<close>

definition observed :: "'b \<Rightarrow> 'b option set \<Rightarrow> ('k, 'b) call \<Rightarrow> 'b \<times> bool \<Rightarrow> bool" where
  "observed zv S c res \<longleftrightarrow> (\<exists>x \<in> S. \<forall>M. M (keyOf c) = x \<longrightarrow> specCall zv c M = (res, M))"

definition answerInv ::
  "'b \<Rightarrow> 'b option set \<Rightarrow> ('k, 'b) call \<Rightarrow> ('b \<times> bool) option \<Rightarrow> ('k, 'b) pc \<Rightarrow> bool" where
  "answerInv zv S c eff q = (case q of
     Idle \<Rightarrow> True
   | Done res \<Rightarrow> (case eff of None \<Rightarrow> observed zv S c res | Some r \<Rightarrow> res = r)
   | Mark i res \<Rightarrow> eff = Some res
   | _ \<Rightarrow> eff = None)"

definition prepared ::
  "('k \<Rightarrow> 64 word) \<Rightarrow> 'b \<Rightarrow> ('k, 'b) call \<Rightarrow> nat \<Rightarrow> (('k, 'b) Entry \<Rightarrow> bool) \<Rightarrow> 'b option set \<Rightarrow>
     (64 word \<Rightarrow> nat) \<Rightarrow> 64 word \<Rightarrow> ('b \<times> bool) option \<Rightarrow> ('k, 'b) EntryPtr index \<Rightarrow> ('k, 'b) pc \<Rightarrow> bool" where
  "prepared hash zv c p F S w b eff ix q \<longleftrightarrow>
     memOk hash ix \<and> b = binOf ix (hash (keyOf c)) \<and> pcInv hash ix w F S c p b q \<and>
     answerInv zv S c eff q \<and> absMap entryContent hash ix (keyOf c) \<in> S \<and>
     (\<forall>b i e. inBin ix b \<and> i < 15 \<and> vis ix b i = Some e \<longrightarrow> F e)"

definition stepOk ::
  "('k \<Rightarrow> 64 word) \<Rightarrow> 'b \<Rightarrow> ('k, 'b) call \<Rightarrow> nat \<Rightarrow> (('k, 'b) Entry \<Rightarrow> bool) \<Rightarrow> 'b option set \<Rightarrow>
     (64 word \<Rightarrow> nat) \<Rightarrow> 64 word \<Rightarrow> ('b \<times> bool) option \<Rightarrow> ('k, 'b) EntryPtr index \<Rightarrow> ('k, 'b) pc \<Rightarrow>
     ('k, 'b) pc \<Rightarrow> ('k, 'b) EntryPtr index \<Rightarrow> bool" where
  "stepOk hash zv c p F S w b eff ix q q' ix' \<longleftrightarrow>
     memOk hash ix' \<and>
     (\<exists>T. changes T p ix ix' \<and>
        (\<forall>b' i. T = Some (b', i) \<longrightarrow> b' = b \<and> i < 15 \<and>
           (ownedSlot q = Some i \<or> isInvalid ix b i \<or> vis ix b i \<noteq> None)) \<and>
        (\<forall>i. ownedSlot q' = Some i \<longrightarrow> ownedSlot q = Some i \<or> T = Some (b, i))) \<and>
     linkStep (heldBy q) (heldBy q') ix ix' \<and>
     pcInv hash ix' (countWrites ix ix' w) F S c p b q' \<and>
     (let M = absMap entryContent hash ix in
        answerInv zv S c (if commits q q' then Some (fst (specCall zv c M)) else eff) q' \<and>
        absMap entryContent hash ix' = (if commits q q' then snd (specCall zv c M) else M)) \<and>
     (\<forall>b' i e. inBin ix b' \<and> i < 15 \<and> vis ix' b' i = Some e \<longrightarrow>
        vis ix b' i = Some e \<or> \<not> inCall q' \<and> entryAddr e = p)"

definition goes ::
  "('k \<Rightarrow> 64 word) \<Rightarrow> 'b \<Rightarrow> ('k, 'b) call \<Rightarrow> nat \<Rightarrow> (('k, 'b) Entry \<Rightarrow> bool) \<Rightarrow> 'b option set \<Rightarrow>
     (64 word \<Rightarrow> nat) \<Rightarrow> 64 word \<Rightarrow> ('b \<times> bool) option \<Rightarrow> ('k, 'b) EntryPtr index \<Rightarrow> ('k, 'b) pc \<Rightarrow> bool" where
  "goes hash zv c p F S w b eff ix q \<longleftrightarrow>
     (\<exists>q' ix'. exec hash zv c p q ix = Some (q', ix') \<and> stepOk hash zv c p F S w b eff ix q q' ix')"

lemma preparedD:
  assumes "prepared hash zv c p F S w b eff ix q"
  shows "memOk hash ix" "binOf ix (hash (keyOf c)) = b" "inBin ix b" "pcInv hash ix w F S c p b q"
    "answerInv zv S c eff q" "absMap entryContent hash ix (keyOf c) \<in> S"
    "i < 15 \<Longrightarrow> vis ix b i = Some e \<Longrightarrow> F e"
proof -
  show m: "memOk hash ix" and b: "binOf ix (hash (keyOf c)) = b" using assms by (simp_all add: prepared_def)
  show "inBin ix b" using binOf_in [OF memOkD(3) [OF m]] b by blast
  then show "i < 15 \<Longrightarrow> vis ix b i = Some e \<Longrightarrow> F e" using assms by (auto simp: prepared_def)
qed (use assms in \<open>auto simp: prepared_def\<close>)

lemma goes_read:
  assumes "prepared hash zv c p F S w b eff ix q" "exec hash zv c p q ix = Some (q', ix)"
    and "pcInv hash ix w F S c p b q'" "answerInv zv S c eff q'"
    "\<not> commits q q'" "\<And>i. ownedSlot q' = Some i \<Longrightarrow> ownedSlot q = Some i" "heldBy q' \<subseteq> heldBy q"
  shows "goes hash zv c p F S w b eff ix q"
proof -
  have "\<exists>T. changes T p ix ix \<and>
      (\<forall>b' i. T = Some (b', i) \<longrightarrow> b' = b \<and> i < 15 \<and>
         (ownedSlot q = Some i \<or> isInvalid ix b i \<or> vis ix b i \<noteq> None)) \<and>
      (\<forall>i. ownedSlot q' = Some i \<longrightarrow> ownedSlot q = Some i \<or> T = Some (b, i))"
    using assms(6) by (intro exI [of _ None]) simp
  then have "stepOk hash zv c p F S w b eff ix q q' ix"
    unfolding stepOk_def Let_def using assms(3-5,7) preparedD(1) [OF assms(1)] by (simp add: linkStep_same)
  then show ?thesis unfolding goes_def using assms(2) by blast
qed

text \<open>A write that does not change what is visible.\<close>

lemma goes_write:
  assumes r: "prepared hash zv c p F S w b eff ix q" "exec hash zv c p q ix = Some (q', ix')"
    and ch: "memOk hash ix'" "changes T p ix ix'"
    and T: "\<And>b' i. T = Some (b', i) \<Longrightarrow> b' = b \<and> i < 15 \<and>
          (ownedSlot q = Some i \<or> isInvalid ix b i \<or> vis ix b i \<noteq> None)"
      "\<And>i. ownedSlot q' = Some i \<Longrightarrow> ownedSlot q = Some i \<or> T = Some (b, i)"
    and inv: "pcInv hash ix' (countWrites ix ix' w) F S c p b q'" "answerInv zv S c eff q'" "\<not> commits q q'"
    and ls: "linkStep (heldBy q) (heldBy q') ix ix'"
    and vis: "\<And>b i. inBin ix b \<Longrightarrow> i < 15 \<Longrightarrow> vis ix' b i = vis ix b i"
  shows "goes hash zv c p F S w b eff ix q"
proof -
  have "absMap entryContent hash ix' = absMap entryContent hash ix"
    by (rule contents_same [OF preparedD(1) [OF r(1)] ch(1) changesD(1) [OF ch(2)] vis])
  moreover have "\<exists>T. changes T p ix ix' \<and>
      (\<forall>b' i. T = Some (b', i) \<longrightarrow> b' = b \<and> i < 15 \<and>
         (ownedSlot q = Some i \<or> isInvalid ix b i \<or> vis ix b i \<noteq> None)) \<and>
      (\<forall>i. ownedSlot q' = Some i \<longrightarrow> ownedSlot q = Some i \<or> T = Some (b, i))"
    using ch(2) T by blast
  ultimately have "stepOk hash zv c p F S w b eff ix q q' ix'"
    unfolding stepOk_def Let_def using ch(1) inv vis ls by auto
  then show ?thesis unfolding goes_def using r(2) by blast
qed

section \<open>Loads\<close>

lemma load_slot:
  assumes "memOk hash ix" "inBin ix b" "i < 15" "slotRef ix b i = Some r"
  obtains s where "loadSlot ix r = Some s" "slotIn ix b i = Some s" "slotEnt ix b i = Val s"
    "loadSlotKey ix r = Some (Key s)" "atomicLoadSlotVal ix r = Some (Val s)"
    "getSlotByIndex ix b (int i) = Some (Some r)"
proof -
  obtain s where "loadSlot ix r = Some s" using slotRef_load [OF memOkD(3,4) [OF assms(1)] assms(2-4)] by blast
  with assms(4) show ?thesis
    by (intro that [of s]) (simp_all add: slotIn_def slotEnt_def loadSlotKey_def atomicLoadSlotVal_def getSlotByIndex_ref)
qed

lemma vis_now: "isValid ix b i \<Longrightarrow> slotEnt ix b i = Some e \<Longrightarrow> vis ix b i = Some e"
  by (simp add: vis_def)

lemma vis_hi: "vis ix b i = Some e \<Longrightarrow> stHi (hdr ix b) i"
  by (simp add: vis_def isValid_def split: if_splits)

lemma candidateFor_Some: "candidateFor k v = Some e \<longleftrightarrow> v = Some e \<and> entryKey e = k"
  by (auto simp: candidateFor_def split: option.splits)

lemma candidateFor_None: "candidateFor k v = None \<longleftrightarrow> (\<forall>e. v = Some e \<longrightarrow> entryKey e \<noteq> k)"
  by (auto simp: candidateFor_def split: option.splits)

lemma found_good:
  assumes r: "prepared hash zv c p F S w b eff ix q" and i: "i < 15" "stHi (hdr ix b) i"
    and e: "slotEnt ix b i = Some e" "entryKey e = keyOf c"
  shows "Some (entryValue e) \<in> S" "good ix F b i e"
proof -
  have v: "isValid ix b i" using valid_now [OF memOkD(5) [OF preparedD(1) [OF r]] preparedD(3) [OF r] i] .
  then have vis: "vis ix b i = Some e" using e(1) by (rule vis_now)
  have "absMap entryContent hash ix (keyOf c) = Some (entryValue e)"
    using contents_vis [OF preparedD(1) [OF r], of "keyOf c"] vis i(1) e(2) by (auto simp: preparedD(2) [OF r])
  then show "Some (entryValue e) \<in> S" using preparedD(6) [OF r] by simp
  show "good ix F b i e" using preparedD(7) [OF r i(1) vis] v e(1) by (simp add: good_def)
qed

section \<open>The search\<close>

lemma goes_Load0:
  assumes r: "prepared hash zv c p F S w b eff ix Load0"
  shows "goes hash zv c p F S w b eff ix Load0"
proof (rule goes_read [OF r])
  note d = preparedD [OF r]
  show "exec hash zv c p Load0 ix = Some (Keys (hdr ix b) (primarySegment b) [] None None, ix)"
    using memOkD(6) [OF d(1,3)] by (simp add: d(2) load_header [OF d(3)])
  have "covers ix b (keyOf c) (slotsOf (primarySegment b) \<union> pending None)"
    by (auto simp: covers_def primarySegment_def pending_def)
  then show "pcInv hash ix w F S c p b (Keys (hdr ix b) (primarySegment b) [] None None)"
    using attached_now [OF memOkD(5) [OF d(1)] d(3)]
    by (simp add: primarySegment_def slotRef_primary restOk_def ownOk_def numeral_eq_Suc)
qed (use preparedD(5) [OF r] in \<open>simp_all add: answerInv_def commits_def\<close>)

lemma goes_Load2:
  assumes r: "prepared hash zv c p F S w b eff ix (Load2 i)"
  shows "goes hash zv c p F S w b eff ix (Load2 i)"
proof (rule goes_read [OF r])
  note d = preparedD [OF r]
  show "exec hash zv c p (Load2 i) ix = Some (Keys (hdr ix b) (primarySegment b) [] None (Some i), ix)"
    using memOkD(6) [OF d(1,3)] by (simp add: d(2) load_header [OF d(3)])
  have "covers ix b (keyOf c) (slotsOf (primarySegment b) \<union> pending None)"
    by (auto simp: covers_def primarySegment_def pending_def)
  then show "pcInv hash ix w F S c p b (Keys (hdr ix b) (primarySegment b) [] None (Some i))"
    using attached_now [OF memOkD(5) [OF d(1)] d(3)] d(4)
    by (simp add: primarySegment_def slotRef_primary restOk_def numeral_eq_Suc)
qed (use preparedD(5) [OF r] in \<open>simp_all add: answerInv_def commits_def\<close>)

lemma goes_Keys:
  assumes r: "prepared hash zv c p F S w b eff ix (Keys h todo hits rest own)"
  shows "goes hash zv c p F S w b eff ix (Keys h todo hits rest own)"
proof (cases todo)
  case Nil
  show ?thesis
    by (rule goes_read [OF r, where q' = "Vals h hits rest own"])
      (use preparedD(4,5) [OF r] Nil in \<open>auto simp: answerInv_def commits_def\<close>)
next
  case (Cons ir todo')
  obtain i rf where ir: "ir = (i, rf)" by fastforce
  note d = preparedD [OF r]
  have i: "i < 15" "slotRef ix b i = Some rf" using d(4) by (simp_all add: Cons ir)
  obtain s where s: "slotIn ix b i = Some s" "slotEnt ix b i = Val s" "loadSlotKey ix rf = Some (Key s)"
    by (rule load_slot [OF d(1,3) i], rule that)
  let ?hits = "if Key s = hash (keyOf c) \<and> stHi h i then hits @ [(i, rf)] else hits"
  have hit: "Key s = hash (keyOf c) \<and> stHi h i" if "hdr ix b = h" "vis ix b i = Some e" "entryKey e = keyOf c" for e
    using memOkD(8) [OF d(1,3) i(1) _ s(1), of e] that vis_hi [OF that(2)] s(2)
    by (auto simp: vis_def split: if_splits)
  have "covers ix b (keyOf c) (slotsOf todo' \<union> slotsOf ?hits \<union> pending rest)" if h: "hdr ix b = h"
    unfolding covers_def
  proof (intro allI impI; elim conjE)
    fix j e assume j: "j < 15" "vis ix b j = Some e" "entryKey e = keyOf c"
    then have "j \<in> slotsOf todo \<union> slotsOf hits \<union> pending rest"
      using d(4) h by (auto simp: covers_def)
    then show "j \<in> slotsOf todo' \<union> slotsOf ?hits \<union> pending rest"
      using hit [OF h] j by (auto simp: Cons ir)
  qed
  then have inv: "pcInv hash ix w F S c p b (Keys h todo' ?hits rest own)"
    using d(4) i by (auto simp: Cons ir)
  show ?thesis
    by (rule goes_read [OF r _ inv]) (use d(5) s(3) in \<open>simp_all add: Cons ir answerInv_def commits_def\<close>)
qed

lemma goes_Vals_hit:
  assumes r: "prepared hash zv c p F S w b eff ix (Vals h ((i, rf) # hits) rest own)"
  shows "goes hash zv c p F S w b eff ix (Vals h ((i, rf) # hits) rest own)"
proof -
  note d = preparedD [OF r]
  have i: "i < 15" "slotRef ix b i = Some rf" "stHi h i" using d(4) by simp_all
  obtain s where s: "slotEnt ix b i = Val s" "atomicLoadSlotVal ix rf = Some (Val s)" "slotIn ix b i = Some s"
    by (rule load_slot [OF d(1,3) i(1,2)], rule that)
  show ?thesis
  proof (cases "candidateFor (keyOf c) (Val s)")
    case None
    have "covers ix b (keyOf c) (slotsOf hits \<union> pending rest)" if h: "hdr ix b = h"
      unfolding covers_def
    proof (intro allI impI; elim conjE)
      fix j e assume j: "j < 15" "vis ix b j = Some e" "entryKey e = keyOf c"
      then have "j \<noteq> i" using None s(1) by (auto simp: candidateFor_None vis_def split: if_splits)
      then show "j \<in> slotsOf hits \<union> pending rest" using d(4) h j by (auto simp: covers_def)
    qed
    then have inv: "pcInv hash ix w F S c p b (Vals h hits rest own)" using d(4) by auto
    show ?thesis
      by (rule goes_read [OF r _ inv]) (use d(5) s(2) None in \<open>simp_all add: answerInv_def commits_def\<close>)
  next
    case (Some e)
    then have e: "slotEnt ix b i = Some e" "entryKey e = keyOf c" using s(1) by (simp_all add: candidateFor_Some)
    have inv: "pcInv hash ix w F S c p b (Again h (Some (i, rf, e)) own)"
      using d(4) i e found_good [OF r i(1) _ e] by auto
    show ?thesis
      by (rule goes_read [OF r _ inv]) (use d(5) s(2) Some in \<open>simp_all add: answerInv_def commits_def\<close>)
  qed
qed

lemma afterMiss_inv:
  assumes "captured ix w b h" "ownOk hash ix b c p own" "hdr ix b = h \<Longrightarrow> covers ix b (keyOf c) {}"
  shows "pcInv hash ix w F S c p b (afterMiss c h own)"
  using assms by (cases "(c, h, own)" rule: afterMiss.cases) (auto simp: isInsert_def ownOk_def)

lemma goes_Vals_none:
  assumes r: "prepared hash zv c p F S w b eff ix (Vals h [] rest own)"
  shows "goes hash zv c p F S w b eff ix (Vals h [] rest own)"
proof (cases rest)
  case None
  show ?thesis
    by (rule goes_read [OF r, where q' = "LoadLinks h own"])
      (use preparedD(4,5) [OF r] None in \<open>auto simp: answerInv_def commits_def pending_def\<close>)
next
  case (Some segs)
  show ?thesis
  proof (cases segs)
    case Nil
    note d = preparedD [OF r]
    have inv: "pcInv hash ix w F S c p b (afterMiss c h own)"
      by (rule afterMiss_inv) (use d(4) in \<open>auto simp: Some Nil pending_def\<close>)
    have a: "eff = None" using d(5) by (simp add: answerInv_def)
    show ?thesis
    proof (rule goes_read [OF r _ inv])
      show "heldBy (afterMiss c h own) \<subseteq> heldBy (Vals h [] rest own)"
        by (cases "(c, h, own)" rule: afterMiss.cases) auto
      show "ownedSlot (afterMiss c h own) = Some i \<Longrightarrow> ownedSlot (Vals h [] rest own) = Some i" for i
        by (cases "(c, h, own)" rule: afterMiss.cases) auto
      show "answerInv zv S c eff (afterMiss c h own)"
        using a by (cases "(c, h, own)" rule: afterMiss.cases) (auto simp: answerInv_def)
    qed (auto simp: commits_def Some Nil)
  next
    case (Cons seg segs')
    have "pcInv hash ix w F S c p b (Keys h seg [] (Some segs') own)"
      using preparedD(4) [OF r] by (auto simp: Some Cons pending_def restOk_def)
    then show ?thesis
      by (rule goes_read [OF r, rotated])
        (use preparedD(5) [OF r] in \<open>auto simp: answerInv_def commits_def Some Cons\<close>)
  qed
qed

lemma goes_LoadLinks:
  assumes r: "prepared hash zv c p F S w b eff ix (LoadLinks h own)"
  shows "goes hash zv c p F S w b eff ix (LoadLinks h own)"
proof -
  note d = preparedD [OF r]
  let ?segs = "linkSegmentsOf h (lmeta ix b)"
  have "covers ix b (keyOf c) (slotsOf (concat ?segs))" if h: "hdr ix b = h"
    unfolding covers_def
  proof (intro allI impI; elim conjE)
    fix j e assume j: "j < 15" "vis ix b j = Some e" "entryKey e = keyOf c"
    then have "3 \<le> j" using d(4) h by (auto simp: covers_def)
    then show "j \<in> slotsOf (concat ?segs)"
      using links_cover [OF memOkD(4) [OF d(1)] d(3), of h j] d(4) vis_hi [OF j(2)] h j(1) by simp
  qed
  then have inv: "pcInv hash ix w F S c p b (Vals h [] (Some ?segs) own)"
    using d(4) links_refs [OF memOkD(4) [OF d(1)] d(3)] by (auto simp: restOk_def pending_def)
  have "getBin ix (hash (keyOf c)) = Some (bins ix ! unat b)" using d(3) by (simp add: getBin_def d(2))
  then show ?thesis
    by (intro goes_read [OF r _ inv]) (use d(5) in \<open>simp_all add: answerInv_def commits_def lmeta_def\<close>)
qed

end
