(* ===== verification/InterleaveWrite.thy ===== *)
theory InterleaveWrite
  imports InterleaveStep
begin

text \<open>
  The remaining accesses: the check that ends a search, the reservation, filling, publication and
  release of a slot by \<open>Insert\<close>, the swap of \<open>Put\<close> and \<open>Delete\<close> with its loop, and
  \<open>markSlotInvalid\<close>. \<open>goes_all\<close> collects them.
\<close>

section \<open>The end of a search\<close>

lemma goes_Again:
  assumes r: "prepared hash zv c p F S w b eff ix (Again h fnd own)"
  shows "goes hash zv c p F S w b eff ix (Again h fnd own)"
proof (cases "h = hdr ix b")
  case False
  show ?thesis
    by (rule goes_read [OF r, where q' = "afterMismatch own"])
      (use False preparedD(1-6) [OF r] in \<open>auto simp: load_header answerInv_def commits_def afterMismatch_def split: option.splits\<close>)
next
  case True
  note d = preparedD [OF r]
  have ld: "exec hash zv c p (Again h fnd own) ix = Some (afterMatch zv c fnd own, ix)"
    using True by (simp add: d(2) load_header [OF d(3)])
  have eff: "eff = None" using d(5) by (simp add: answerInv_def)
  show ?thesis
  proof (cases fnd)
    case None
    have "\<forall>i<15. \<forall>e. vis ix (binOf ix (hash (keyOf c))) i = Some e \<longrightarrow> entryKey e \<noteq> keyOf c"
      using d(2,4) True by (auto simp: None covers_def)
    then have "absMap entryContent hash ix (keyOf c) = None"
      using contents_None [OF d(1)] by blast
    then have miss: "None \<in> S" using d(6) by simp
    have "afterMatch zv c fnd own = Done (zv, False)" "observed zv S c (zv, False)"
      using d(4) miss by (cases c; auto simp: None isInsert_def observed_def found_def intro!: bexI [of _ None])+
    then show ?thesis
      by (intro goes_read [OF r ld]) (simp_all add: answerInv_def eff commits_def)
  next
    case (Some ire)
    obtain i rf e where ire: "ire = (i, rf, e)" by (cases ire)
    have k: "i < 15" "slotRef ix b i = Some rf" "entryKey e = keyOf c" "Some (entryValue e) \<in> S" "good ix F b i e"
      "ownOk hash ix b c p own"
      using d(4) True by (simp_all add: Some ire)
    have obs: "observed zv S c (entryValue e, True)" if "isUpdate c = False" "isInsert c = False"
      using that k(4) unfolding observed_def
      by (intro bexI [of _ "Some (entryValue e)"]; cases c) (auto simp: found_def isUpdate_def isInsert_def)
    have ins: "observed zv S c (entryValue e, False)" if "isInsert c"
      using that k(4) unfolding observed_def
      by (intro bexI [of _ "Some (entryValue e)"]; cases c) (auto simp: isInsert_def)
    have own: "own = None \<or> isInsert c" using k(6) by (auto simp: ownOk_def split: option.splits)
    have tr: "trying ix b j" if "own = Some j" for j using k(6) that by (simp add: ownOk_def filled_def)
    show ?thesis
      by (rule goes_read [OF r ld]; cases c; cases own)
        (use k own obs ins tr in \<open>auto simp: Some ire answerInv_def eff commits_def isInsert_def isUpdate_def existing_def\<close>)
  qed
qed

section \<open>Choosing and reserving a slot\<close>

lemma goes_Choose:
  assumes r: "prepared hash zv c p F S w b eff ix (Choose h)"
  shows "goes hash zv c p F S w b eff ix (Choose h)"
proof -
  note d = preparedD [OF r]
  have eff: "eff = None" using d(5) by (simp add: answerInv_def)
  show ?thesis
  proof (cases "invalidMask3 h = 0")
    case False
    then obtain j where j: "j < 3" "lowestSlot (invalidMask3 h) = int j" "\<not> stHi h j" "\<not> stLo h j"
      by (rule invalidMask3_lowest)
    have "pcInv hash ix w F S c p b (Reserve h j)"
      using d(4) j by (auto simp: isInvalid_def slotRef_primary)
    then show ?thesis
      by (rule goes_read [OF r, rotated]) (use False j in \<open>simp_all add: answerInv_def eff commits_def\<close>)
  next
    case True
    show ?thesis
      by (rule goes_read [OF r, where q' = "Choosing h ChooseHeader"])
        (use True d(4) in \<open>simp_all add: answerInv_def eff commits_def\<close>)
  qed
qed

lemma goes_Choosing:
  assumes r: "prepared hash zv c p F S w b eff ix (Choosing h cp)"
  shows "goes hash zv c p F S w b eff ix (Choosing h cp)"
proof -
  note d = preparedD [OF r]
  have eff: "eff = None" using d(5) by (simp add: answerInv_def)
  have cp: "chooseInv ix b h cp" "\<And>i. cp \<noteq> Chosen i" using d(4) by simp_all
  obtain cp' ix' where st: "chooseStep b cp ix = Some (cp', ix')"
    and ok: "cp' = Chosen (-1) \<or> links_extend ix ix' \<and> wf_index ix' \<and> alloc_ok ix' \<and> chooseInv ix' b h cp' \<and>
       linkStep (heldLinks cp) (heldLinks cp') ix ix'"
    by (rule chooseStep_ok [OF memOkD(1,2) [OF d(1)] d(3) cp]) (rule that)
  let ?q = "case cp' of Chosen i \<Rightarrow> if i < 0 then Grow else Reserve h (nat i) | _ \<Rightarrow> Choosing h cp'"
  show ?thesis
  proof (cases "\<exists>i<0. cp' = Chosen i")
    case True
    then show ?thesis
      by (intro goes_read [OF r, where q' = Grow]) (use st in \<open>auto simp: d(2) answerInv_def eff commits_def\<close>)
  next
    case False
    then have ok: "links_extend ix ix'" "wf_index ix'" "alloc_ok ix'" "chooseInv ix' b h cp'"
      "linkStep (heldLinks cp) (heldLinks cp') ix ix'" using ok by auto
    note ch = changes_links [OF d(1) ok(1-3)]
    show ?thesis
    proof (rule goes_write [OF r _ ch(1,2) _ _ _ _ _ _ ch(5)])
      show "exec hash zv c p (Choosing h cp) ix = Some (?q, ix')"
        using st False by (auto simp: d(2) split: chooser.splits)
      have "covers ix' b (keyOf c) I = covers ix b (keyOf c) I" for I
        using ch(5) [OF d(3)] by (simp add: covers_def)
      moreover have "captured ix' (countWrites ix ix' w) b h"
        using d(4) by (simp add: countWrites_hdr [OF ch(4)] ch(4) captured_def)
      ultimately show "pcInv hash ix' (countWrites ix ix' w) F S c p b ?q"
        using d(4) ok(4) False ch(4) by (auto simp: freeSlot_def split: chooser.splits)
      show "linkStep (heldBy (Choosing h cp)) (heldBy ?q) ix ix'"
        using ok(5) by (auto simp: linkStep_def split: chooser.splits)
    qed (auto simp: answerInv_def eff commits_def split: chooser.splits if_splits)
  qed
qed

lemma goes_Reserve:
  assumes r: "prepared hash zv c p F S w b eff ix (Reserve h i)"
  shows "goes hash zv c p F S w b eff ix (Reserve h i)"
proof -
  note d = preparedD [OF r]
  let ?h1 = "setSlotStateAndVersion h (int i) SlotTrying"
  have eff: "eff = None" using d(5) by (simp add: answerInv_def)
  obtain ix' where st: "storeHeader ix b ?h1 = Some ix'"
    "atomicCASHeader ix b h ?h1 = Some (if hdr ix b = h then (True, ix') else (False, ix))"
    by (rule CAS_header [OF d(3)])
  show ?thesis
  proof (cases "hdr ix b = h")
    case False
    show ?thesis
      by (rule goes_read [OF r, where q' = Load0])
        (use st(2) False in \<open>simp_all add: reserveSlot_def d(2) answerInv_def eff commits_def\<close>)
  next
    case True
    have i: "i < 15" "isInvalid ix b i" "slotRef ix b i \<noteq> None" "covers ix b (keyOf c) {}" "isInsert c"
      using d(4) True by simp_all
    have ent: "slotEnt ix b i = None" by (rule memOkD(7) [OF d(1,3) i(1,2)])
    have bits: "stHi ?h1 j = (if j = i then False else stHi (hdr ix b) j)"
      "stLo ?h1 j = (if j = i then True else stLo (hdr ix b) j)" if "j < 15" for j
      using that i(1) True by (simp_all add: stHi_setSlot stLo_setSlot)
    have bs: "getBinState ?h1 = getBinState (hdr ix b)" using i(1) True by (simp add: getBinState_setSlot)
    have hs: "headerStep (hdr ix b) ?h1" using headerStep_set [OF i(1)] True by simp
    have nv: "vis ix b i = None" using i(2) by (auto simp: vis_def isValid_def isInvalid_def)
    have ch: "memOk hash ix'" "changes (Some (b, i)) p ix ix'" "hdr ix' b = ?h1"
      "slotRef ix' = slotRef ix" "slotIn ix' = slotIn ix"
      "\<And>b' j. j < 15 \<Longrightarrow> vis ix' b' j = (if b' = b \<and> j = i then None else vis ix b' j)"
      "linkStep {} {} ix ix'"
      using changes_state [OF d(1,3) i(1,3) st(1) hs bits bs] ent nv by (simp_all add: isValid_def)
    show ?thesis
    proof (rule goes_write [OF r _ ch(1,2)])
      show "exec hash zv c p (Reserve h i) ix = Some (SlotPtr ?h1 i, ix')"
        using st(2) True by (simp add: reserveSlot_def d(2))
      have "captured ix' w' b ?h1" for w' using captured_now [of ix' w' b] by (simp add: ch(3))
      moreover have "trying ix' b i"
        using i(1,3) by (simp add: trying_def ch(3,4) stHi_setSlot stLo_setSlot)
      ultimately show "pcInv hash ix' (countWrites ix ix' w) F S c p b (SlotPtr ?h1 i)"
        using i(4,5) ent ch(6) by (simp add: slotEnt_def ch(5) covers_def)
      show "vis ix' b' j = vis ix b' j" if "inBin ix b'" "j < 15" for b' j
        using ch(6) [OF that(2), of b'] nv by simp
    qed (use i ch(7) in \<open>auto simp: answerInv_def eff commits_def\<close>)
  qed
qed

section \<open>Filling the reserved slot\<close>

lemma goes_SlotPtr:
  assumes r: "prepared hash zv c p F S w b eff ix (SlotPtr h i)"
  shows "goes hash zv c p F S w b eff ix (SlotPtr h i)"
proof -
  note d = preparedD [OF r]
  have "trying ix b i" using d(4) by simp
  then obtain rf where i: "i < 15" "slotRef ix b i = Some rf" by (auto simp: trying_def)
  have "pcInv hash ix w F S c p b (WriteKey h i rf)" using d(4) i by simp
  then show ?thesis
    by (rule goes_read [OF r, rotated])
      (use getSlotByIndex_ref [OF i(2)] d(5) in \<open>simp_all add: d(2) answerInv_def commits_def\<close>)
qed

text \<open>A store to a reserved slot: nothing visible changes.\<close>

lemma goes_fill:
  assumes r: "prepared hash zv c p F S w b eff ix q" and t: "trying ix b i" "slotRef ix b i = Some rf"
    and st: "storeSlot ix rf x = Some ix'" and ex: "exec hash zv c p q ix = Some (q', ix')"
    and new: "\<And>e. Val x = Some e \<Longrightarrow> slotEnt ix b i = Some e \<or> entryAddr e = p"
    and own: "ownedSlot q = Some i" "ownedSlot q' = Some i" "heldBy q' = heldBy q"
    and inv: "memOk hash ix' \<Longrightarrow> hdr ix' = hdr ix \<Longrightarrow> slotRef ix' = slotRef ix \<Longrightarrow> slotIn ix' b i = Some x \<Longrightarrow>
      covers ix' b (keyOf c) {} = covers ix b (keyOf c) {} \<Longrightarrow> pcInv hash ix' w F S c p b q'"
    and ans: "answerInv zv S c eff q'" "\<not> commits q q'"
  shows "goes hash zv c p F S w b eff ix q"
proof -
  note d = preparedD [OF r]
  note s = trying_states [OF t(1)]
  have ch: "memOk hash ix'" "changes (Some (b, i)) p ix ix'" "hdr ix' = hdr ix" "slotRef ix' = slotRef ix"
    "\<And>b' j. inBin ix b' \<Longrightarrow> j < 15 \<Longrightarrow> slotIn ix' b' j = (if b' = b \<and> j = i then Some x else slotIn ix b' j)"
    "linkStep (heldBy q) (heldBy q) ix ix'"
    using changes_slot [OF d(1,3) conjunct2 [OF conjunct2 [OF s]] t(2) st new] s by blast+
  have v: "vis ix' b' j = vis ix b' j" if "inBin ix b'" "j < 15" for b' j
    using ch(5) [OF that] s isValid_frame [OF ch(3)] by (auto simp: vis_def slotEnt_def)
  have "pcInv hash ix' (countWrites ix ix' w) F S c p b q'"
    unfolding countWrites_hdr [OF ch(3)]
    by (rule inv [OF ch(1,3,4)]) (use ch(5) [OF d(3)] v [OF d(3)] s in \<open>simp_all add: covers_def\<close>)
  then show ?thesis
    by (intro goes_write [OF r ex ch(1,2) _ _ _ ans _ v]) (use own s ch(6) in auto)
qed

lemma goes_WriteKey:
  assumes r: "prepared hash zv c p F S w b eff ix (WriteKey h i rf)"
  shows "goes hash zv c p F S w b eff ix (WriteKey h i rf)"
proof -
  note d = preparedD [OF r]
  have t: "trying ix b i" "slotRef ix b i = Some rf" "slotEnt ix b i = None" using d(4) by simp_all
  obtain s where s: "slotIn ix b i = Some s" "slotEnt ix b i = Val s" "loadSlot ix rf = Some s"
    by (rule load_slot [OF d(1,3) conjunct2 [OF conjunct2 [OF trying_states [OF t(1)]]] t(2)], rule that)
  obtain ix' where st: "storeSlot ix rf (s\<lparr>Key := hash (keyOf c)\<rparr>) = Some ix'"
    using storeSlot_total [OF s(3)] by blast
  show ?thesis
  proof (rule goes_fill [OF r t(1,2) st, where q' = "WriteVal h i rf"])
    assume a: "hdr ix' = hdr ix" "slotRef ix' = slotRef ix" "slotIn ix' b i = Some (s\<lparr>Key := hash (keyOf c)\<rparr>)"
      "covers ix' b (keyOf c) {} = covers ix b (keyOf c) {}"
    have "s\<lparr>Key := hash (keyOf c)\<rparr> = \<lparr>Key = hash (keyOf c), Val = None\<rparr>" using s(2) t(3) by simp
    then show "pcInv hash ix' w F S c p b (WriteVal h i rf)"
      using d(4) a by (simp add: filled_def trying_frame [OF a(1,2)] captured_def)
  qed (use s t(3) st d(5) in \<open>simp_all add: storeSlotKey_def d(2) answerInv_def commits_def\<close>)
qed

lemma insertValue_addr: "insertValue p c = Some e \<Longrightarrow> entryAddr e = p"
  by (cases c) (auto simp: newEntry_def)

lemma goes_WriteVal:
  assumes r: "prepared hash zv c p F S w b eff ix (WriteVal h i rf)"
  shows "goes hash zv c p F S w b eff ix (WriteVal h i rf)"
proof -
  note d = preparedD [OF r]
  have t: "trying ix b i" "slotRef ix b i = Some rf" "slotIn ix b i = Some \<lparr>Key = hash (keyOf c), Val = None\<rparr>"
    using d(4) by (simp_all add: filled_def)
  then have ld: "loadSlot ix rf = Some \<lparr>Key = hash (keyOf c), Val = None\<rparr>" by (simp add: slotIn_def)
  let ?x = "\<lparr>Key = hash (keyOf c), Val = insertValue p c\<rparr>"
  obtain ix' where st: "storeSlot ix rf ?x = Some ix'"
    using storeSlot_total [OF ld] by blast
  show ?thesis
  proof (rule goes_fill [OF r t(1,2) st, where q' = "Finalize h i"])
    assume a: "hdr ix' = hdr ix" "slotRef ix' = slotRef ix" "slotIn ix' b i = Some ?x"
      "covers ix' b (keyOf c) {} = covers ix b (keyOf c) {}"
    show "pcInv hash ix' w F S c p b (Finalize h i)"
      using d(4) a t(1) by (simp add: ownOk_def filled_def trying_frame [OF a(1,2)] captured_def)
  qed (use ld st d(5) insertValue_addr [of p c] in \<open>simp_all add: atomicStoreSlotVal_def answerInv_def commits_def\<close>)
qed

lemma goes_UnreserveVal:
  assumes r: "prepared hash zv c p F S w b eff ix (UnreserveVal h i res)"
  shows "goes hash zv c p F S w b eff ix (UnreserveVal h i res)"
proof -
  note d = preparedD [OF r]
  have t: "trying ix b i" using d(4) by simp
  then obtain rf where rf: "slotRef ix b i = Some rf" by (auto simp: trying_def)
  obtain s where s: "slotIn ix b i = Some s" "loadSlot ix rf = Some s" "getSlotByIndex ix b (int i) = Some (Some rf)"
    by (rule load_slot [OF d(1,3) conjunct2 [OF conjunct2 [OF trying_states [OF t]]] rf], rule that)
  obtain ix' where st: "storeSlot ix rf (s\<lparr>Val := None\<rparr>) = Some ix'"
    using storeSlot_total [OF s(2)] by blast
  show ?thesis
  proof (rule goes_fill [OF r t rf st, where q' = "UnreserveCAS h i res"])
    assume a: "hdr ix' = hdr ix" "slotRef ix' = slotRef ix" "slotIn ix' b i = Some (s\<lparr>Val := None\<rparr>)"
    then show "pcInv hash ix' w F S c p b (UnreserveCAS h i res)"
      using d(4) by (simp add: trying_frame [OF a(1,2)] slotEnt_def)
  qed (use s st d(5) in \<open>simp_all add: atomicStoreSlotVal_def d(2) answerInv_def commits_def\<close>)
qed

section \<open>Publishing and releasing\<close>

lemma goes_Finalize:
  assumes r: "prepared hash zv c p F S w b eff ix (Finalize h i)"
  shows "goes hash zv c p F S w b eff ix (Finalize h i)"
proof -
  note d = preparedD [OF r]
  let ?h1 = "setSlotStateAndVersion h (int i) SlotValid"
  obtain ix' where st: "storeHeader ix b ?h1 = Some ix'"
    "atomicCASHeader ix b h ?h1 = Some (if hdr ix b = h then (True, ix') else (False, ix))"
    by (rule CAS_header [OF d(3)])
  have eff: "eff = None" using d(5) by (simp add: answerInv_def)
  show ?thesis
  proof (cases "hdr ix b = h")
    case False
    show ?thesis
      by (rule goes_read [OF r, where q' = "Load2 i"])
        (use st(2) False d(4,5) in \<open>simp_all add: finalizeSlot_def d(2) answerInv_def commits_def\<close>)
  next
    case True
    have "isInsert c" using d(4) by (simp add: ownOk_def)
    then obtain k v where c: "c = CallInsert k v" by (cases c) (auto simp: isInsert_def)
    let ?s = "\<lparr>Key = hash k, Val = newEntry p k v\<rparr>"
    have t: "trying ix b i" "slotIn ix b i = Some ?s" "covers ix b k {}"
      using d(4) True by (simp_all add: ownOk_def filled_def c)
    have i: "i < 15" "slotRef ix b i \<noteq> None" using t(1) by (simp_all add: trying_def)
    note nv = trying_states [OF t(1)]
    have k: "binOf ix (hash k) = b" using d(2) by (simp add: c)
    have abs: "\<forall>j<15. \<forall>e. vis ix b j = Some e \<longrightarrow> entryKey e \<noteq> k" using t(3) by (auto simp: covers_def)
    have none: "absMap entryContent hash ix k = None" using contents_None [OF d(1), of k] abs k by simp
    have bits: "stHi ?h1 j = (if j = i then True else stHi (hdr ix b) j)"
      "stLo ?h1 j = (if j = i then False else stLo (hdr ix b) j)" if "j < 15" for j
      using that i(1) True by (simp_all add: stHi_setSlot stLo_setSlot bit_3)
    have bs: "getBinState ?h1 = getBinState (hdr ix b)" using i(1) True by (simp add: getBinState_setSlot)
    have hs: "headerStep (hdr ix b) ?h1" using headerStep_set [OF i(1)] True by simp
    have val: "Key s = hash (entryKey e) \<and> binOf ix (hash (entryKey e)) = b \<and>
        (\<forall>j<15. \<forall>e'. j \<noteq> i \<and> vis ix b j = Some e' \<longrightarrow> entryKey e' \<noteq> entryKey e)"
      if "slotIn ix b i = Some s" "Val s = Some e" for s e
      using that t(2) abs k by (auto simp: newEntry_def)
    have ch: "memOk hash ix'" "changes (Some (b, i)) p ix ix'" "same_geometry ix ix'"
      "\<And>b' j. j < 15 \<Longrightarrow> vis ix' b' j = (if b' = b \<and> j = i then slotEnt ix b i else vis ix b' j)"
      "linkStep {} {} ix ix'"
      using changes_state [OF d(1,3) i st(1) hs bits bs] val nv by simp_all
    have new: "vis ix' b i = newEntry p k v" using ch(4) [OF i(1)] t(2) by (simp add: slotEnt_def)
    have "absMap entryContent hash ix' =
        (absMap entryContent hash ix)(k := map_option entryValue (vis ix' b i))"
      by (rule contents_update [OF d(1) ch(1,3) i(1) k [symmetric]])
        (use ch(4) none nv new in \<open>auto simp: vis_def newEntry_def\<close>)
    then have con: "absMap entryContent hash ix' = (absMap entryContent hash ix)(k \<mapsto> v)"
      by (simp add: new newEntry_def)
    have "vis ix b' j = Some e \<or> entryAddr e = p"
      if "j < 15" "vis ix' b' j = Some e" for b' j e
      using that ch(4) [OF that(1), of b'] new by (auto simp: newEntry_def split: if_splits)
    then have "stepOk hash zv c p F S w b eff ix (Finalize h i) (Done (zv, True)) ix'"
      unfolding stepOk_def Let_def using ch(1,2,5) con none i(1)
      by (auto simp: c commits_def answerInv_def inCall_def intro!: exI [of _ "Some (b, i)"])
    moreover have "exec hash zv c p (Finalize h i) ix = Some (Done (zv, True), ix')"
      using st(2) True by (simp add: finalizeSlot_def d(2))
    ultimately show ?thesis unfolding goes_def by blast
  qed
qed

lemma goes_Unreserve:
  assumes r: "prepared hash zv c p F S w b eff ix (Unreserve i res)"
  shows "goes hash zv c p F S w b eff ix (Unreserve i res)"
proof -
  note d = preparedD [OF r]
  have "trying ix b i" using d(4) by simp
  then have "getSlotState (hdr ix b) (int i) = SlotTrying"
    using slot_state_cases(2) [of i "hdr ix b"] by (simp add: trying_def)
  then show ?thesis
    by (intro goes_read [OF r, where q' = "UnreserveVal (hdr ix b) i res"])
      (use memOkD(6) [OF d(1,3)] d(4,5) in
        \<open>simp_all add: d(2) load_header [OF d(3)] answerInv_def commits_def\<close>)
qed

lemma goes_UnreserveCAS:
  assumes r: "prepared hash zv c p F S w b eff ix (UnreserveCAS h i res)"
  shows "goes hash zv c p F S w b eff ix (UnreserveCAS h i res)"
proof -
  note d = preparedD [OF r]
  let ?h1 = "setSlotStateAndVersion h (int i) SlotInvalid"
  obtain ix' where st: "storeHeader ix b ?h1 = Some ix'"
    "atomicCASHeader ix b h ?h1 = Some (if hdr ix b = h then (True, ix') else (False, ix))"
    by (rule CAS_header [OF d(3)])
  have eff: "eff = None" using d(5) by (simp add: answerInv_def)
  show ?thesis
  proof (cases "hdr ix b = h")
    case False
    show ?thesis
      by (rule goes_read [OF r, where q' = "Unreserve i res"])
        (use st(2) False d(4,5) in \<open>simp_all add: d(2) answerInv_def commits_def\<close>)
  next
    case True
    have t: "trying ix b i" "slotEnt ix b i = None" "existing S res" "isInsert c" using d(4) by simp_all
    have i: "i < 15" "slotRef ix b i \<noteq> None" using t(1) by (simp_all add: trying_def)
    note nv = trying_states [OF t(1)]
    have bits: "stHi ?h1 j = (if j = i then False else stHi (hdr ix b) j)"
      "stLo ?h1 j = (if j = i then False else stLo (hdr ix b) j)" if "j < 15" for j
      using that i(1) True by (simp_all add: stHi_setSlot stLo_setSlot)
    have bs: "getBinState ?h1 = getBinState (hdr ix b)" using i(1) True by (simp add: getBinState_setSlot)
    have hs: "headerStep (hdr ix b) ?h1" using headerStep_set [OF i(1)] True by simp
    have ch: "memOk hash ix'" "changes (Some (b, i)) p ix ix'"
      "\<And>b' j. j < 15 \<Longrightarrow> vis ix' b' j = (if b' = b \<and> j = i then None else vis ix b' j)"
      "linkStep {} {} ix ix'"
      using changes_state [OF d(1,3) i st(1) hs bits bs] t(2) nv by simp_all
    have obs: "observed zv S c x" if x: "res = Some x" for x
    proof -
      obtain v where "x = (v, False)" "Some v \<in> S" using t(3) x by (cases x) (auto simp: existing_def)
      then show ?thesis
        using t(4) unfolding observed_def by (intro bexI [of _ "Some v"]; cases c) (auto simp: isInsert_def)
    qed
    show ?thesis
    proof (rule goes_write [OF r _ ch(1,2)])
      show "exec hash zv c p (UnreserveCAS h i res) ix = Some (afterUnreserve res, ix')"
        using st(2) True by (simp add: d(2))
      show "vis ix' b' j = vis ix b' j" if "inBin ix b'" "j < 15" for b' j
        using ch(3) [OF that(2), of b'] nv by (auto simp: vis_def)
    qed (use i obs ch(4) in \<open>auto simp: afterUnreserve_def answerInv_def eff commits_def split: option.splits\<close>)
  qed
qed

section \<open>Swapping an entry\<close>

lemma goes_Swap:
  assumes r: "prepared hash zv c p F S w b eff ix (Swap i rf e)"
  shows "goes hash zv c p F S w b eff ix (Swap i rf e)"
proof -
  note d = preparedD [OF r]
  let ?k = "keyOf c"
  have i: "i < 15" "slotRef ix b i = Some rf" "entryKey e = ?k" "good ix F b i e" "isUpdate c"
    using d(4) by simp_all
  have eff: "eff = None" using d(5) by (simp add: answerInv_def)
  obtain s where s: "slotIn ix b i = Some s" "slotEnt ix b i = Val s" "loadSlot ix rf = Some s"
    by (rule load_slot [OF d(1,3) i(1,2)], rule that)
  let ?x = "s\<lparr>Key := hash ?k, Val := swapIn p c\<rparr>"
  obtain ix' where st: "storeSlot ix rf ?x = Some ix'" using storeSlot_total [OF s(3)] by blast
  show ?thesis
  proof (cases "Key s = hash ?k \<and> samePtr (Val s) (Some e)")
    case False
    show ?thesis
      by (rule goes_read [OF r, where q' = "LoopHeader i rf"])
        (use False s(3) i eff in \<open>auto simp: DWCAS_def answerInv_def commits_def\<close>)
  next
    case True
    then obtain x where x: "Val s = Some x" "entryAddr x = entryAddr e" by (auto simp: samePtr_def)
    then have v: "Val s = Some e" "isValid ix b i" using i(4) s(2) by (auto simp: good_def)
    have vis: "vis ix b i = Some e" using v s(2) by (simp add: vis_def)
    have key: "entryKey e' = ?k" "entryAddr e' = p" if "swapIn p c = Some e'" for e'
      using that by (cases c; auto simp: newEntry_def)+
    have old: "absMap entryContent hash ix ?k = Some (entryValue e)"
      using contents_vis [OF d(1), of ?k] vis i(1,3) d(2) by auto
    have new: "slotEnt ix b i = Some e' \<or> entryAddr e' = p" if "Val ?x = Some e'" for e'
      using key(2) that by simp
    have same: "Val ?x = None \<or> (\<exists>e e'. slotEnt ix b i = Some e \<and> Val ?x = Some e' \<and>
        entryKey e' = entryKey e \<and> Key ?x = hash (entryKey e))"
      using key(1) v(1) s(2) i(3) by (cases "swapIn p c") auto
    have inv: "\<not> isInvalid ix b i" using v(2) by (simp add: isValid_def isInvalid_def)
    have ch: "memOk hash ix'" "changes (Some (b, i)) p ix ix'" "same_geometry ix ix'" "hdr ix' = hdr ix"
      "slotRef ix' = slotRef ix"
      "\<And>b' j. inBin ix b' \<Longrightarrow> j < 15 \<Longrightarrow> slotIn ix' b' j = (if b' = b \<and> j = i then Some ?x else slotIn ix b' j)"
      "linkStep {} {} ix ix'"
      using changes_slot [OF d(1,3) i(1,2) st new same inv] by blast+
    have vi: "vis ix' b' j = (if b' = b \<and> j = i then swapIn p c else vis ix b' j)"
      if "inBin ix b'" "j < 15" for b' j
      using ch(6) [OF that] isValid_frame [OF ch(4)] v(2) by (auto simp: vis_def slotEnt_def)
    have "absMap entryContent hash ix' =
        (absMap entryContent hash ix)(?k := map_option entryValue (vis ix' b i))"
      by (rule contents_update [OF d(1) ch(1,3) i(1) d(2) [symmetric]])
        (use vi d(3) i vis key in auto)
    then have con: "specCall zv c (absMap entryContent hash ix) =
        ((entryValue e, True), absMap entryContent hash ix')"
      using vi [OF d(3) i(1)] i(5) old by (cases c) (auto simp: found_def newEntry_def isUpdate_def)
    let ?q = "afterSwap c i e"
    have cm: "commits (Swap i rf e) ?q" by (cases c) (simp_all add: commits_def)
    have val': "isValid ix' b i" using v(2) isValid_frame [OF ch(4)] by simp
    have next_inv: "pcInv hash ix' w' F S c p b ?q" for w'
      using i(1,2,5) val' ch(5) ch(6) [OF d(3) i(1)]
      by (cases c) (auto simp: isUpdate_def slotEnt_def)
    have ans: "answerInv zv S c (Some (entryValue e, True)) ?q" "\<And>j. ownedSlot ?q = Some j \<Longrightarrow> j = i"
      "heldBy ?q = {}"
      by (cases c; auto simp: answerInv_def)+
    have "\<not> inCall ?q" if "swapIn p c = Some e'" for e'
      using that by (cases c) (auto simp: inCall_def)
    then have "vis ix b' j = Some e' \<or> \<not> inCall ?q \<and> entryAddr e' = p"
      if "inBin ix b'" "j < 15" "vis ix' b' j = Some e'" for b' j e'
      using that(3) vi [OF that(1,2)] key(2) by (auto split: if_splits)
    then have "stepOk hash zv c p F S w b eff ix (Swap i rf e) ?q ix'"
      unfolding stepOk_def Let_def con using ch(1,2,7) cm next_inv ans i(1) vis
      by (auto intro!: exI [of _ "Some (b, i)"])
    moreover have "exec hash zv c p (Swap i rf e) ix = Some (?q, ix')"
      using True s(3) st by (simp add: DWCAS_def)
    ultimately show ?thesis unfolding goes_def by blast
  qed
qed

section \<open>Marking a cleared slot\<close>

lemma version_clear:
  assumes "i < 15"
  shows "version (h AND NOT (push_bit (2 * i) 3)) = version h"
proof -
  have "drop_bit 32 (h AND NOT (push_bit (2 * i) 3)) = drop_bit 32 h"
    by (rule bit_word_eqI) (use assms in \<open>auto simp: bit_simps bit_3 dest: bit_imp_le_length\<close>)
  then show ?thesis by (simp add: version_def)
qed

lemma headerStep_clear:
  assumes "i < 15"
  shows "headerStep h (h AND NOT (push_bit (2 * i) 3))"
  using version_clear [OF assms, of h] by (auto simp: headerStep_def bit_and_iff)

lemma goes_Mark:
  assumes r: "prepared hash zv c p F S w b eff ix (Mark i res)"
  shows "goes hash zv c p F S w b eff ix (Mark i res)"
proof -
  note d = preparedD [OF r]
  let ?h1 = "hdr ix b AND NOT (push_bit (2 * i) 3)"
  have i: "i < 15" "slotRef ix b i \<noteq> None" "isValid ix b i" "slotEnt ix b i = None" using d(4) by auto
  have eff: "eff = Some res" using d(5) by (simp add: answerInv_def)
  obtain ix' where st: "storeHeader ix b ?h1 = Some ix'" by (rule CAS_header [OF d(3)])
  have bits: "stHi ?h1 j = (if j = i then False else stHi (hdr ix b) j)"
    "stLo ?h1 j = (if j = i then False else stLo (hdr ix b) j)" if "j < 15" for j
    using clearSlot_bits [OF i(1)] that by blast+
  have ch: "memOk hash ix'" "changes (Some (b, i)) p ix ix'"
    "\<And>b' j. j < 15 \<Longrightarrow> vis ix' b' j = (if b' = b \<and> j = i then None else vis ix b' j)"
    "linkStep {} {} ix ix'"
    using changes_state [OF d(1,3) i(1,2) st headerStep_clear [OF i(1)] bits clearSlot_bits(3) [OF i(1)]] i(4)
    by simp_all
  show ?thesis
  proof (rule goes_write [OF r _ ch(1,2)])
    show "exec hash zv c p (Mark i res) ix = Some (Done res, ix')"
      using st d(3) i(1) by (simp add: markSlotInvalid_def atomicAndHeader_def d(2) hdr_def)
    show "vis ix' b' j = vis ix b' j" if "inBin ix b'" "j < 15" for b' j
      using ch(3) [OF that(2), of b'] i(4) by (auto simp: vis_def)
  qed (use i(1) ch(4) in \<open>simp_all add: answerInv_def eff commits_def\<close>)
qed

section \<open>The loop of Put and Delete\<close>

lemma goes_LoopHeader:
  assumes r: "prepared hash zv c p F S w b eff ix (LoopHeader i rf)"
  shows "goes hash zv c p F S w b eff ix (LoopHeader i rf)"
proof -
  note d = preparedD [OF r]
  have i: "i < 15" using d(4) by simp
  let ?out = "getSlotState (hdr ix b) (int i) \<noteq> SlotValid \<or>
    (case c of CallDelete _ \<Rightarrow> getBinState (hdr ix b) \<noteq> BinNoTransfer | _ \<Rightarrow> False)"
  have ex: "exec hash zv c p (LoopHeader i rf) ix =
      Some (if ?out then Load0 else LoopKey (hdr ix b) i rf, ix)"
    by (simp add: d(2) load_header [OF d(3)])
  show ?thesis
    by (rule goes_read [OF r ex])
      (use d(4,5) slot_state_cases(3) [OF i, of "hdr ix b"] in \<open>auto simp: answerInv_def commits_def split: if_splits\<close>)
qed

lemma goes_LoopKey:
  assumes r: "prepared hash zv c p F S w b eff ix (LoopKey h i rf)"
  shows "goes hash zv c p F S w b eff ix (LoopKey h i rf)"
proof -
  note d = preparedD [OF r]
  have i: "i < 15" "slotRef ix b i = Some rf" using d(4) by simp_all
  obtain s where s: "slotIn ix b i = Some s" "loadSlotKey ix rf = Some (Key s)"
    by (rule load_slot [OF d(1,3) i], rule that)
  show ?thesis
    by (rule goes_read [OF r, where q' = "if Key s \<noteq> hash (keyOf c) then Load0 else LoopVal h i rf"])
      (use d(4,5) s(2) in \<open>auto simp: answerInv_def commits_def split: if_splits\<close>)
qed

lemma goes_LoopVal:
  assumes r: "prepared hash zv c p F S w b eff ix (LoopVal h i rf)"
  shows "goes hash zv c p F S w b eff ix (LoopVal h i rf)"
proof -
  note d = preparedD [OF r]
  have i: "i < 15" "slotRef ix b i = Some rf" using d(4) by simp_all
  obtain s where s: "slotIn ix b i = Some s" "slotEnt ix b i = Val s" "atomicLoadSlotVal ix rf = Some (Val s)"
    by (rule load_slot [OF d(1,3) i], rule that)
  let ?q = "case candidateFor (keyOf c) (Val s) of None \<Rightarrow> Load0 | Some e \<Rightarrow> LoopCheck h i rf e"
  have inv: "pcInv hash ix w F S c p b ?q"
    using d(4) s(2) found_good(2) [OF r i(1)] by (auto simp: candidateFor_Some split: option.splits)
  show ?thesis
    by (rule goes_read [OF r _ inv])
      (use d(5) s(3) in \<open>auto simp: answerInv_def commits_def split: option.splits\<close>)
qed

lemma goes_LoopCheck:
  assumes r: "prepared hash zv c p F S w b eff ix (LoopCheck h i rf e)"
  shows "goes hash zv c p F S w b eff ix (LoopCheck h i rf e)"
proof -
  note d = preparedD [OF r]
  have ex: "exec hash zv c p (LoopCheck h i rf e) ix =
      Some (if hdr ix b \<noteq> h then LoopHeader i rf else LoopAgain h i rf e, ix)"
    by (simp add: d(2) load_header [OF d(3)])
  show ?thesis
    by (rule goes_read [OF r ex]) (use d(4,5) in \<open>auto simp: answerInv_def commits_def split: if_splits\<close>)
qed

lemma goes_LoopAgain:
  assumes r: "prepared hash zv c p F S w b eff ix (LoopAgain h i rf e)"
  shows "goes hash zv c p F S w b eff ix (LoopAgain h i rf e)"
proof -
  note d = preparedD [OF r]
  have i: "i < 15" "slotRef ix b i = Some rf" using d(4) by simp_all
  obtain s where s: "slotIn ix b i = Some s" "atomicLoadSlotVal ix rf = Some (Val s)"
    by (rule load_slot [OF d(1,3) i], rule that)
  show ?thesis
    by (rule goes_read [OF r, where q' = "if \<not> samePtr (Val s) (Some e) then LoopHeader i rf else Swap i rf e"])
      (use d(4,5) s(2) in \<open>auto simp: answerInv_def commits_def split: if_splits\<close>)
qed

section \<open>Every access\<close>

lemmas goes_simple = goes_Load0 goes_Load2 goes_Keys goes_LoadLinks goes_Again goes_Choose goes_Choosing goes_Reserve
  goes_SlotPtr goes_WriteKey goes_WriteVal goes_Finalize goes_Unreserve goes_UnreserveVal
  goes_UnreserveCAS goes_Swap goes_Mark goes_LoopHeader goes_LoopKey goes_LoopVal goes_LoopCheck
  goes_LoopAgain

theorem goes_all:
  assumes "prepared hash zv c p F S w b eff ix q" "inCall q" "q \<noteq> Grow"
  shows "goes hash zv c p F S w b eff ix q"
proof (cases q)
  case (Vals h hits rest own)
  show ?thesis
  proof (cases hits)
    case Nil
    with assms(1) show ?thesis unfolding Vals by (simp add: goes_Vals_none)
  next
    case (Cons ir hits')
    with assms(1) show ?thesis unfolding Vals by (cases ir) (simp add: goes_Vals_hit)
  qed
qed (use assms goes_simple in \<open>auto simp: inCall_def\<close>)

end
