(* ===== verification/Linearize.thy ===== *)
theory Linearize
  imports InterleaveWrite
begin

text \<open>
  The invariant of all goroutines together (\<open>concInv\<close>), kept by every step of every
  interleaving; with it, the properties of reachable states.
\<close>

section \<open>The invariant\<close>

text \<open>No running call owns the address of \<open>e\<close>.\<close>

definition foreign :: "('k, 'b) conc \<Rightarrow> ('k, 'b) Entry \<Rightarrow> bool" where
  "foreign s e \<longleftrightarrow> entryAddr e < nextp s \<and>
     (\<forall>u. inCall (place (gor s u)) \<longrightarrow> ownAddr (gor s u) \<noteq> entryAddr e)"

definition binFor :: "('k \<Rightarrow> 64 word) \<Rightarrow> ('k, 'b) conc \<Rightarrow> nat \<Rightarrow> 64 word" where
  "binFor hash s t = binOf (mem s) (hash (keyOf (doing (gor s t))))"

definition routineInv :: "('k \<Rightarrow> 64 word) \<Rightarrow> 'b \<Rightarrow> ('k, 'b) conc \<Rightarrow> nat \<Rightarrow> bool" where
  "routineInv hash zv s t \<longleftrightarrow>
     pcInv hash (mem s) (writes s) (foreign s) (seen s t) (doing (gor s t)) (ownAddr (gor s t))
       (binFor hash s t) (place (gor s t)) \<and>
     answerInv zv (seen s t) (doing (gor s t)) (effect s t) (place (gor s t)) \<and>
     (inCall (place (gor s t)) \<longrightarrow>
        contents hash s (keyOf (doing (gor s t))) \<in> seen s t \<and> ownAddr (gor s t) < nextp s)"

definition apart :: "('k \<Rightarrow> 64 word) \<Rightarrow> ('k, 'b) conc \<Rightarrow> nat \<Rightarrow> nat \<Rightarrow> bool" where
  "apart hash s t u \<longleftrightarrow>
     (inCall (place (gor s t)) \<and> inCall (place (gor s u)) \<longrightarrow> ownAddr (gor s t) \<noteq> ownAddr (gor s u)) \<and>
     (\<forall>i. ownedSlot (place (gor s t)) = Some i \<and> ownedSlot (place (gor s u)) = Some i \<longrightarrow>
        binFor hash s t \<noteq> binFor hash s u) \<and>
     heldBy (place (gor s t)) \<inter> heldBy (place (gor s u)) = {}"

definition concInv :: "('k \<Rightarrow> 64 word) \<Rightarrow> 'b \<Rightarrow> ('k, 'b) conc \<Rightarrow> bool" where
  "concInv hash zv s \<longleftrightarrow> memOk hash (mem s) \<and> writesOk (mem s) (writes s) \<and>
     (\<forall>t. routineInv hash zv s t) \<and> (\<forall>t u. t \<noteq> u \<longrightarrow> apart hash s t u) \<and>
     (\<forall>b i e. inBin (mem s) b \<and> i < 15 \<and> vis (mem s) b i = Some e \<longrightarrow> foreign s e)"

lemma concInvD:
  assumes "concInv hash zv s"
  shows "memOk hash (mem s)" "writesOk (mem s) (writes s)" "routineInv hash zv s t"
    "t \<noteq> u \<Longrightarrow> apart hash s t u" "inBin (mem s) (binFor hash s t)"
    "inBin (mem s) b \<Longrightarrow> i < 15 \<Longrightarrow> vis (mem s) b i = Some e \<Longrightarrow> foreign s e"
proof -
  show m: "memOk hash (mem s)" using assms by (simp add: concInv_def)
  show "inBin (mem s) (binFor hash s t)" unfolding binFor_def by (rule binOf_in [OF memOkD(3) [OF m]])
qed (use assms in \<open>simp_all add: concInv_def\<close>)

lemma apart_sym: "apart hash s t u \<Longrightarrow> apart hash s u t"
  by (auto simp: apart_def)

lemma prepared_conc:
  assumes "concInv hash zv s" "inCall (place (gor s t))"
  shows "prepared hash zv (doing (gor s t)) (ownAddr (gor s t)) (foreign s) (seen s t) (writes s)
    (binFor hash s t) (effect s t) (mem s) (place (gor s t))"
  using concInvD(1) [OF assms(1)] concInvD(3) [OF assms(1), of t] concInvD(6) [OF assms(1)] assms(2)
  unfolding prepared_def routineInv_def contents_def by (auto simp: binFor_def)

lemma routineD:
  assumes "routineInv hash zv s t"
  shows "pcInv hash (mem s) (writes s) (foreign s) (seen s t) (doing (gor s t)) (ownAddr (gor s t))
    (binFor hash s t) (place (gor s t))"
  using assms unfolding routineInv_def by blast

section \<open>The initial state\<close>

lemma quiet_memOk:
  assumes "quiet hash s"
  shows "memOk hash (mem s)"
proof -
  let ?ix = "mem s"
  have st: "settled ?ix" and ew: "entries_wf entryContent hash (entryOk hash) ?ix"
    using assms by (simp_all add: quiet_def)
  have ent: "isValid ?ix b i" if "inBin ?ix b" "i < 15" "slotIn ?ix b i = Some x" "Val x = Some e" for b i x e
    using assms that unfolding quiet_def by blast
  have "slotEnt ?ix b i = None" if "inBin ?ix b" "i < 15" "isInvalid ?ix b i" for b i
  proof (rule ccontr)
    assume "slotEnt ?ix b i \<noteq> None"
    then obtain x e where "slotIn ?ix b i = Some x" "Val x = Some e"
      by (auto simp: slotEnt_def split: option.splits)
    then show False using ent [OF that(1,2)] that(3) by (simp add: isValid_def isInvalid_def)
  qed
  moreover have "Key x = hash (entryKey e) \<and> binOf ?ix (hash (entryKey e)) = b"
    if "inBin ?ix b" "i < 15" "isValid ?ix b i" "slotIn ?ix b i = Some x" "Val x = Some e" for b i x e
  proof -
    have "view ?ix b i = Some x" using that by (simp add: view_def)
    from entries_wfD [OF ew that(1) this] show ?thesis using that(5) by (auto simp: entryOk_def entryContent_def)
  qed
  moreover have "i = j" if "inBin ?ix b" "i < 15" "j < 15" "vis ?ix b i = Some e" "vis ?ix b j = Some e'"
    "entryKey e = entryKey e'" for b i j e e'
    using entries_unique [OF ew that(1), of i "entryKey e" "entryValue e" j "entryValue e'"] that
    by (simp add: slotEntry_vis)
  moreover have "\<exists>b i. inBin ?ix b \<and> i < 15 \<and> slotRef ?ix b i = Some r"
    if "loadSlot ?ix r = Some x" "Val x \<noteq> None" for r x
    using assms that unfolding quiet_def by blast
  ultimately show ?thesis
    unfolding memOk_def using st by (intro conjI) (blast | simp add: settled_def)+
qed

lemma quiet_concInv:
  assumes "quiet hash s"
  shows "concInv hash zv s"
proof -
  have idle: "place (gor s t) = Idle" for t using assms by (simp add: quiet_def)
  have "foreign s e" if "inBin (mem s) b" "i < 15" "vis (mem s) b i = Some e" for b i e
    using assms that vis_Some [OF that(3)] unfolding quiet_def foreign_def idle by (auto simp: inCall_def)
  then show ?thesis
    unfolding concInv_def using quiet_memOk [OF assms] assms
    by (auto simp: routineInv_def apart_def idle inCall_def answerInv_def quiet_def writesOk_def)
qed

section \<open>Steps\<close>

lemma pcInv_mono:
  assumes ok: "writesOk ix w" "inBin ix b" and F: "\<And>e. F e \<Longrightarrow> F' e \<and> entryAddr e \<noteq> p"
    and "pcInv hash ix w F S c q b pt" "S \<subseteq> S'"
  shows "pcInv hash ix w F' S' c q b pt"
proof -
  have "elsewhere None {} p ix ix w F F' b" using ok F by (simp add: elsewhere_def linkStep_same)
  from st_pcInv [OF this assms(4,5)] show ?thesis by simp
qed

lemma answerInv_mono: "answerInv zv S c eff q \<Longrightarrow> S \<subseteq> S' \<Longrightarrow> answerInv zv S' c eff q"
  by (auto simp: answerInv_def observed_def split: pc.splits option.splits)

text \<open>An owned slot is in use and shows no entry.\<close>

lemma owned_hidden:
  assumes "pcInv hash ix w F S c p b q" "ownedSlot q = Some i"
  shows "i < 15 \<and> \<not> isInvalid ix b i \<and> vis ix b i = None"
proof -
  have "trying ix b i \<or> i < 15 \<and> isValid ix b i \<and> slotEnt ix b i = None"
    using assms by (cases q) (auto simp: ownOk_def filled_def)
  then show ?thesis
    using trying_states [of ix b i] by (auto simp: vis_def isValid_def isInvalid_def)
qed

lemma begin_call_inv:
  assumes inv: "concInv hash zv s" and t: "\<not> inCall (place (gor s t))"
  shows "concInv hash zv (begin_call hash t c s)" (is "concInv hash zv ?s")
proof -
  have m: "mem ?s = mem s" "writes ?s = writes s" "nextp ?s = Suc (nextp s)"
    "gor ?s u = (if u = t then \<lparr>doing = c, ownAddr = nextp s, place = Load0\<rparr> else gor s u)" for u
    by (simp_all add: begin_call_def)
  have con: "contents hash ?s = contents hash s" by (simp add: contents_def m)
  have bin: "u \<noteq> t \<Longrightarrow> binFor hash ?s u = binFor hash s u" for u by (simp add: binFor_def m)
  have F: "foreign s e \<Longrightarrow> foreign ?s e \<and> entryAddr e \<noteq> nextp s" for e
    by (auto simp: foreign_def m inCall_def)
  have lt: "inCall (place (gor s u)) \<Longrightarrow> ownAddr (gor s u) < nextp s" for u
    using concInvD(3) [OF inv, of u] by (simp add: routineInv_def)
  have "routineInv hash zv ?s u" for u
  proof (cases "u = t")
    case True
    then show ?thesis
      unfolding routineInv_def con by (simp add: m) (simp add: begin_call_def answerInv_def)
  next
    case False
    have "pcInv hash (mem s) (writes s) (foreign ?s) (seen s u) (doing (gor s u)) (ownAddr (gor s u))
        (binFor hash s u) (place (gor s u))"
      by (rule pcInv_mono [OF concInvD(2,5) [OF inv] F routineD [OF concInvD(3) [OF inv]] subset_refl])
    moreover have "seen ?s u = seen s u" "effect ?s u = effect s u" using False by (simp_all add: begin_call_def)
    ultimately show ?thesis
      using concInvD(3) [OF inv, of u] False unfolding routineInv_def con bin [OF False] by (auto simp: m)
  qed
  moreover have "apart hash ?s u v" if "u \<noteq> v" for u v
    using concInvD(4) [OF inv that] bin [of u] bin [of v] lt [of u] lt [of v] that
    by (auto simp: apart_def m inCall_def)
  ultimately show ?thesis
    unfolding concInv_def using concInvD(1,2) [OF inv] concInvD(6) [OF inv] F by (auto simp: m)
qed

lemma access_Some:
  "access hash zv t s = Some s' \<longleftrightarrow>
     (\<exists>q ix. exec hash zv (doing (gor s t)) (ownAddr (gor s t)) (place (gor s t)) (mem s) = Some (q, ix) \<and>
        s' = finish_access hash t q ix s)"
  by (auto simp: access_def split: bind_splits)

lemma exec_inCall: "exec hash zv c p q ix = Some r \<Longrightarrow> inCall q \<and> q \<noteq> Grow"
  by (cases q) (auto simp: inCall_def)

lemma access_step:
  assumes inv: "concInv hash zv s" and call: "inCall (place (gor s t))" "place (gor s t) \<noteq> Grow"
  obtains q ix where
    "exec hash zv (doing (gor s t)) (ownAddr (gor s t)) (place (gor s t)) (mem s) = Some (q, ix)"
    "access hash zv t s = Some (finish_access hash t q ix s)"
    "stepOk hash zv (doing (gor s t)) (ownAddr (gor s t)) (foreign s) (seen s t) (writes s)
       (binFor hash s t) (effect s t) (mem s) (place (gor s t)) q ix"
proof -
  have "goes hash zv (doing (gor s t)) (ownAddr (gor s t)) (foreign s) (seen s t) (writes s)
    (binFor hash s t) (effect s t) (mem s) (place (gor s t))"
    by (rule goes_all [OF prepared_conc [OF inv call(1)] call])
  then show ?thesis using that unfolding goes_def access_Some by blast
qed

lemma commits_answer: "commits q q' \<Longrightarrow> answerInv zv S c (Some r) q' \<Longrightarrow> answerOf q' = Some r"
  by (auto simp: commits_def answerInv_def answerOf_def split: pc.splits)

lemma stepOkD:
  assumes "stepOk hash zv c p F S w b eff ix q q' ix'"
  shows "answerInv zv S c (if commits q q' then Some (fst (specCall zv c (absMap entryContent hash ix))) else eff) q'"
    "absMap entryContent hash ix' =
       (if commits q q' then snd (specCall zv c (absMap entryContent hash ix)) else absMap entryContent hash ix)"
  using assms unfolding stepOk_def Let_def by blast+

lemma access_inv:
  assumes inv: "concInv hash zv s" and call: "inCall (place (gor s t))"
    and ok: "stepOk hash zv (doing (gor s t)) (ownAddr (gor s t)) (foreign s) (seen s t) (writes s)
       (binFor hash s t) (effect s t) (mem s) (place (gor s t)) q ix"
    and wrap: "\<And>b. inBin (mem s) b \<Longrightarrow> countWrites (mem s) ix (writes s) b < 2 ^ 32"
  shows "concInv hash zv (finish_access hash t q ix s)" (is "concInv hash zv ?s")
proof -
  let ?c = "doing (gor s t)" and ?p = "ownAddr (gor s t)" and ?q = "place (gor s t)" and ?b = "binFor hash s t"
  obtain T where T: "changes T ?p (mem s) ix"
    "\<And>b' i. T = Some (b', i) \<Longrightarrow> b' = ?b \<and> i < 15 \<and>
       (ownedSlot ?q = Some i \<or> isInvalid (mem s) ?b i \<or> vis (mem s) ?b i \<noteq> None)"
    "\<And>i. ownedSlot q = Some i \<Longrightarrow> ownedSlot ?q = Some i \<or> T = Some (?b, i)"
    using ok unfolding stepOk_def by blast
  have ls: "linkStep (heldBy ?q) (heldBy q) (mem s) ix" using ok unfolding stepOk_def by blast
  then have ls0: "linkStep (heldBy ?q) {} (mem s) ix" by (simp add: linkStep_def)
  have k: "memOk hash ix" "pcInv hash ix (countWrites (mem s) ix (writes s)) (foreign s) (seen s t) ?c ?p ?b q"
    "\<And>b' i e. inBin (mem s) b' \<Longrightarrow> i < 15 \<Longrightarrow> vis ix b' i = Some e \<Longrightarrow>
       vis (mem s) b' i = Some e \<or> \<not> inCall q \<and> entryAddr e = ?p"
    using ok unfolding stepOk_def by blast+
  have m: "mem ?s = ix" "writes ?s = countWrites (mem s) ix (writes s)" "nextp ?s = nextp s"
    "gor ?s u = (if u = t then (gor s t)\<lparr>place := q\<rparr> else gor s u)"
    "seen ?s u = (if inCall (place (gor s u)) then insert (contents hash ?s (keyOf (doing (gor s u)))) (seen s u)
       else seen s u)"
    "effect ?s u = (if u = t \<and> commits ?q q then answerOf q else effect s u)" for u
    by (simp_all add: finish_access_def Let_def contents_def)
  have bin: "binFor hash ?s u = binFor hash s u" for u by (simp add: binFor_def m changesD(3) [OF T(1)])
  have ow: "writesOk ix (countWrites (mem s) ix (writes s))"
    by (rule writesOk_changes [OF concInvD(2) [OF inv] T(1) wrap])
  have calls: "inCall (place (gor ?s u)) \<Longrightarrow> inCall (place (gor s u))" for u using call by (auto simp: m split: if_splits)
  have F: "foreign ?s e \<and> entryAddr e \<noteq> ?p" if "foreign s e" for e
  proof -
    have "ownAddr (gor ?s u) \<noteq> entryAddr e" if "inCall (place (gor ?s u))" for u
      using \<open>foreign s e\<close> calls [OF that] by (auto simp: foreign_def m split: if_splits)
    then show ?thesis using that call by (auto simp: foreign_def m(3))
  qed
  have R: "routineInv hash zv s u" for u by (rule concInvD(3) [OF inv])
  have P: "pcInv hash (mem s) (writes s) (foreign s) (seen s u) (doing (gor s u)) (ownAddr (gor s u))
      (binFor hash s u) (place (gor s u))" for u by (rule routineD [OF R])
  have free: "T \<noteq> Some (binFor hash s u, i)" if "u \<noteq> t" "ownedSlot (place (gor s u)) = Some i" for u i
  proof
    assume T': "T = Some (binFor hash s u, i)"
    have "binFor hash s u = ?b" using T(2) [OF T'] by simp
    then show False
      using T(2) [OF T'] owned_hidden [OF P [of u] that(2)] concInvD(4) [OF inv that(1)] that(2)
      by (auto simp: apart_def)
  qed
  have held: "heldBy ?q \<inter> heldBy (place (gor s u)) = {}" if "u \<noteq> t" for u
    using concInvD(4) [OF inv that [symmetric]] by (simp add: apart_def)
  have "routineInv hash zv ?s u" for u
  proof (cases "u = t")
    case True
    have "pcInv hash ix (countWrites (mem s) ix (writes s)) (foreign ?s) (seen ?s t) ?c ?p ?b q"
      by (rule pcInv_mono [OF ow _ F k(2)]) (use concInvD(5) [OF inv, of t] changesD(2) [OF T(1)] in \<open>auto simp: m\<close>)
    note inv' = this
    have "answerInv zv (seen s t) ?c (if commits ?q q then answerOf q else effect s t) q"
    proof (cases "commits ?q q")
      case True
      then show ?thesis
        using stepOkD(1) [OF ok] commits_answer [OF True stepOkD(1) [OF ok, unfolded if_P [OF True]]] by simp
    qed (use stepOkD(1) [OF ok] in simp)
    moreover have sub: "seen s t \<subseteq> seen ?s t" using m(5) [of t] by auto
    ultimately have "answerInv zv (seen ?s t) ?c (effect ?s t) q"
      using answerInv_mono [OF _ sub, of zv ?c "effect ?s t" q] m(6) [of t] by simp
    with inv' show ?thesis
      using R [of t] call unfolding routineInv_def True bin by (auto simp: m)
  next
    case False
    have "elsewhere T (heldBy ?q) ?p (mem s) ix (writes s) (foreign s) (foreign ?s) (binFor hash s u)"
      unfolding elsewhere_def using T(1) ls0 concInvD(2,5) [OF inv] ow F by blast
    moreover have sub: "seen s u \<subseteq> seen ?s u" using m(5) [of u] by auto
    ultimately have "pcInv hash ix (countWrites (mem s) ix (writes s)) (foreign ?s) (seen ?s u) (doing (gor s u))
        (ownAddr (gor s u)) (binFor hash s u) (place (gor s u))"
      using st_pcInv [OF _ P] free [OF False] held [OF False] by blast
    note inv' = this
    have "answerInv zv (seen ?s u) (doing (gor s u)) (effect s u) (place (gor s u))"
      by (rule answerInv_mono [OF _ sub]) (use R [of u] in \<open>simp add: routineInv_def\<close>)
    with inv' show ?thesis
      using R [of u] False unfolding routineInv_def bin by (auto simp: m)
  qed
  moreover
  have mine: "apart hash ?s t u" if "u \<noteq> t" for u
  proof -
    have "\<not> (ownedSlot q = Some i \<and> ownedSlot (place (gor s u)) = Some i \<and> ?b = binFor hash s u)" for i
      using T(3) [of i] free [OF that, of i] concInvD(4) [OF inv that] by (auto simp: apart_def)
    moreover have "heldBy q \<inter> heldBy (place (gor s u)) = {}"
      using ls held [OF that] held_free [OF P [of u]] unfolding linkStep_def linkFree_def by fastforce
    ultimately show ?thesis
      using concInvD(4) [OF inv that] call that unfolding apart_def bin by (auto simp: m)
  qed
  have "apart hash ?s u v" if "u \<noteq> v" for u v
  proof (cases "u = t \<or> v = t")
    case True
    then show ?thesis using mine [of u] mine [of v] that apart_sym by metis
  next
    case False
    then show ?thesis using concInvD(4) [OF inv that] by (simp add: apart_def bin m)
  qed
  moreover have "foreign ?s e" if v: "inBin (mem s) b" "i < 15" "vis ix b i = Some e" for b i e
    using k(3) [OF v]
  proof
    assume "vis (mem s) b i = Some e"
    then show ?thesis using concInvD(6) [OF inv v(1,2)] F by blast
  next
    assume e: "\<not> inCall q \<and> entryAddr e = ?p"
    have "ownAddr (gor s u) \<noteq> ?p" if "inCall (place (gor s u))" "u \<noteq> t" for u
      using concInvD(4) [OF inv that(2)] that(1) call by (simp add: apart_def)
    then show ?thesis using e R [of t] call by (auto simp: foreign_def m routineInv_def)
  qed
  ultimately show ?thesis
    unfolding concInv_def using k(1) ow by (auto simp: m changesD(2) [OF T(1)])
qed

section \<open>Reachable states\<close>

lemma step_writes:
  assumes "step hash zv s e s'"
  shows "writes s b \<le> writes s' b"
  using assms by cases (auto simp: begin_call_def access_Some finish_access_def Let_def countWrites_def)

lemma step_inv:
  assumes st: "step hash zv s e s'" and inv: "concInv hash zv s"
    and wrap: "\<And>b. inBin (mem s) b \<Longrightarrow> writes s' b < 2 ^ 32"
  shows "concInv hash zv s' \<and> inBin (mem s') = inBin (mem s) \<and>
    specRun zv (map fst e) (contents hash s) = (map snd e, contents hash s')"
  using st
  proof cases
    case (start_call t c)
    have "contents hash (begin_call hash t c s) = contents hash s" "mem (begin_call hash t c s) = mem s"
      by (simp_all add: contents_def begin_call_def)
    then show ?thesis using start_call begin_call_inv [OF inv] by simp
  next
    case (run t)
    then obtain q0 ix0 where "exec hash zv (doing (gor s t)) (ownAddr (gor s t)) (place (gor s t)) (mem s) = Some (q0, ix0)"
      by (auto simp: access_Some)
    note call = exec_inCall [OF this]
    obtain q ix where a: "access hash zv t s = Some (finish_access hash t q ix s)"
      "stepOk hash zv (doing (gor s t)) (ownAddr (gor s t)) (foreign s) (seen s t) (writes s)
        (binFor hash s t) (effect s t) (mem s) (place (gor s t)) q ix"
      using access_step [OF inv] call by metis
    have s': "s' = finish_access hash t q ix s" using a(1) run(3) by simp
    have "countWrites (mem s) ix (writes s) b < 2 ^ 32" if "inBin (mem s) b" for b
      using wrap [OF that] by (simp add: s' finish_access_def Let_def)
    then have "concInv hash zv s'" unfolding s' using access_inv [OF inv _ a(2)] call by blast
    moreover have "specRun zv (map fst e) (contents hash s) = (map snd e, contents hash s')"
    proof (cases "commits (place (gor s t)) q")
      case True
      let ?r = "specCall zv (doing (gor s t)) (contents hash s)"
      have "answerOf q = Some (fst ?r)"
        using commits_answer [OF True stepOkD(1) [OF a(2), unfolded if_P [OF True]]] by (simp add: contents_def)
      moreover have "contents hash s' = snd ?r"
        using stepOkD(2) [OF a(2)] True by (simp add: contents_def s' finish_access_def Let_def)
      ultimately show ?thesis
        using True by (simp add: run(1) changeOf_def s' finish_access_def Let_def split: prod.split)
    next
      case False
      then have "contents hash s' = contents hash s"
        using stepOkD(2) [OF a(2)] by (simp add: contents_def s' finish_access_def Let_def)
      then show ?thesis using False by (simp add: run(1) changeOf_def s' finish_access_def Let_def)
    qed
    moreover obtain T where "changes T (ownAddr (gor s t)) (mem s) ix" using a(2) unfolding stepOk_def by blast
    then have "inBin (mem s') = inBin (mem s)"
      using changesD(2) [of T _ "mem s" ix] by (auto simp: s' finish_access_def Let_def)
    ultimately show ?thesis by blast
  qed


lemma specRun_append:
  "specRun zv (cs @ ds) M =
     (let (rs, M') = specRun zv cs M; (rs', M'') = specRun zv ds M' in (rs @ rs', M''))"
  by (induction cs arbitrary: M) (auto simp: Let_def split: prod.splits)

theorem reachable_inv:
  assumes q: "quiet hash s0" and r: "reachable hash zv s0 H s"
    and wrap: "\<And>b. inBin (mem s0) b \<Longrightarrow> writes s b < 2 ^ 32"
  shows "concInv hash zv s" "inBin (mem s) = inBin (mem s0)"
    "specRun zv (map fst H) (contents hash s0) = (map snd H, contents hash s)"
proof -
  have "concInv hash zv s \<and> inBin (mem s) = inBin (mem s0) \<and>
      specRun zv (map fst H) (contents hash s0) = (map snd H, contents hash s)"
    using r wrap
  proof (induction rule: reachable.induct)
    case start
    then show ?case using quiet_concInv [OF q] by simp
  next
    case (more H s e s')
    have IH: "concInv hash zv s" "inBin (mem s) = inBin (mem s0)"
      "specRun zv (map fst H) (contents hash s0) = (map snd H, contents hash s)"
      using more.IH more.prems step_writes [OF more.hyps(2)] by (meson le_less_trans)+
    have "concInv hash zv s' \<and> inBin (mem s') = inBin (mem s) \<and>
        specRun zv (map fst e) (contents hash s) = (map snd e, contents hash s')"
      by (rule step_inv [OF more.hyps(2) IH(1)]) (use more.prems IH(2) in simp)
    then show ?case using IH by (simp add: specRun_append Let_def)
  qed
  then show "concInv hash zv s" "inBin (mem s) = inBin (mem s0)"
    "specRun zv (map fst H) (contents hash s0) = (map snd H, contents hash s)" by simp_all
qed

end
