(* ===== verification/Schedules.thy ===== *)
theory Schedules
  imports Linearize NewIndex
begin

text \<open>
  Interleavings given as a list of goroutine numbers, which can be executed (\<open>play\<close>), and the
  state in which a new table is before the first call. The properties of interleavings are
  instantiated with them.
\<close>

section \<open>A new table\<close>

definition newConc :: "nat \<Rightarrow> ('k, 'b) conc" where
  "newConc n = \<lparr>mem = newIndex None (2 ^ n), gor = (\<lambda>t. \<lparr>doing = undefined, ownAddr = 0, place = Idle\<rparr>),
     nextp = 0, writes = (\<lambda>b. 0), seen = (\<lambda>t. {}), effect = (\<lambda>t. None)\<rparr>"

lemma newIndex_slots: "loadSlot (newIndex zv k) r = Some x \<Longrightarrow> Val x = zv"
  by (cases r)
    (auto simp: getBinByIndex_def getLinkBucket_def slotAt_def linkSlotAt_def nth_opt_Some newIndex_def
      zeroPrimaryBucket_def zeroLinkBucket_def zeroSlot_def Let_def split: bind_splits if_splits)

lemma newConc_quiet:
  assumes "n \<le> 33"
  shows "quiet hash (newConc n)"
proof -
  note s = newIndex_settled(1,2) [OF assms]
  have "Val x = None" if "slotIn (newIndex None (2 ^ n)) b i = Some x" for b i and x :: "('k, 'b) EntryPtr Slot"
    using newIndex_slots that by (auto simp: slotIn_def split: bind_splits)
  then show ?thesis
    using s newIndex_reads(1) newIndex_slots
    unfolding quiet_def newConc_def by (fastforce simp: version_def)
qed

section \<open>Executing an interleaving\<close>

fun play ::
  "('k \<Rightarrow> 64 word) \<Rightarrow> 'b \<Rightarrow> nat \<Rightarrow> nat list \<Rightarrow> (('k, 'b) call \<times> ('k, 'b) pc) list \<times> ('k, 'b) EntryPtr index \<Rightarrow>
     ((('k, 'b) call \<times> ('k, 'b) pc) list \<times> ('k, 'b) EntryPtr index) option" where
  "play hash zv p [] st = Some st"
| "play hash zv p (t # ts) (ps, ix) =
     (if t < length ps
      then do {
        (q, ix') \<leftarrow> exec hash zv (fst (ps ! t)) (p + t) (snd (ps ! t)) ix;
        (case q of Grow \<Rightarrow> None | _ \<Rightarrow> play hash zv p ts (ps[t := (fst (ps ! t), q)], ix')) }
      else None)"

definition plays :: "nat \<Rightarrow> (('k, 'b) call \<times> ('k, 'b) pc) list \<times> ('k, 'b) EntryPtr index \<Rightarrow> ('k, 'b) conc \<Rightarrow> bool" where
  "plays p st s \<longleftrightarrow> mem s = snd st \<and>
     (\<forall>t < length (fst st). gor s t = \<lparr>doing = fst (fst st ! t), ownAddr = p + t, place = snd (fst st ! t)\<rparr>) \<and>
     (\<forall>t < length (fst st). snd (fst st ! t) \<noteq> Grow) \<and>
     (\<forall>t \<ge> length (fst st). place (gor s t) = Idle)"

lemma play_reachable:
  assumes "reachable hash zv s0 H s" "plays p st s" "play hash zv p ts st = Some st'"
  shows "\<exists>H' s'. reachable hash zv s0 H' s' \<and> plays p st' s' \<and> (\<forall>b. writes s' b \<le> writes s b + length ts) \<and>
    map fst (fst st') = map fst (fst st)"
  using assms
proof (induction ts arbitrary: st H s)
  case Nil
  then show ?case by auto
next
  case (Cons t ts)
  obtain ps ix where st: "st = (ps, ix)" by (cases st)
  obtain q ix' where t: "t < length ps"
    and ex: "exec hash zv (fst (ps ! t)) (p + t) (snd (ps ! t)) ix = Some (q, ix')" and "q \<noteq> Grow"
    and rest: "play hash zv p ts (ps[t := (fst (ps ! t), q)], ix') = Some st'"
    using Cons.prems(3) by (auto simp: st split: if_splits bind_splits pc.splits)
  have g: "gor s t = \<lparr>doing = fst (ps ! t), ownAddr = p + t, place = snd (ps ! t)\<rparr>" "mem s = ix"
    using Cons.prems(2) t unfolding plays_def st by (auto dest!: spec [of _ t])
  let ?s = "finish_access hash t q ix' s"
  have "access hash zv t s = Some ?s" using ex by (simp add: access_def g)
  moreover have ng: "place (gor s u) \<noteq> Grow" for u
    using Cons.prems(2) unfolding plays_def st by (cases "u < length ps") (auto simp: not_less dest!: spec [of _ u])
  ultimately have r: "reachable hash zv s0 (H @ changeOf t s ?s) ?s"
    using Cons.prems(1) by (intro reachable.more [OF _ step.run]) auto
  have m: "gor ?s u = (if u = t then (gor s t)\<lparr>place := q\<rparr> else gor s u)" "mem ?s = ix'" for u
    by (simp_all add: finish_access_def Let_def)
  have "plays p (ps[t := (fst (ps ! t), q)], ix') ?s"
    using Cons.prems(2) t \<open>q \<noteq> Grow\<close> g unfolding plays_def st by (auto simp: m nth_list_update)
  from Cons.IH [OF r this rest] obtain H' s' where
    "reachable hash zv s0 H' s'" "plays p st' s'" "\<forall>b. writes s' b \<le> writes ?s b + length ts"
    "map fst (fst st') = map fst (ps[t := (fst (ps ! t), q)])" by auto
  moreover have "writes ?s b \<le> writes s b + 1" for b
    by (simp add: finish_access_def Let_def countWrites_def)
  ultimately show ?case
    using t by (intro exI [of _ H'] exI [of _ s'])
      (auto simp: st map_update list_update_same_conv intro: order_trans add_mono)
qed

lemma start_calls:
  "\<exists>s. reachable hash zv (newConc n) [] s \<and> plays 0 (map (\<lambda>c. (c, Load0)) cs, newIndex None (2 ^ n)) s \<and>
     nextp s = length cs \<and> (\<forall>b. writes s b = 0)"
proof (induction cs rule: rev_induct)
  case Nil
  show ?case
    by (rule exI [of _ "newConc n"]) (simp add: reachable.start plays_def, simp add: newConc_def)
next
  case (snoc c cs)
  then obtain s where s: "reachable hash zv (newConc n) [] s"
    "plays 0 (map (\<lambda>c. (c, Load0)) cs, newIndex None (2 ^ n)) s" "nextp s = length cs" "\<forall>b. writes s b = 0"
    by blast
  let ?t = "length cs" let ?s = "begin_call hash ?t c s"
  have "place (gor s u) \<noteq> Grow" "place (gor s ?t) = Idle" for u
    using s(2) unfolding plays_def by (cases "u < ?t"; auto simp: not_less dest!: spec [of _ u])+
  then have "step hash zv s [] ?s" by (intro step.start_call) (simp_all add: inCall_def)
  from reachable.more [OF s(1) this] have r: "reachable hash zv (newConc n) [] ?s" by simp
  have m: "gor ?s u = (if u = ?t then \<lparr>doing = c, ownAddr = ?t, place = Load0\<rparr> else gor s u)" "mem ?s = mem s" for u
    using s(3) by (simp_all add: begin_call_def)
  have g: "gor s u = \<lparr>doing = cs ! u, ownAddr = u, place = Load0\<rparr>" if "u < ?t" for u
    using s(2) that unfolding plays_def by (auto dest!: spec [of _ u])
  have "plays 0 (map (\<lambda>c. (c, Load0)) (cs @ [c]), newIndex None (2 ^ n)) ?s"
    using s(2) unfolding plays_def by (auto simp: m nth_append g less_Suc_eq)
  then show ?case using r s(3,4) by (intro exI [of _ ?s]) (simp add: begin_call_def)
qed

text \<open>Every interleaving that can be played from a new table is reachable.\<close>

lemma play_new:
  assumes "play hash zv 0 ts (map (\<lambda>c. (c, Load0)) cs, newIndex None (2 ^ n)) = Some (ps, ix)"
  obtains H s where "reachable hash zv (newConc n) H s" "mem s = ix"
    "\<And>t. t < length cs \<Longrightarrow> doing (gor s t) = cs ! t \<and> place (gor s t) = snd (ps ! t)"
    "\<And>b. writes s b \<le> length ts" "\<And>t. length cs \<le> t \<Longrightarrow> place (gor s t) = Idle"
proof -
  obtain s1 where s1: "reachable hash zv (newConc n) [] s1"
    "plays 0 (map (\<lambda>c. (c, Load0)) cs, newIndex None (2 ^ n)) s1" "\<forall>b. writes s1 b = 0"
    using start_calls [of hash zv n cs] by metis
  from play_reachable [OF s1(1,2) assms] obtain H s where s: "reachable hash zv (newConc n) H s"
    "plays 0 (ps, ix) s" "\<forall>b. writes s b \<le> writes s1 b + length ts" "map fst ps = cs"
    by (auto simp: comp_def)
  have "doing (gor s t) = cs ! t \<and> place (gor s t) = snd (ps ! t)" if "t < length cs" for t
  proof -
    have "length ps = length cs" "fst (ps ! t) = cs ! t" using s(4) that by auto
    then show ?thesis using s(2) that unfolding plays_def by (auto dest!: spec [of _ t])
  qed
  moreover have "writes s b \<le> length ts" for b
    using s(3) s1(3) by (metis add_0)
  moreover have "length ps = length cs" using s(4) by (metis length_map)
  ultimately show ?thesis using s(1,2) by (intro that [of H s]) (simp_all add: plays_def)
qed

section \<open>A race\<close>

text \<open>
  Two insertions and a deletion of the same key on a table of one bin; the hash function is the
  identity. In \<open>raceHalf\<close> both insertions have searched in vain and reserved a slot. In
  \<open>raceDone\<close> the second publishes its slot first, the first one finds it and releases its own,
  and the deletion follows.
\<close>

definition raceCalls :: "(64 word, nat) call list" where
  "raceCalls = [CallInsert 5 7, CallInsert 5 8, CallDelete 5]"

definition raceHalf :: "nat list" where
  "raceHalf = replicate 10 0 @ replicate 10 1"

definition racePublished :: "nat list" where
  "racePublished = raceHalf @ replicate 4 1"

definition raceDone :: "nat list" where
  "raceDone = racePublished @ replicate 14 0 @ replicate 9 2"

definition race ::
  "nat list \<Rightarrow> (((64 word, nat) call \<times> (64 word, nat) pc) list \<times> (64 word, nat) EntryPtr index) option" where
  "race ts = play (\<lambda>k. k) 0 0 ts (map (\<lambda>c. (c, Load0)) raceCalls, newIndex None (2 ^ 0))"

lemma race_steps:
  "map_option (map snd \<circ> fst) (race raceHalf) =
     Some [SlotPtr 0x100000001 0, SlotPtr 0x200000005 1, Load0]"
  "map_option (\<lambda>st. vis (snd st) 0 1) (race racePublished) =
     Some (Some \<lparr>entryAddr = 1, entryKey = 5, entryValue = 8\<rparr>)"
  "map_option (map snd \<circ> fst) (race raceDone) =
     Some [Done (8, False), Done (0, True), Done (8, True)]"
  by code_simp+

lemma race_reached:
  assumes "race ts = Some (ps, ix)"
  obtains H s where "reachable (\<lambda>k. k) 0 (newConc 0) H s" "mem s = ix"
    "\<And>t. t < 3 \<Longrightarrow> doing (gor s t) = raceCalls ! t \<and> place (gor s t) = snd (ps ! t)"
    "\<And>b. writes s b \<le> length ts" "place (gor s 3) = Idle"
proof -
  have "length raceCalls = 3" by (simp add: raceCalls_def)
  then show ?thesis using play_new [OF assms [unfolded race_def]] that by (metis order_refl)
qed

lemma raceHalf_reached:
  obtains H s where "reachable (\<lambda>k. k) (0 :: nat) (newConc 0) H s" "\<And>b. writes s b < 20 + 1"
    "place (gor s 0) = SlotPtr 0x100000001 0" "place (gor s 1) = SlotPtr 0x200000005 1"
    "\<not> inCall (place (gor s 3))"
proof -
  obtain ps ix where r: "race raceHalf = Some (ps, ix)" "map snd ps = [SlotPtr 0x100000001 0, SlotPtr 0x200000005 1, Load0]"
    using race_steps(1) by auto
  have "snd (ps ! 0) = SlotPtr 0x100000001 0" "snd (ps ! 1) = SlotPtr 0x200000005 1"
    using r(2) by (auto simp: map_eq_Cons_conv)
  note s = this
  show ?thesis
  proof (rule race_reached [OF r(1)])
    fix H s assume a: "reachable (\<lambda>k. k) 0 (newConc 0) H s"
      "\<And>t. t < 3 \<Longrightarrow> doing (gor s t) = raceCalls ! t \<and> place (gor s t) = snd (ps ! t)"
      "\<And>b. writes s b \<le> length raceHalf" "place (gor s 3) = Idle"
    have "writes s b < 20 + 1" for b using a(3) [of b] by (simp add: raceHalf_def)
    then show ?thesis using that a(1,4) a(2) [of 0] a(2) [of 1] s by (simp add: inCall_def)
  qed
qed

lemma raceDone_reached:
  obtains H s where "reachable (\<lambda>k. k) (0 :: nat) (newConc 0) H s" "\<And>b. writes s b < 2 ^ 32"
    "place (gor s 0) = Done (8, False)" "doing (gor s 0) = CallInsert 5 7"
    "place (gor s 2) = Done (8, True)" "doing (gor s 2) = CallDelete 5"
proof -
  obtain ps ix where r: "race raceDone = Some (ps, ix)" "map snd ps = [Done (8, False), Done (0, True), Done (8, True)]"
    using race_steps(3) by auto
  have s: "snd (ps ! 0) = Done (8, False)" "snd (ps ! 2) = Done (8, True)"
    using r(2) by (auto simp: map_eq_Cons_conv)
  show ?thesis
  proof (rule race_reached [OF r(1)])
    fix H s assume a: "reachable (\<lambda>k. k) 0 (newConc 0) H s"
      "\<And>t. t < 3 \<Longrightarrow> doing (gor s t) = raceCalls ! t \<and> place (gor s t) = snd (ps ! t)"
      "\<And>b. writes s b \<le> length raceDone"
    have "writes s b < 2 ^ 32" for b
      using a(3) [of b] by (simp add: raceDone_def racePublished_def raceHalf_def)
    then show ?thesis using that a(1) a(2) [of 0] a(2) [of 2] s by (simp add: raceCalls_def)
  qed
qed

lemma racePublished_reached:
  obtains H s where "reachable (\<lambda>k. k) (0 :: nat) (newConc 0) H s" "\<And>b. writes s b < 2 ^ 32"
    "vis (mem s) 0 1 = Some \<lparr>entryAddr = 1, entryKey = 5, entryValue = 8\<rparr>"
proof -
  obtain ps ix where r: "race racePublished = Some (ps, ix)"
    "vis ix 0 1 = Some \<lparr>entryAddr = 1, entryKey = 5, entryValue = 8\<rparr>"
    using race_steps(2) by auto
  show ?thesis
  proof (rule race_reached [OF r(1)])
    fix H s assume a: "reachable (\<lambda>k. k) 0 (newConc 0) H s" "mem s = ix"
      "\<And>b. writes s b \<le> length racePublished"
    have "writes s b < 2 ^ 32" for b
      using a(3) [of b] by (simp add: racePublished_def raceHalf_def)
    then show ?thesis using that a(1,2) r(2) by simp
  qed
qed

end
