(* ===== verification/SoloRun.thy ===== *)
theory SoloRun
  imports Schedules
begin

text \<open>
  A goroutine that runs alone returns: \<open>rank\<close> bounds the accesses it still needs, and every
  access lowers it. A call that starts and is not interfered with makes at most 53 accesses.
\<close>

section \<open>The accesses left\<close>

text \<open>
  What a search still reads, and what follows it: at most 12 accesses if the header is still the
  one of the search, otherwise the call may start again (53 accesses).
\<close>

definition restCost :: "segment list option \<Rightarrow> nat" where
  "restCost rest = (case rest of None \<Rightarrow> 33 | Some segs \<Rightarrow> Suc (\<Sum>sg\<leftarrow>segs. 2 * length sg + 2))"

definition after :: "('k, 'b) EntryPtr index \<Rightarrow> 64 word \<Rightarrow> 64 word \<Rightarrow> nat" where
  "after ix b h = (if hdr ix b = h then 12 else 62)"

definition restart :: "('b \<times> bool) option \<Rightarrow> nat" where
  "restart res = (case res of None \<Rightarrow> 53 | Some _ \<Rightarrow> 0)"

fun chooseRank :: "64 word \<Rightarrow> 'v index \<Rightarrow> chooser \<Rightarrow> nat" where
  "chooseRank b ix ChooseHeader = 6"
| "chooseRank b ix (ChooseLinks h) = 5"
| "chooseRank b ix AllocLink = 4"
| "chooseRank b ix AllocPair = 4"
| "chooseRank b ix (AttachLoad pair l) = 3"
| "chooseRank b ix (AttachSwap pair l cur) = (if lmeta ix b = cur then 2 else 4)"
| "chooseRank b ix (Chosen i) = 0"

fun rank :: "64 word \<Rightarrow> ('k, 'b) EntryPtr index \<Rightarrow> ('k, 'b) pc \<Rightarrow> nat" where
  "rank b ix Load0 = 53"
| "rank b ix (Load2 i) = 53"
| "rank b ix (Keys h todo hits rest own) = 2 * length todo + length hits + 1 + restCost rest + after ix b h"
| "rank b ix (Vals h hits rest own) = length hits + restCost rest + after ix b h"
| "rank b ix (LoadLinks h own) = 32 + after ix b h"
| "rank b ix (Again h fnd own) =
     (if hdr ix b \<noteq> h then 54
      else case fnd of None \<Rightarrow> 1 | Some (i, r, e) \<Rightarrow> if slotEnt ix b i = Some e then 4 else 58)"
| "rank b ix (Choose h) = (if hdr ix b = h then 12 else 61)"
| "rank b ix (Choosing h cp) = (if hdr ix b = h then 5 else 54) + chooseRank b ix cp"
| "rank b ix (Reserve h i) = (if hdr ix b = h then 5 else 54)"
| "rank b ix (SlotPtr h i) = (if hdr ix b = h then 4 else 57)"
| "rank b ix (WriteKey h i r) = (if hdr ix b = h then 3 else 56)"
| "rank b ix (WriteVal h i r) = (if hdr ix b = h then 2 else 55)"
| "rank b ix (Finalize h i) = (if hdr ix b = h then 1 else 54)"
| "rank b ix (Unreserve i res) = restart res + 3"
| "rank b ix (UnreserveVal h i res) = restart res + (if hdr ix b = h then 2 else 5)"
| "rank b ix (UnreserveCAS h i res) = restart res + (if hdr ix b = h then 1 else 4)"
| "rank b ix (Swap i r e) = (if slotEnt ix b i = Some e then 2 else 57)"
| "rank b ix (Mark i res) = 1"
| "rank b ix (LoopHeader i r) = 56"
| "rank b ix (LoopKey h i r) = (if hdr ix b = h then 55 else 60)"
| "rank b ix (LoopVal h i r) = (if hdr ix b = h then 54 else 59)"
| "rank b ix (LoopCheck h i r e) = (if hdr ix b = h \<and> slotEnt ix b i = Some e then 4 else 58)"
| "rank b ix (LoopAgain h i r e) = (if slotEnt ix b i = Some e then 3 else 57)"
| "rank b ix q = 0"

section \<open>Every access lowers the rank\<close>

lemma storeSlot_hdr: "storeSlot ix r x = Some ix' \<Longrightarrow> hdr ix' = hdr ix"
  by (cases r) (auto simp: getBinByIndex_def nth_opt_Some hdr_def nth_list_update fun_eq_iff split: bind_splits)

lemma CAS_hdr:
  assumes "inBin ix b" "atomicCASHeader ix b h new = Some (ok, ix')"
  shows "ok = (hdr ix b = h)" "ok \<Longrightarrow> hdr ix' b = new" "\<not> ok \<Longrightarrow> ix' = ix"
proof -
  obtain ix1 where s: "storeHeader ix b new = Some ix1" "\<And>b'. hdr ix1 b' = (if b' = b then new else hdr ix b')"
    using storeHeader_effect [OF assms(1)] by metis
  have "atomicCASHeader ix b h new = Some (if hdr ix b = h then (True, ix1) else (False, ix))"
    using assms(1) s(1) by (simp add: atomicCASHeader_def hdr_def)
  then show "ok = (hdr ix b = h)" "ok \<Longrightarrow> hdr ix' b = new" "\<not> ok \<Longrightarrow> ix' = ix"
    using assms(2) s(2) by (auto split: if_splits)
qed

lemma CAS_some: "inBin ix b \<Longrightarrow> \<exists>ok ix1. atomicCASHeader ix b h new = Some (ok, ix1)"
  by (auto simp: atomicCASHeader_def storeHeader_def)

lemma segments_cost: "(\<Sum>sg\<leftarrow>linkSegmentsOf h lm. 2 * length sg + 2) \<le> 30"
  by (simp add: linkSegmentsOf_def bucketSegment_def Let_def)

lemma rank_afterMiss:
  "captured ix w b h \<Longrightarrow> rank b ix (afterMiss c h own) < Suc (after ix b h)"
  by (cases "(c, h, own)" rule: afterMiss.cases) (auto simp: after_def)

lemma rank_search:
  assumes r: "prepared hash zv c p F S w b eff ix q" and ex: "exec hash zv c p q ix = Some (q', ix')"
    and q: "q = Load0 \<or> q = Load2 i \<or> q = Keys h todo hits rest own \<or> q = Vals h hits rest own \<or> q = LoadLinks h own"
  shows "rank b ix' q' < rank b ix q"
proof -
  note d = preparedD [OF r]
  have bs: "getBinState (hdr ix b) = 0" by (rule memOkD(6) [OF d(1,3)])
  note ld = load_header [OF d(3)]
  have first: "rank b ix (Keys (hdr ix b) (primarySegment b) [] None own') < 53" for own'
    by (simp add: primarySegment_def restCost_def after_def)
  consider (load0) "q = Load0" | (load2) "q = Load2 i" | (keys) "q = Keys h todo hits rest own"
    | (vals) "q = Vals h hits rest own" | (links) "q = LoadLinks h own" using q by blast
  then show ?thesis
  proof cases
    case load0
    then show ?thesis using ex first by (auto simp: d(2) ld bs)
  next
    case load2
    then show ?thesis using ex first by (auto simp: d(2) ld bs)
  next
    case keys
    then show ?thesis
      using ex by (cases todo) (auto split: bind_splits)
  next
    case vals
    show ?thesis
    proof (cases hits)
      case Nil
      show ?thesis
      proof (cases "rest = Some []")
        case True
        then show ?thesis using ex rank_afterMiss [of ix w b h c own] d(4)
          by (auto simp: vals Nil restCost_def)
      next
        case False
        then show ?thesis using ex
          by (auto simp: vals Nil restCost_def split: option.splits list.splits)
      qed
    next
      case (Cons irf hits')
      obtain j rf where irf: "irf = (j, rf)" by (cases irf)
      have j: "j < 15" "slotRef ix b j = Some rf" using d(4) by (simp_all add: vals Cons irf)
      obtain s where s: "slotEnt ix b j = Val s" "atomicLoadSlotVal ix rf = Some (Val s)" "slotIn ix b j = Some s"
        by (rule load_slot [OF d(1,3) j], rule that)
      then show ?thesis
        using ex by (auto simp: vals Cons irf candidateFor_Some after_def restCost_def split: option.splits)
    qed
  next
    case links
    then obtain lm where "q' = Vals h [] (Some (linkSegmentsOf h lm)) own" "ix' = ix"
      using ex by (auto split: bind_splits)
    then show ?thesis using segments_cost [of h lm] links by (simp add: restCost_def)
  qed
qed

lemma rank_Again:
  assumes r: "prepared hash zv c p F S w b eff ix (Again h fnd own)"
    and ex: "exec hash zv c p (Again h fnd own) ix = Some (q', ix')"
  shows "rank b ix' q' < rank b ix (Again h fnd own)"
proof -
  note d = preparedD [OF r]
  have e: "ix' = ix" "q' = (if h = hdr ix b then afterMatch zv c fnd own else afterMismatch own)"
    using ex by (auto simp: d(2) load_header [OF d(3)])
  show ?thesis
  proof (cases "h = hdr ix b")
    case False
    then show ?thesis by (cases own) (simp_all add: e afterMismatch_def)
  next
    case True
    show ?thesis
      using True d(4)
      by (cases "(zv, c, fnd, own)" rule: afterMatch.cases) (auto simp: e restart_def isInsert_def)
  qed
qed

lemma chooseRank_step:
  assumes "inBin ix b" "chooseStep b cp ix = Some (cp', ix')" "\<And>i. cp' \<noteq> Chosen i"
  shows "chooseRank b ix' cp' < chooseRank b ix cp"
proof (cases cp)
  case (AttachSwap pair l cur)
  then show ?thesis
    using assms by (auto simp: atomicCASLinkMeta_def storeLinkMeta_def lmeta_def split: if_splits)
qed (use assms in \<open>auto simp: chooseFrom_def Let_def lmeta_def allocateLink_def allocateLinkPair_def
      split: bind_splits if_splits\<close>)

lemma rank_insert:
  assumes r: "prepared hash zv c p F S w b eff ix q" and ex: "exec hash zv c p q ix = Some (q', ix')"
    and q: "q = Choose h \<or> q = Choosing h cp \<or> q = Reserve h i \<or> q = SlotPtr h i \<or> q = WriteKey h i rf \<or> q = WriteVal h i rf \<or>
      q = Finalize h i \<or> q = Unreserve i res \<or> q = UnreserveVal h i res \<or> q = UnreserveCAS h i res"
  shows "rank b ix' q' < rank b ix q"
proof -
  note d = preparedD [OF r]
  note ld = load_header [OF d(3)]
  consider (choose) "q = Choose h" | (choosing) "q = Choosing h cp" | (reserve) "q = Reserve h i" | (ptr) "q = SlotPtr h i" | (key) "q = WriteKey h i rf"
    | (val) "q = WriteVal h i rf" | (fin) "q = Finalize h i" | (un) "q = Unreserve i res"
    | (uval) "q = UnreserveVal h i res" | (ucas) "q = UnreserveCAS h i res" using q by blast
  then show ?thesis
  proof cases
    case choose
    then show ?thesis using ex by (auto split: if_splits)
  next
    case choosing
    obtain cp' ix1 where p: "chooseStep b cp ix = Some (cp', ix1)"
      "cp' = Chosen (-1) \<or> links_extend ix ix1 \<and> wf_index ix1 \<and> alloc_ok ix1 \<and> chooseInv ix1 b h cp' \<and>
         linkStep (heldLinks cp) (heldLinks cp') ix ix1"
      by (rule chooseStep_ok [OF memOkD(1,2) [OF d(1)] d(3), of h cp]) (use d(4) choosing that in auto)
    have hd: "hdr ix1 = hdr ix" if "\<not> (\<exists>i<0. cp' = Chosen i)" using p(2) that by (auto simp: links_extend_def)
    have "chooseRank b ix1 cp' < chooseRank b ix cp" if "\<not> (\<exists>i. cp' = Chosen i)"
      using chooseRank_step [OF d(3) p(1)] that by simp
    moreover have "chooseRank b ix cp \<noteq> 0" using d(4) by (cases cp) (auto simp: choosing)
    moreover have "cp' = Chosen i \<and> (if i < 0 then q' = Grow else q' = Reserve h (nat i) \<and> ix' = ix1) \<or>
        (\<forall>i. cp' \<noteq> Chosen i) \<and> q' = Choosing h cp' \<and> ix' = ix1" if "cp' = Chosen i \<or> (\<forall>i. cp' \<noteq> Chosen i)" for i
      using ex p(1) that by (cases cp') (auto simp: choosing d(2) split: if_splits)
    ultimately show ?thesis
      using hd by (cases cp') (fastforce simp: choosing split: if_splits)+
  next
    case reserve
    obtain ok ix1 where a: "atomicCASHeader ix b h (setSlotStateAndVersion h (int i) SlotTrying) = Some (ok, ix1)"
      using CAS_some [OF d(3)] by blast
    then have "ix1 = ix'" "q' = (if ok then SlotPtr (setSlotStateAndVersion h (int i) SlotTrying) i else Load0)"
      using ex by (auto simp: reserve d(2) reserveSlot_def Let_def)
    note ok = a [unfolded this(1)] this(2)
    show ?thesis using CAS_hdr [OF d(3) ok(1)] by (cases ok) (simp_all add: ok(2) reserve)
  next
    case ptr
    have t: "trying ix b i" using d(4) by (simp add: ptr)
    then obtain rf where "slotRef ix b i = Some rf" by (auto simp: trying_def)
    then have "getSlotByIndex ix b (int i) = Some (Some rf)" by (rule getSlotByIndex_ref)
    then show ?thesis using ex by (auto simp: ptr d(2))
  next
    case key
    then show ?thesis
      using ex storeSlot_hdr by (fastforce simp: storeSlotKey_def split: bind_splits)
  next
    case val
    then show ?thesis
      using ex storeSlot_hdr by (fastforce simp: atomicStoreSlotVal_def split: bind_splits)
  next
    case fin
    obtain ok ix1 where a: "atomicCASHeader ix b h (setSlotStateAndVersion h (int i) SlotValid) = Some (ok, ix1)"
      using CAS_some [OF d(3)] by blast
    then have "ix1 = ix'" "q' = (if ok then Done (zv, True) else Load2 i)"
      using ex by (auto simp: fin d(2) finalizeSlot_def Let_def)
    note ok = a [unfolded this(1)] this(2)
    show ?thesis using CAS_hdr [OF d(3) ok(1)] by (cases ok) (simp_all add: ok(2) fin)
  next
    case un
    have "trying ix b i" using d(4) by (simp add: un)
    then have "getSlotState (hdr ix b) (int i) = SlotTrying"
      using slot_state_cases(2) [of i "hdr ix b"] by (simp add: trying_def)
    then show ?thesis using ex memOkD(6) [OF d(1,3)] by (auto simp: un d(2) ld)
  next
    case uval
    have t: "trying ix b i" using d(4) by (simp add: uval)
    then obtain rf where "slotRef ix b i = Some rf" by (auto simp: trying_def)
    then have "getSlotByIndex ix b (int i) = Some (Some rf)" by (rule getSlotByIndex_ref)
    then show ?thesis
      using ex storeSlot_hdr by (fastforce simp: uval d(2) atomicStoreSlotVal_def split: bind_splits)
  next
    case ucas
    obtain ok ix1 where a: "atomicCASHeader ix b h (setSlotStateAndVersion h (int i) SlotInvalid) = Some (ok, ix1)"
      using CAS_some [OF d(3)] by blast
    then have "ix1 = ix'" "q' = (if ok then afterUnreserve res else Unreserve i res)"
      using ex by (auto simp: ucas d(2) )
    note ok = a [unfolded this(1)] this(2)
    show ?thesis
      using CAS_hdr [OF d(3) ok(1)]
      by (cases ok; cases res) (simp_all add: ok(2) ucas afterUnreserve_def restart_def)
  qed
qed

lemma rank_update:
  assumes r: "prepared hash zv c p F S w b eff ix q" and ex: "exec hash zv c p q ix = Some (q', ix')"
    and q: "q = Swap i rf e \<or> q = Mark i res \<or> q = LoopHeader i rf \<or> q = LoopKey h i rf \<or> q = LoopVal h i rf \<or>
      q = LoopCheck h i rf e \<or> q = LoopAgain h i rf e"
  shows "rank b ix' q' < rank b ix q"
proof -
  note d = preparedD [OF r]
  note ld = load_header [OF d(3)]
  have ref: "\<exists>s. slotEnt ix b i = Val s \<and> slotIn ix b i = Some s \<and> loadSlot ix rf = Some s \<and>
      loadSlotKey ix rf = Some (Key s) \<and> atomicLoadSlotVal ix rf = Some (Val s)" if "\<forall>res. q \<noteq> Mark i res"
  proof -
    have "i < 15" "slotRef ix b i = Some rf" using q d(4) that by auto
    from load_slot [OF d(1,3) this] show ?thesis by metis
  qed
  consider (swap) "q = Swap i rf e" | (mark) "q = Mark i res" | (header) "q = LoopHeader i rf"
    | (key) "q = LoopKey h i rf" | (val) "q = LoopVal h i rf" | (check) "q = LoopCheck h i rf e"
    | (again) "q = LoopAgain h i rf e" using q by blast
  then show ?thesis
  proof cases
    case swap
    then obtain s where s: "slotEnt ix b i = Val s" "slotIn ix b i = Some s" "loadSlot ix rf = Some s"
      using ref by auto
    have "q' = LoopHeader i rf \<and> ix' = ix \<or> q' = afterSwap c i e"
      using ex s(3) by (auto simp: swap DWCAS_def split: bind_splits if_splits)
    then show ?thesis
    proof
      assume q': "q' = LoopHeader i rf \<and> ix' = ix"
      have "slotEnt ix b i \<noteq> Some e"
      proof
        assume e: "slotEnt ix b i = Some e"
        then have "isValid ix b i" "entryKey e = keyOf c" "i < 15" using d(4) by (auto simp: swap good_def)
        then have "Key s = hash (keyOf c)" using memOkD(8) [OF d(1,3) _ _ s(2), of e] e s(1) by simp
        moreover obtain ix1 where "storeSlot ix rf (s\<lparr>Key := hash (keyOf c), Val := swapIn p c\<rparr>) = Some ix1"
          using storeSlot_total [OF s(3)] by blast
        ultimately have "q' = afterSwap c i e"
          using ex s(3) e [unfolded s(1)] by (simp add: swap DWCAS_def samePtr_def)
        then show False using q' by (cases c) simp_all
      qed
      then show ?thesis using q' by (simp add: swap)
    next
      assume "q' = afterSwap c i e"
      then show ?thesis by (cases c) (auto simp: swap)
    qed
  next
    case mark
    then show ?thesis using ex by (auto split: bind_splits)
  next
    case header
    then show ?thesis using ex by (auto simp: d(2) ld)
  next
    case key
    then show ?thesis using ex ref by auto
  next
    case val
    then show ?thesis using ex ref by (auto simp: candidateFor_Some split: option.splits)
  next
    case check
    then show ?thesis using ex by (auto simp: d(2) ld)
  next
    case again
    then obtain v where s: "slotEnt ix b i = v" "atomicLoadSlotVal ix rf = Some v" using ref by auto
    have "samePtr v (Some e) \<longleftrightarrow> v = Some e"
      using d(4) s(1) by (auto simp: again samePtr_def good_def)
    then show ?thesis using ex s by (auto simp: again)
  qed
qed

theorem rank_step:
  assumes "prepared hash zv c p F S w b eff ix q" "exec hash zv c p q ix = Some (q', ix')"
  shows "rank b ix' q' < rank b ix q"
  using assms
proof (cases q)
  case (Again h fnd own)
  show ?thesis unfolding Again by (rule rank_Again [OF assms [unfolded Again]])
qed ((rule rank_search [OF assms] rank_insert [OF assms] rank_update [OF assms], blast) | use assms in simp)+

section \<open>Running alone\<close>

text \<open>Goroutine \<open>t\<close> makes accesses until it returns, at most \<open>n\<close>; all others stand still.\<close>

primrec alone ::
  "('k \<Rightarrow> 64 word) \<Rightarrow> 'b \<Rightarrow> nat \<Rightarrow> nat \<Rightarrow> ('k, 'b) conc \<Rightarrow> ('k, 'b) conc option" where
  "alone hash zv t 0 s = Some s"
| "alone hash zv t (Suc n) s =
     (if inCall (place (gor s t)) \<and> (case place (gor s t) of Grow \<Rightarrow> False | _ \<Rightarrow> True)
      then do { s' \<leftarrow> access hash zv t s; alone hash zv t n s' } else Some s)"

lemma not_Grow: "(case q of Grow \<Rightarrow> False | _ \<Rightarrow> True) \<longleftrightarrow> q \<noteq> Grow"
  by (cases q) simp_all

lemma afterMatch_not_Idle: "afterMatch zv c fnd own \<noteq> Idle"
  by (cases "(zv, c, fnd, own)" rule: afterMatch.cases) simp_all

lemma afterMiss_not_Idle: "afterMiss c h own \<noteq> Idle"
  by (cases "(c, h, own)" rule: afterMiss.cases) simp_all

lemma exec_not_Idle: "exec hash zv c p q ix = Some (q', ix') \<Longrightarrow> q' \<noteq> Idle"
  by (cases "(hash, zv, c, p, q, ix)" rule: exec.cases; cases c)
    (auto simp: Let_def afterMatch_not_Idle afterMiss_not_Idle afterMismatch_def afterUnreserve_def
      split: bind_splits if_splits option.splits list.splits chooser.splits)

text \<open>What the call has seen of the contents \<open>M\<close> it started with.\<close>

definition soloInv :: "('k \<Rightarrow> 64 word) \<Rightarrow> 'b \<Rightarrow> ('k, 'b) call \<Rightarrow> ('k \<Rightarrow> 'b option) \<Rightarrow> nat \<Rightarrow> ('k, 'b) conc \<Rightarrow> bool" where
  "soloInv hash zv c M t s \<longleftrightarrow> doing (gor s t) = c \<and> place (gor s t) \<noteq> Idle \<and>
     (case effect s t of
        None \<Rightarrow> contents hash s = M \<and> seen s t \<subseteq> {M (keyOf c)}
      | Some r \<Rightarrow> specCall zv c M = (r, contents hash s))"

lemma solo_access:
  assumes inv: "concInv hash zv s" and solo: "soloInv hash zv c M t s"
    and call: "inCall (place (gor s t))" "place (gor s t) \<noteq> Grow"
    and wrap: "\<And>b. inBin (mem s) b \<Longrightarrow> Suc (writes s b) < 2 ^ 32"
  obtains s' where "access hash zv t s = Some s'" "concInv hash zv s'" "soloInv hash zv c M t s'"
    "rank (binFor hash s' t) (mem s') (place (gor s' t)) < rank (binFor hash s t) (mem s) (place (gor s t))"
    "inBin (mem s') = inBin (mem s)" "\<And>b. writes s' b \<le> Suc (writes s b)"
proof -
  obtain q ix where a: "exec hash zv (doing (gor s t)) (ownAddr (gor s t)) (place (gor s t)) (mem s) = Some (q, ix)"
    "access hash zv t s = Some (finish_access hash t q ix s)"
    "stepOk hash zv (doing (gor s t)) (ownAddr (gor s t)) (foreign s) (seen s t) (writes s)
       (binFor hash s t) (effect s t) (mem s) (place (gor s t)) q ix"
    by (rule access_step [OF inv call])
  let ?s = "finish_access hash t q ix s"
  obtain T where T: "changes T (ownAddr (gor s t)) (mem s) ix" using a(3) unfolding stepOk_def by blast
  have m: "mem ?s = ix" "doing (gor ?s t) = doing (gor s t)" "place (gor ?s t) = q"
    "contents hash ?s = absMap entryContent hash ix" "contents hash s = absMap entryContent hash (mem s)"
    "seen ?s t = insert (contents hash ?s (keyOf (doing (gor s t)))) (seen s t)"
    "effect ?s t = (if commits (place (gor s t)) q then answerOf q else effect s t)"
    using call by (simp_all add: finish_access_def Let_def contents_def)
  have idle: "q \<noteq> Idle" using a(1) by (rule exec_not_Idle)
  have cw: "countWrites (mem s) ix (writes s) b \<le> Suc (writes s b)" for b by (simp add: countWrites_def)
  have "concInv hash zv ?s"
    by (rule access_inv [OF inv call(1) a(3)]) (use cw wrap le_less_trans in blast)
  moreover have "binFor hash ?s t = binFor hash s t" by (simp add: binFor_def m changesD(3) [OF T])
  then have "rank (binFor hash ?s t) (mem ?s) (place (gor ?s t)) < rank (binFor hash s t) (mem s) (place (gor s t))"
    using rank_step [OF prepared_conc [OF inv call(1)] a(1)] by (simp add: m)
  moreover have "soloInv hash zv c M t ?s"
  proof (cases "commits (place (gor s t)) q")
    case True
    have ans: "answerOf q = Some (fst (specCall zv c (contents hash s)))"
      using commits_answer [OF True stepOkD(1) [OF a(3), unfolded if_P [OF True]]] solo by (simp add: m(5) soloInv_def)
    have "answerInv zv (seen s t) (doing (gor s t)) (effect s t) (place (gor s t))"
      using concInvD(3) [OF inv, of t] by (simp add: routineInv_def)
    then have "effect s t = None" using True by (auto simp: commits_def answerInv_def split: pc.splits)
    then have "contents hash s = M" using solo by (simp add: soloInv_def)
    then show ?thesis
      using solo True ans stepOkD(2) [OF a(3)] idle by (simp add: soloInv_def m)
  next
    case False
    then have "contents hash ?s = contents hash s" using stepOkD(2) [OF a(3)] by (simp add: m(4,5))
    then show ?thesis using solo False m(2,3,6,7) idle by (auto simp: soloInv_def split: option.splits)
  qed
  moreover have "inBin (mem ?s) = inBin (mem s)" using changesD(2) [OF T] by (simp add: m(1) fun_eq_iff)
  moreover have "writes ?s b \<le> Suc (writes s b)" for b using cw by (simp add: finish_access_def Let_def)
  ultimately show ?thesis using a(2) that by blast
qed

lemma alone_returns:
  assumes "concInv hash zv s" "soloInv hash zv c M t s"
    and "rank (binFor hash s t) (mem s) (place (gor s t)) \<le> n"
    and "\<And>b. inBin (mem s) b \<Longrightarrow> writes s b + n < 2 ^ 32"
  shows "\<exists>s'. alone hash zv t n s = Some s' \<and> concInv hash zv s' \<and> soloInv hash zv c M t s' \<and>
    (inCall (place (gor s' t)) \<longrightarrow> place (gor s' t) = Grow)"
  using assms
proof (induction n arbitrary: s)
  case 0
  have "inCall (place (gor s t)) \<Longrightarrow> place (gor s t) = Grow"
  proof (rule ccontr)
    assume call: "inCall (place (gor s t))" "place (gor s t) \<noteq> Grow"
    obtain q ix where "exec hash zv (doing (gor s t)) (ownAddr (gor s t)) (place (gor s t)) (mem s) = Some (q, ix)"
      by (rule access_step [OF 0(1) call])
    from rank_step [OF prepared_conc [OF 0(1) call(1)] this] show False using 0(3) by simp
  qed
  then show ?case using 0 by auto
next
  case (Suc n)
  show ?case
  proof (cases "inCall (place (gor s t)) \<and> place (gor s t) \<noteq> Grow")
    case False
    then show ?thesis using Suc.prems by (auto simp: not_Grow)
  next
    case True
    obtain s' where s': "access hash zv t s = Some s'" "concInv hash zv s'" "soloInv hash zv c M t s'"
      "rank (binFor hash s' t) (mem s') (place (gor s' t)) < rank (binFor hash s t) (mem s) (place (gor s t))"
      "inBin (mem s') = inBin (mem s)" "\<And>b. writes s' b \<le> Suc (writes s b)"
    proof (rule solo_access [OF Suc.prems(1,2)])
      show "inBin (mem s) b \<Longrightarrow> Suc (writes s b) < 2 ^ 32" for b using Suc.prems(4) [of b] by simp
    qed (use True in auto)
    have "\<exists>s''. alone hash zv t n s' = Some s'' \<and> concInv hash zv s'' \<and> soloInv hash zv c M t s'' \<and>
        (inCall (place (gor s'' t)) \<longrightarrow> place (gor s'' t) = Grow)"
    proof (rule Suc.IH [OF s'(2,3)])
      show "inBin (mem s') b \<Longrightarrow> writes s' b + n < 2 ^ 32" for b
        using Suc.prems(4) [of b] s'(5) s'(6) [of b] by simp
    qed (use s'(4) Suc.prems(3) in simp)
    then show ?thesis using True s'(1) by (simp add: not_Grow)
  qed
qed

text \<open>
  A call that starts in any reachable state, with other calls suspended wherever they are, and
  then runs alone.
\<close>

lemma solo_call:
  assumes inv: "concInv hash zv s" and t: "\<not> inCall (place (gor s t))"
    and wrap: "\<And>b. inBin (mem s) b \<Longrightarrow> writes s b + 53 < 2 ^ 32"
  shows "\<exists>s'. alone hash zv t 53 (begin_call hash t c s) = Some s' \<and>
    (place (gor s' t) = Grow \<or>
     (\<exists>res. place (gor s' t) = Done res \<and> specCall zv c (contents hash s) = (res, contents hash s')))"
proof -
  let ?s = "begin_call hash t c s" and ?M = "contents hash s"
  have b: "mem ?s = mem s" "writes ?s = writes s" "doing (gor ?s t) = c" "place (gor ?s t) = Load0"
    "seen ?s t = {?M (keyOf c)}" "effect ?s t = None" "contents hash ?s = ?M"
    by (simp_all add: begin_call_def contents_def)
  have "soloInv hash zv c ?M t ?s" by (simp add: soloInv_def b)
  moreover have "rank (binFor hash ?s t) (mem ?s) (place (gor ?s t)) \<le> 53" by (simp add: b)
  ultimately obtain s' where s': "alone hash zv t 53 ?s = Some s'" "concInv hash zv s'"
    "soloInv hash zv c ?M t s'" "inCall (place (gor s' t)) \<longrightarrow> place (gor s' t) = Grow"
    using alone_returns [OF begin_call_inv [OF inv t, where c = c], of c ?M t 53] wrap by (auto simp: b)
  show ?thesis
  proof (cases "place (gor s' t)")
    case (Done res)
    have "answerInv zv (seen s' t) c (effect s' t) (Done res)"
      using concInvD(3) [OF s'(2), of t] s'(3) Done by (simp add: routineInv_def soloInv_def)
    then have "specCall zv c ?M = (res, contents hash s')"
      using s'(3) by (auto simp: soloInv_def answerInv_def observed_def split: option.splits)
    with Done s'(1) show ?thesis by blast
  qed (use s'(1,3,4) in \<open>auto simp: inCall_def soloInv_def\<close>)
qed

end
