(* ===== verification/Samples.thy ===== *)
theory Samples
  imports ChooseSlot StaleStart AlignedSlices InlineWords SoloRun
begin

text \<open>
  Concrete maps on which the properties are instantiated: fresh tables of sixteen bins, tables
  with one entry, and a table that was resized once. The hash function is the identity.
\<close>

definition idHash :: "unit \<Rightarrow> 64 word \<Rightarrow> 64 word" where
  "idHash seed k = k"

definition sampleA :: "(64 word, nat, unit) AMap" where
  "sampleA = AllocNew () 16"

definition sampleConfig :: "unit InlineHashConfig" where
  "sampleConfig = \<lparr>inlineSeed = (), SentinelForEvenBins = NOT 0, SentinelForOddBins = NOT 0 - 1\<rparr>"

definition sampleI :: "unit IMap" where
  "sampleI = New 0 sampleConfig 16"

lemma New_16: "current (New zv cfg 16) = newIndex zv (2 ^ 4)"
proof -
  have "nextPowerOf2 16 = 2 ^ 4" by code_simp
  then show ?thesis by (simp add: New_def current_def)
qed

lemma fresh_16:
  "wf_index (newIndex zv 16)" "alloc_ok (newIndex zv 16)" "inBin (newIndex zv 16) 5"
proof -
  have st: "settled (newIndex zv (2 ^ 4))" "length (bins (newIndex zv (2 ^ 4))) = 2 ^ 4"
    by (rule newIndex_settled; simp)+
  then show "wf_index (newIndex zv 16)" "alloc_ok (newIndex zv 16)" "inBin (newIndex zv 16) 5"
    by (simp_all add: settled_def inBin_def)
qed

lemma fresh_16_entries: "entries_wf content hash ok (newIndex zv 16)"
proof -
  have "entries_wf content hash ok (newIndex zv (2 ^ 4))" by (rule newIndex_settled(2)) simp
  then show ?thesis by simp
qed

lemma New_16_facts:
  "length (bins (current (New zv cfg 16))) = 16" "active (New zv cfg 16) = 0"
  "generations (New zv cfg 16)" "wf_index (current (New zv cfg 16))" "alloc_ok (current (New zv cfg 16))"
proof -
  show "length (bins (current (New zv cfg 16))) = 16"
    unfolding New_16 by (subst newIndex_settled(5)) simp_all
  show "active (New zv cfg 16) = 0" by (simp add: New_def)
  show g: "generations (New zv cfg 16)" by (rule New_generations [of 16 zv cfg]) simp_all
  show "wf_index (current (New zv cfg 16))" "alloc_ok (current (New zv cfg 16))"
    using settledD(1,2) [OF generations_settled [OF g]] by simp_all
qed

lemma sampleA_facts:
  "consistent idHash sampleA" "absOf idHash sampleA = Map.empty"
  "length (bins (current sampleA)) = 16" "generations sampleA" "active sampleA = 0"
proof -
  have "unat (16 :: 64 word) \<le> 2 ^ 33" by simp
  note con = AllocNew_consistent(1,2) [OF this sampleA_def, of idHash]
  show "consistent idHash sampleA" "absOf idHash sampleA = Map.empty" by (fact con)+
  show "length (bins (current sampleA)) = 16" "generations sampleA" "active sampleA = 0"
    unfolding sampleA_def AllocNew_def by (rule New_16_facts)+
qed

lemma sampleI_new: "inlineNew idHash () 16 = Some sampleI"
proof -
  have "findSentinels idHash () = Some (NOT 0, NOT 0 - 1)"
    by code_simp
  then show ?thesis by (simp add: inlineNew_def inlineInitHashConfig_def sampleI_def sampleConfig_def)
qed

lemma sampleI_facts:
  "inlineReady idHash sampleI" "inlineRaw idHash sampleI = Map.empty"
  "length (bins (current sampleI)) = 16" "generations sampleI" "active sampleI = 0"
proof -
  have "unat (16 :: 64 word) \<le> 2 ^ 33" "(16 :: 64 word) \<noteq> 1" by simp_all
  note rdy = inlineNew_ready [OF this sampleI_new]
  show "inlineReady idHash sampleI" "inlineRaw idHash sampleI = Map.empty" by (fact rdy)+
  show "length (bins (current sampleI)) = 16" "generations sampleI" "active sampleI = 0"
    unfolding sampleI_def by (rule New_16_facts)+
qed

lemma single_pair:
  assumes "distinct (map fst es)" "map_of es = [k \<mapsto> v]"
  shows "es = [(k, v)]"
proof -
  have s: "set es = {(k, v)}"
  proof (rule set_eqI)
    fix e show "e \<in> set es \<longleftrightarrow> e \<in> {(k, v)}"
      using map_of_eq_Some_iff [OF assms(1), of "fst e" "snd e"] by (cases e) (auto simp: assms(2) split: if_splits)
  qed
  have "distinct es" using assms(1) by (simp add: distinct_map)
  then have "length es = 1" using distinct_card [of es] by (simp add: s)
  with s show ?thesis by (cases es) auto
qed

lemma not_crowded_empty: "\<not> crowded hash Map.empty B k"
proof
  assume "crowded hash Map.empty B k"
  then obtain ks where "length ks = 3" "\<forall>x \<in> set ks. Map.empty x \<noteq> None"
    by (auto simp: crowded_def)
  then show False by (cases ks) auto
qed

text \<open>One insertion into the fresh table: it finds a free primary slot.\<close>

lemma sampleA_one:
  obtains m :: "(64 word, nat, unit) AMap" where "consistent idHash m" "absOf idHash m = [5 \<mapsto> 7]" "generations m" "active m = 0"
    "length (bins (current m)) = 16" "Insert 1 idHash 0 42 sampleA 5 7 = Some (Returned (0, True), m)"
proof -
  let ?h = "hashOf idHash sampleA"
  have g: "generations sampleA" "entries_wf entryContent ?h (entryOk ?h) (current sampleA)"
    "absMap entryContent ?h (current sampleA) = Map.empty"
    using sampleA_facts(1,2) by (simp_all add: consistent_def absOf_def)
  have safe: "sentinel_safe entryContent ?h (entryOk ?h) (\<lambda>_ _. True) GetTransferSentinel 0"
    by (simp add: sentinel_safe_def)
  have cur: "current sampleA = newIndex None (2 ^ 4)" by (simp add: sampleA_def AllocNew_def New_16)
  have inv: "isInvalid (current sampleA) (binOf (current sampleA) (?h 5)) j" for j
    using newIndex_invalid(1) [of None "2 ^ 4" _ j] binOf_in [OF settledD(3) [OF generations_settled [OF g(1)]], of "?h 5"]
    by (simp only: cur)
  have none: "absMap entryContent ?h (current sampleA) 5 = None" by (simp add: g(3))
  have room: "(\<exists>j<3. isInvalid (current sampleA) (binOf (current sampleA) (?h 5)) j) \<or> X" for X
    by (intro disjI1 exI [of _ 0]) (simp add: inv)
  have free: "\<exists>j<3. isInvalid (current sampleA) (binOf (current sampleA) (?h 5)) j"
    using room [of False] by simp
  obtain m where m: "Insert_round 1 (findEntry 5 (?h 5)) (Val_update (\<lambda>_. None))
      (growTable 1 None moveEntry GetTransferSentinel) 0 (?h 5) (?h 5) (newEntry 42 5 7) (active sampleA) sampleA =
      Some (Ret (0, True), m)" "generations m" "hashConfig m = hashConfig sampleA"
    "entries_wf entryContent ?h (entryOk ?h) (current m)"
    "absMap entryContent ?h (current m) = (absMap entryContent ?h (current sampleA))(5 \<mapsto> 7)"
    "active m = active sampleA" "length (bins (current m)) = length (bins (current sampleA))"
    "linksExact (current sampleA) \<Longrightarrow> linksExact (current m)"
    by (rule alloc.round_new [OF safe g(1,2) none room, where fuel = 1 and zv = None and zero = 0 and newp = 42 and v = 7
          and wipe = "Val_update (\<lambda>_. None)"])
      (rule that, assumption+, use free in blast)
  have h: "hashOf idHash m = ?h" using m(3) by (simp add: hashOf_def)
  show ?thesis
  proof (rule that)
    show "consistent idHash m" "absOf idHash m = [5 \<mapsto> 7]" "generations m" "active m = 0"
      "length (bins (current m)) = 16"
      using m(2,4-7) sampleA_facts(3,5) by (simp_all add: consistent_def absOf_def h g(3))
    show "Insert 1 idHash 0 42 sampleA 5 7 = Some (Returned (0, True), m)"
      unfolding Insert_def Let_def getActiveIndex_def hashOf_def [symmetric]
      by (rule retryLoop_Ret) (simp, rule m(1))
  qed
qed

lemma sampleA_resized:
  obtains m :: "(64 word, nat, unit) AMap" where "consistent idHash m" "absOf idHash m = [5 \<mapsto> 7]" "generations m" "active m = 1"
proof -
  obtain m1 :: "(64 word, nat, unit) AMap" where m1: "consistent idHash m1" "absOf idHash m1 = [5 \<mapsto> 7]" "active m1 = 0"
    "length (bins (current m1)) = 16"
    by (rule sampleA_one) (rule that)
  have "chunkCount (length (bins (current m1))) \<le> 1" by (simp add: m1(4) chunkCount_def)
  then obtain m where "consistent idHash m" "absOf idHash m = absOf idHash m1" "active m = Suc (active m1)"
    using AllocTriggerResize_run [OF m1(1), of 1] m1(4) by auto
  then show ?thesis using m1 that by (auto simp: consistent_def)
qed

text \<open>A fresh table in which one goroutine has reserved and filled slot 0 of bin 5 for key 5.\<close>

lemma sampleA_reserved:
  obtains ix r where "ownsSlot ix 5 0 r" "slotIn ix 5 0 = Some \<lparr>Key = 5, Val = newEntry 42 5 (7 :: nat)\<rparr>"
    "entries_wf entryContent (idHash ()) (entryOk (idHash ())) ix" "binOf ix (idHash () 5) = 5"
    "getBinState (hdr ix 5) = BinNoTransfer" "absMap entryContent (idHash ()) ix = Map.empty"
proof -
  define Z :: "(64 word, nat) EntryPtr index" where "Z = newIndex None (2 ^ 4)"
  let ?s = "\<lparr>Key = 5, Val = newEntry 42 5 (7 :: nat)\<rparr>"
  have wf0: "wf_index Z" unfolding Z_def by (rule newIndex_wf) simp
  have n0: "entries_wf entryContent (idHash ()) (entryOk (idHash ())) Z"
    "absMap entryContent (idHash ()) Z k = None" "length (bins Z) = 2 ^ 4" for k
    unfolding Z_def by (rule newIndex_settled; simp)+
  have b0: "inBin Z 5" using n0(3) by (simp add: inBin_def)
  have ref: "slotRef Z 5 0 = Some (PrimarySlot 5 0)" by (simp add: slotRef_primary)
  obtain ix1 where a:
    "storeHeader Z 5 (setSlotStateAndVersion (hdr Z 5) (int 0) SlotTrying) = Some ix1"
    "same_frame Z ix1" "slotRef ix1 = slotRef Z" "wf_index ix1"
    "\<And>b'. hdr ix1 b' = (if b' = 5 then setSlotStateAndVersion (hdr Z 5) (int 0) SlotTrying else hdr Z b')"
    "\<And>b' j. j < 15 \<Longrightarrow> isValid ix1 b' j = (if b' = 5 \<and> j = 0 then SlotTrying = 2 else isValid Z b' j)"
    by (rule setSlotState_effect [OF wf0 b0, of 0 SlotTrying]) (simp_all add: ref)
  have b1: "inBin ix1 b = inBin Z b" for b using same_geometry_inBin [OF same_frame_geometry [OF a(2)]] .
  obtain ix where c: "same_frame ix1 ix" "hdr ix = hdr ix1" "slotRef ix = slotRef ix1" "wf_index ix"
    "\<And>b' j. inBin ix1 b' \<Longrightarrow> j < 15 \<Longrightarrow> slotIn ix b' j = (if b' = 5 \<and> j = 0 then Some ?s else slotIn ix1 b' j)"
    by (rule storeSlotAt_effect [OF a(4), of 5 0 "PrimarySlot 5 0" ?s]) (simp_all add: b1 b0 a(3) ref)
  have b: "inBin ix b = inBin Z b" for b
    using b1 same_geometry_inBin [OF same_frame_geometry [OF c(1)]] by simp
  have sf: "same_frame Z ix" using a(2) c(1) by (rule same_frame_trans)
  have h0: "hdr Z 5 = 0" unfolding Z_def by (rule newIndex_reads(1) [OF b0 [unfolded Z_def]])
  have h: "hdr ix 5 = setSlotStateAndVersion 0 (int 0) SlotTrying" by (simp add: c(2) a(5) h0)
  have v: "view ix b' j = view Z b' j" if "inBin Z b'" for b' j
  proof (cases "j < 15")
    case True
    have "\<not> isValid Z b' j" using newIndex_invalid(1) [OF that [unfolded Z_def]] by (simp add: Z_def isValid_def isInvalid_def)
    then have "\<not> isValid ix b' j" using a(6) [OF True, of b'] by (auto simp: isValid_def c(2))
    with \<open>\<not> isValid Z b' j\<close> show ?thesis by (simp add: view_def)
  qed (simp add: view_def)
  have sh0: "shape Z" using wf0 by (simp add: wf_index_def)
  note ab = same_view_abs [OF sh0 n0(1) same_frame_geometry [OF sf] v]
  have "length (bins ix) = 16" "imask ix = imask Z"
    using sf n0(3) by (simp_all add: same_frame_def same_geometry_def)
  show ?thesis
  proof (rule that [of ix "PrimarySlot 5 0"])
    have st: "getSlotState (setSlotStateAndVersion 0 (int 0) SlotTrying) (int 0) = SlotTrying"
      "getBinState (setSlotStateAndVersion 0 (int 0) SlotTrying) = BinNoTransfer" by code_simp+
    show "ownsSlot ix 5 0 (PrimarySlot 5 0)"
      using c(4) b b0 st(1) by (simp add: ownsSlot_def h c(3) a(3) ref)
    show "getBinState (hdr ix 5) = BinNoTransfer" unfolding h by (rule st(2))
    show "slotIn ix 5 0 = Some ?s" by (simp add: c(5) b1 b0)
    show "entries_wf entryContent (idHash ()) (entryOk (idHash ())) ix" by (rule ab(2)) simp_all
    show "absMap entryContent (idHash ()) ix = Map.empty" using ab(1) n0(2) by (simp add: fun_eq_iff)
    have "imask Z = 15" unfolding Z_def by code_simp
    with \<open>imask ix = imask Z\<close> show "binOf ix (idHash () 5) = 5" by (simp add: binOf_def idHash_def)
  qed
qed

text \<open>One insertion into a fresh inline table.\<close>

lemma sampleI_one:
  obtains m where "inlineReady idHash m" "inlineAbs idHash m = [5 \<mapsto> (7 :: 32 word)]"
    "generations m"
proof -
  let ?h = "inlineHashOf idHash sampleI"
  have "inlineAbs idHash sampleI 5 = (None :: 32 word option)" by (simp add: sampleI_facts(2))
  moreover have "\<not> crowded ?h (inlineRaw idHash sampleI) 0 5"
    unfolding sampleI_facts(2) by (rule not_crowded_empty)
  ultimately obtain m where "inlineReady idHash m"
    "inlineAbs idHash m = (inlineAbs idHash sampleI)(5 \<mapsto> (7 :: 32 word))"
    using inlineInsert_run_absent [of idHash sampleI 5 0 1 False "7 :: 32 word"] sampleI_facts(1) by auto
  moreover have "inlineAbs idHash sampleI = (Map.empty :: 64 word \<Rightarrow> 32 word option)"
    by (simp add: inlineAbs_def fun_eq_iff sampleI_facts(2))
  ultimately show ?thesis using that [of m] by (simp add: inlineReady_def inlineConsistent_def)
qed

end
