(* ===== verification/InlineInterleave.thy ===== *)
theory InlineInterleave
  imports InlineMap ChooseSteps
begin

text \<open>
  Goroutines on one table of the inline package, one shared access at a time, between two
  resizes: \<open>ipc\<close> is where a call is in get.go, put.go, delete.go or insert.go, \<open>iexec\<close> its next
  access. Keys and values are raw 64-bit words. Other than in the allocator, \<open>Put\<close> compares the
  value of the slot and not an address, and \<open>Delete\<close> is one swap of the header, which leaves both
  words of the slot. A goroutine that finds no free slot stops at \<open>IGrow\<close>, and with it the model.
\<close>

section \<open>Program counters\<close>

text \<open>
  A search reads the keys of a bucket (\<open>IKeys\<close>: slots still to read, the first slot that matched,
  buckets still to search once the link descriptor is loaded), then the value of the slot that
  matched (\<open>IVal\<close>). \<open>own\<close> is the reserved slot of an \<open>Insert\<close> that searches again. \<open>Delete\<close>
  returns a boolean only; its answer here is that boolean with the value 0.
\<close>

type_synonym icall = "(64 word, 64 word) call"

type_synonym ianswer = "64 word \<times> bool"

datatype ipc =
    IIdle
  | ILoad0
  | IKeys "64 word" segment "(nat \<times> SlotRef) option" "segment list option" "nat option"
  | IVal "64 word" nat SlotRef "nat option"
  | ILoadLinks "64 word" "nat option"
  | IAgain "64 word" "(nat \<times> SlotRef \<times> 64 word) option" "nat option"
  | IChoose "64 word"
  | IChoosing "64 word" chooser
  | IReserve "64 word" nat
  | ISlotPtr "64 word" nat
  | IWriteKey "64 word" nat SlotRef
  | IWriteVal "64 word" nat SlotRef
  | IFinalize "64 word" nat
  | ILoad2 nat
  | IUnreserve nat "ianswer option"
  | IUnreserveKey "64 word" nat "ianswer option"
  | IUnreserveVal "64 word" nat SlotRef "ianswer option"
  | IUnreserveCAS "64 word" nat "ianswer option"
  | ISwap nat SlotRef "64 word"
  | IRemove "64 word" nat
  | ILoopHeader nat SlotRef
  | ILoopKey "64 word" nat SlotRef
  | ILoopVal "64 word" nat SlotRef
  | ILoopCheck "64 word" nat SlotRef "64 word"
  | ILoopAgain "64 word" nat SlotRef "64 word"
  | IDone ianswer
  | IGrow

definition isDelete :: "icall \<Rightarrow> bool" where
  "isDelete c = (case c of CallDelete _ \<Rightarrow> True | _ \<Rightarrow> False)"

text \<open>Nothing found: \<open>Insert\<close> goes on without a look at the header, the others compare it.\<close>

fun iafterMiss :: "icall \<Rightarrow> 64 word \<Rightarrow> nat option \<Rightarrow> ipc" where
  "iafterMiss (CallInsert k v) h None = IChoose h"
| "iafterMiss (CallInsert k v) h (Some i) = IFinalize h i"
| "iafterMiss c h own = IAgain h None own"

text \<open>
  After the keys of a bucket: the slot that matched, whose value all but \<open>Delete\<close> in the primary
  bucket load, or the next bucket.
\<close>

definition iafterKeys ::
  "icall \<Rightarrow> 64 word \<Rightarrow> (nat \<times> SlotRef) option \<Rightarrow> segment list option \<Rightarrow> nat option \<Rightarrow> ipc" where
  "iafterKeys c h hit rest own = (case hit of
     Some (i, r) \<Rightarrow> if isDelete c \<and> i < 3 then IAgain h (Some (i, r, 0)) own else IVal h i r own
   | None \<Rightarrow> (case rest of
       None \<Rightarrow> ILoadLinks h own
     | Some [] \<Rightarrow> iafterMiss c h own
     | Some (seg # segs) \<Rightarrow> IKeys h seg None (Some segs) own))"

text \<open>The header is still \<open>h\<close>.\<close>

fun iafterMatch :: "icall \<Rightarrow> 64 word \<Rightarrow> (nat \<times> SlotRef \<times> 64 word) option \<Rightarrow> nat option \<Rightarrow> ipc" where
  "iafterMatch (CallInsert k v) h (Some (i, r, x)) None = IDone (x, False)"
| "iafterMatch (CallInsert k v) h (Some (i, r, x)) (Some j) = IUnreserve j (Some (x, False))"
| "iafterMatch (CallInsert k v) h None own = ILoad0"
| "iafterMatch (CallGet k) h (Some (i, r, x)) own = IDone (x, True)"
| "iafterMatch (CallPut k v) h (Some (i, r, x)) own = ISwap i r x"
| "iafterMatch (CallDelete k) h (Some (i, r, x)) own = IRemove h i"
| "iafterMatch c h None own = IDone (0, False)"

definition iafterMismatch :: "nat option \<Rightarrow> ipc" where
  "iafterMismatch own = (case own of None \<Rightarrow> ILoad0 | Some i \<Rightarrow> ILoad2 i)"

definition iafterUnreserve :: "ianswer option \<Rightarrow> ipc" where
  "iafterUnreserve r = (case r of None \<Rightarrow> ILoad0 | Some res \<Rightarrow> IDone res)"

fun valueOf :: "icall \<Rightarrow> 64 word" where
  "valueOf (CallPut k v) = v"
| "valueOf (CallInsert k v) = v"
| "valueOf c = 0"

section \<open>One access\<close>

text \<open>\<open>None\<close> is a fault, or a call that is not running.\<close>

fun iexec ::
  "(64 word \<Rightarrow> 64 word) \<Rightarrow> icall \<Rightarrow> ipc \<Rightarrow> 64 word index \<Rightarrow> (ipc \<times> 64 word index) option" where
  "iexec hash c ILoad0 ix =
     (let b = binOf ix (hash (keyOf c)) in do {
        h \<leftarrow> atomicLoadHeader ix b;
        Some (if getBinState h \<noteq> BinNoTransfer then ILoad0
              else IKeys h (primarySegment b) None None None, ix) })"
| "iexec hash c (ILoad2 i) ix =
     (let b = binOf ix (hash (keyOf c)) in do {
        h \<leftarrow> atomicLoadHeader ix b;
        Some (if getBinState h \<noteq> BinNoTransfer then IUnreserve i None
              else IKeys h (primarySegment b) None None (Some i), ix) })"
| "iexec hash c (IKeys h ((i, r) # todo) hit rest own) ix = do {
     w \<leftarrow> loadSlotKey ix r;
     Some (IKeys h todo (if hit = None \<and> w = keyOf c \<and> stHi h i then Some (i, r) else hit) rest own, ix) }"
| "iexec hash c (IKeys h [] hit rest own) ix = Some (iafterKeys c h hit rest own, ix)"
| "iexec hash c (IVal h i r own) ix = do {
     x \<leftarrow> atomicLoadSlotVal ix r;
     Some (IAgain h (Some (i, r, x)) own, ix) }"
| "iexec hash c (ILoadLinks h own) ix = do {
     pb \<leftarrow> getBin ix (hash (keyOf c));
     Some (IKeys h [] None (Some (linkSegmentsOf h (LinkMeta pb))) own, ix) }"
| "iexec hash c (IAgain h fnd own) ix = do {
     h1 \<leftarrow> atomicLoadHeader ix (binOf ix (hash (keyOf c)));
     Some (if h = h1 then iafterMatch c h fnd own else iafterMismatch own, ix) }"
| "iexec hash c (IChoose h) ix =
     Some (if invalidMask3 h \<noteq> 0 then IReserve h (nat (lowestSlot (invalidMask3 h)))
           else IChoosing h ChooseHeader, ix)"
| "iexec hash c (IChoosing h cp) ix = do {
     (cp', ix') \<leftarrow> chooseStep (binOf ix (hash (keyOf c))) cp ix;
     Some (case cp' of
             Chosen i \<Rightarrow> if i < 0 then (IGrow, ix) else (IReserve h (nat i), ix')
           | _ \<Rightarrow> (IChoosing h cp', ix')) }"
| "iexec hash c (IReserve h i) ix = do {
     let h1 = setSlotStateAndVersion h (int i) SlotTrying;
     (ok, ix') \<leftarrow> reserveSlot ix (binOf ix (hash (keyOf c))) h h1;
     Some (if ok then ISlotPtr h1 i else ILoad0, ix') }"
| "iexec hash c (ISlotPtr h i) ix = do {
     slot \<leftarrow> getSlotByIndex ix (binOf ix (hash (keyOf c))) (int i);
     Some (case slot of None \<Rightarrow> IUnreserve i None | Some r \<Rightarrow> IWriteKey h i r, ix) }"
| "iexec hash c (IWriteKey h i r) ix = do {
     ix' \<leftarrow> storeSlotKey ix r (keyOf c);
     Some (IWriteVal h i r, ix') }"
| "iexec hash c (IWriteVal h i r) ix = do {
     ix' \<leftarrow> atomicStoreSlotVal ix r (valueOf c);
     Some (IFinalize h i, ix') }"
| "iexec hash c (IFinalize h i) ix = do {
     (ok, ix') \<leftarrow> finalizeSlot ix (binOf ix (hash (keyOf c))) h (int i);
     Some (if ok then IDone (0, True) else ILoad2 i, ix') }"
| "iexec hash c (IUnreserve i res) ix = do {
     h \<leftarrow> atomicLoadHeader ix (binOf ix (hash (keyOf c)));
     Some (if getSlotState h (int i) \<noteq> SlotTrying \<or> getBinState h \<noteq> BinNoTransfer
           then iafterUnreserve res else IUnreserveKey h i res, ix) }"
| "iexec hash c (IUnreserveKey h i res) ix = do {
     slot \<leftarrow> getSlotByIndex ix (binOf ix (hash (keyOf c))) (int i);
     (case slot of
        None \<Rightarrow> Some (IUnreserveCAS h i res, ix)
      | Some r \<Rightarrow> do { ix' \<leftarrow> storeSlotKey ix r 0; Some (IUnreserveVal h i r res, ix') }) }"
| "iexec hash c (IUnreserveVal h i r res) ix = do {
     ix' \<leftarrow> atomicStoreSlotVal ix r 0;
     Some (IUnreserveCAS h i res, ix') }"
| "iexec hash c (IUnreserveCAS h i res) ix = do {
     (ok, ix') \<leftarrow> atomicCASHeader ix (binOf ix (hash (keyOf c))) h
                    (setSlotStateAndVersion h (int i) SlotInvalid);
     Some (if ok then iafterUnreserve res else IUnreserve i res, ix') }"
| "iexec hash c (ISwap i r x) ix = do {
     (ok, ix') \<leftarrow> DWCAS (=) ix r (keyOf c) x (keyOf c) (valueOf c);
     Some (if ok then IDone (x, True) else ILoopHeader i r, ix') }"
| "iexec hash c (IRemove h i) ix = do {
     (ok, ix') \<leftarrow> atomicCASHeader ix (binOf ix (hash (keyOf c))) h
                    (setSlotStateAndVersion h (int i) SlotInvalid);
     Some (if ok then IDone (0, True) else ILoad0, ix') }"
| "iexec hash c (ILoopHeader i r) ix = do {
     h \<leftarrow> atomicLoadHeader ix (binOf ix (hash (keyOf c)));
     Some (if getSlotState h (int i) \<noteq> SlotValid then ILoad0 else ILoopKey h i r, ix) }"
| "iexec hash c (ILoopKey h i r) ix = do {
     w \<leftarrow> loadSlotKey ix r;
     Some (if w \<noteq> keyOf c then ILoad0 else ILoopVal h i r, ix) }"
| "iexec hash c (ILoopVal h i r) ix = do {
     x \<leftarrow> atomicLoadSlotVal ix r;
     Some (ILoopCheck h i r x, ix) }"
| "iexec hash c (ILoopCheck h i r x) ix = do {
     h1 \<leftarrow> atomicLoadHeader ix (binOf ix (hash (keyOf c)));
     Some (if h1 \<noteq> h then ILoopHeader i r else ILoopAgain h i r x, ix) }"
| "iexec hash c (ILoopAgain h i r x) ix = do {
     y \<leftarrow> atomicLoadSlotVal ix r;
     Some (if y \<noteq> x then ILoopHeader i r else ISwap i r x, ix) }"
| "iexec hash c IIdle ix = None"
| "iexec hash c (IDone res) ix = None"
| "iexec hash c IGrow ix = None"

definition iInCall :: "ipc \<Rightarrow> bool" where
  "iInCall q = (case q of IIdle \<Rightarrow> False | IDone _ \<Rightarrow> False | _ \<Rightarrow> True)"

section \<open>The machine\<close>

text \<open>
  Memory and goroutines. \<open>iclock\<close> counts the events, and \<open>history\<close> lists the calls that have
  returned, with their answers and the times at which they started and returned.
\<close>

type_synonym iop = "icall \<times> ianswer \<times> nat \<times> nat"

record irunner =
  icalling :: icall
  ipoint :: ipc
  istarted :: nat

record imachine =
  imem :: "64 word index"
  irun :: "irunner list"
  iclock :: nat
  history :: "iop list"

datatype event = Begin nat icall | Access nat

definition running :: "imachine \<Rightarrow> bool" where
  "running m \<longleftrightarrow> list_all (\<lambda>g. ipoint g \<noteq> IGrow) (irun m)"

fun perform :: "(64 word \<Rightarrow> 64 word) \<Rightarrow> event \<Rightarrow> imachine \<Rightarrow> imachine option" where
  "perform hash (Begin t c) m =
     (if running m \<and> t < length (irun m) \<and> \<not> iInCall (ipoint (irun m ! t))
      then Some (m\<lparr>irun := (irun m)[t := \<lparr>icalling = c, ipoint = ILoad0, istarted = iclock m\<rparr>],
             iclock := Suc (iclock m)\<rparr>)
      else None)"
| "perform hash (Access t) m =
     (if running m \<and> t < length (irun m)
      then (let g = irun m ! t in do {
        (q, ix) \<leftarrow> iexec hash (icalling g) (ipoint g) (imem m);
        Some (m\<lparr>imem := ix, irun := (irun m)[t := g\<lparr>ipoint := q\<rparr>], iclock := Suc (iclock m),
          history := (case q of
             IDone res \<Rightarrow> history m @ [(icalling g, res, istarted g, iclock m)]
           | _ \<Rightarrow> history m)\<rparr>) })
      else None)"

fun performs :: "(64 word \<Rightarrow> 64 word) \<Rightarrow> event list \<Rightarrow> imachine \<Rightarrow> imachine option" where
  "performs hash [] m = Some m"
| "performs hash (e # es) m = do { m' \<leftarrow> perform hash e m; performs hash es m' }"

text \<open>A new table with \<open>n\<close> goroutines.\<close>

definition newMachine :: "nat \<Rightarrow> nat \<Rightarrow> imachine" where
  "newMachine B n = \<lparr>imem = newIndex 0 (2 ^ B),
     irun = replicate n \<lparr>icalling = CallGet 0, ipoint = IIdle, istarted = 0\<rparr>, iclock = 0, history = []\<rparr>"

section \<open>What the properties speak of\<close>

text \<open>
  The machine with a record of what happened, which no step reads: the number of swaps that
  changed each header, the values the key of each goroutine's call had from its start to its return, the
  answer of the call once it made its decisive access, and how often the swap of a \<open>Put\<close> hit a slot
  that was not published.
\<close>

record iconc =
  machine :: imachine
  iwrites :: "64 word \<Rightarrow> nat"
  iseen :: "nat \<Rightarrow> 64 word option set"
  ieffect :: "nat \<Rightarrow> ianswer option"
  istrays :: nat

definition icontents :: "(64 word \<Rightarrow> 64 word) \<Rightarrow> 64 word index \<Rightarrow> 64 word \<Rightarrow> 64 word option" where
  "icontents hash ix = absMap pairContent hash ix"

definition idecides :: "ipc \<Rightarrow> ipc \<Rightarrow> bool" where
  "idecides q q' = (case q of
     IFinalize _ _ \<Rightarrow> (case q' of IDone _ \<Rightarrow> True | _ \<Rightarrow> False)
   | ISwap _ _ _ \<Rightarrow> (case q' of IDone _ \<Rightarrow> True | _ \<Rightarrow> False)
   | IRemove _ _ \<Rightarrow> (case q' of IDone _ \<Rightarrow> True | _ \<Rightarrow> False)
   | _ \<Rightarrow> False)"

definition strays :: "64 word index \<Rightarrow> 64 word \<Rightarrow> ipc \<Rightarrow> ipc \<Rightarrow> bool" where
  "strays ix b q q' = (case q of
     ISwap i _ _ \<Rightarrow> (case q' of IDone _ \<Rightarrow> \<not> isValid ix b i | _ \<Rightarrow> False)
   | _ \<Rightarrow> False)"

definition ianswerOf :: "ipc \<Rightarrow> ianswer option" where
  "ianswerOf q = (case q of IDone res \<Rightarrow> Some res | _ \<Rightarrow> None)"

definition ibin :: "(64 word \<Rightarrow> 64 word) \<Rightarrow> imachine \<Rightarrow> nat \<Rightarrow> 64 word" where
  "ibin hash m t = binOf (imem m) (hash (keyOf (icalling (irun m ! t))))"

definition point :: "imachine \<Rightarrow> nat \<Rightarrow> ipc" where
  "point m t = ipoint (irun m ! t)"

fun observe :: "(64 word \<Rightarrow> 64 word) \<Rightarrow> event \<Rightarrow> iconc \<Rightarrow> imachine \<Rightarrow> iconc" where
  "observe hash (Begin t c) s m' =
     s\<lparr>machine := m', iseen := (iseen s)(t := {icontents hash (imem m') (keyOf c)}),
       ieffect := (ieffect s)(t := None)\<rparr>"
| "observe hash (Access t) s m' =
     (let m = machine s; q = point m t; q' = point m' t
      in s\<lparr>machine := m', iwrites := countWrites (imem m) (imem m') (iwrites s),
           iseen := (\<lambda>u. if u < length (irun m) \<and> iInCall (point m u)
                          then insert (icontents hash (imem m') (keyOf (icalling (irun m ! u)))) (iseen s u)
                          else iseen s u),
           ieffect := (ieffect s)(t := if idecides q q' then ianswerOf q' else ieffect s t),
           istrays := (if strays (imem m) (ibin hash m t) q q' then Suc (istrays s) else istrays s)\<rparr>)"

text \<open>The change of the map that an event makes: none, or a call with its answer.\<close>

type_synonym ichange = "icall \<times> ianswer"

fun ichangeOf :: "(64 word \<Rightarrow> 64 word) \<Rightarrow> event \<Rightarrow> imachine \<Rightarrow> imachine \<Rightarrow> ichange list" where
  "ichangeOf hash (Begin t c) m m' = []"
| "ichangeOf hash (Access t) m m' =
     (if idecides (point m t) (point m' t) \<and> \<not> strays (imem m) (ibin hash m t) (point m t) (point m' t)
      then [(icalling (irun m ! t), the (ianswerOf (point m' t)))] else [])"

inductive ireachable :: "(64 word \<Rightarrow> 64 word) \<Rightarrow> iconc \<Rightarrow> ichange list \<Rightarrow> iconc \<Rightarrow> bool"
  for hash :: "64 word \<Rightarrow> 64 word" and s0 :: iconc where
  start: "ireachable hash s0 [] s0"
| more: "ireachable hash s0 H s \<Longrightarrow> perform hash e (machine s) = Some m' \<Longrightarrow>
    ireachable hash s0 (H @ ichangeOf hash e (machine s) m') (observe hash e s m')"

text \<open>No goroutine in a call, and a table between operations.\<close>

definition iquiet :: "(64 word \<Rightarrow> 64 word) \<Rightarrow> iconc \<Rightarrow> bool" where
  "iquiet hash s \<longleftrightarrow> settled (imem (machine s)) \<and>
     entries_wf pairContent hash (\<lambda>_. True) (imem (machine s)) \<and>
     (\<forall>t < length (irun (machine s)). point (machine s) t = IIdle) \<and>
     (\<forall>b. inBin (imem (machine s)) b \<longrightarrow> iwrites s b = unat (version (hdr (imem (machine s)) b))) \<and>
     istrays s = 0"

end
