(* ===== verification/InlineMemory.thy ===== *)
theory InlineMemory
  imports InlineInterleave
begin

text \<open>
  The memory of the interleaved inline model: its invariant \<open>imemOk\<close>, \<open>ichanges\<close>, what one access
  can do to it, and what a goroutine knows at each point of its call (\<open>ipcInv\<close>). The key of a slot
  is written by the goroutine that has reserved the slot and by no other; its value may be changed
  by any \<open>Put\<close> of that key, also while the slot is not published.
\<close>

section \<open>The invariant of the memory\<close>

definition imemOk :: "(64 word \<Rightarrow> 64 word) \<Rightarrow> 64 word index \<Rightarrow> bool" where
  "imemOk hash ix \<longleftrightarrow> wf_index ix \<and> alloc_ok ix \<and>
     (\<forall>b. inBin ix b \<longrightarrow> getBinState (hdr ix b) = BinNoTransfer) \<and>
     entries_wf pairContent hash (\<lambda>_. True) ix"

definition keyIn :: "64 word index \<Rightarrow> 64 word \<Rightarrow> nat \<Rightarrow> 64 word option" where
  "keyIn ix b i = map_option Key (slotIn ix b i)"

lemma imemOkD:
  assumes "imemOk hash ix"
  shows "wf_index ix" "alloc_ok ix" "shape ix" "links_wf ix" "states_wf ix"
    "inBin ix b \<Longrightarrow> getBinState (hdr ix b) = 0" "entries_wf pairContent hash (\<lambda>_. True) ix"
  using assms by (simp_all add: imemOk_def wf_index_def)

lemma slotEntry_pair: "slotEntry pairContent ix b i = map_option (\<lambda>s. (Key s, Val s)) (view ix b i)"
  by (cases "view ix b i") (simp_all add: slotEntry_def pairContent_def)

lemma icontents_Some:
  assumes "imemOk hash ix" "i < 15" "isValid ix (binOf ix (hash k)) i"
    "slotIn ix (binOf ix (hash k)) i = Some s" "Key s = k"
  shows "icontents hash ix k = Some (Val s)"
  unfolding icontents_def absMap_Some [OF imemOkD(7,3) [OF assms(1)]]
  using assms(2-5) by (intro exI [of _ i]) (simp add: slotEntry_pair view_def)

lemma icontents_None:
  assumes "imemOk hash ix"
  shows "icontents hash ix k = None \<longleftrightarrow>
    (\<forall>i<15. isValid ix (binOf ix (hash k)) i \<longrightarrow> keyIn ix (binOf ix (hash k)) i \<noteq> Some k)"
  unfolding icontents_def absMap_None [OF imemOkD(7,3) [OF assms]]
  by (auto simp: slotEntry_pair view_def keyIn_def)

section \<open>What one access changes\<close>

text \<open>
  At most slot \<open>T\<close> changes its state, or its key while it is not valid. \<open>str\<close> says that the access is the
  swap of a \<open>Put\<close> in a slot that is not published; without it, slots that are not valid keep their words.
\<close>

definition ichanges ::
  "(64 word \<times> nat) option \<Rightarrow> bool \<Rightarrow> 64 word index \<Rightarrow> 64 word index \<Rightarrow> bool" where
  "ichanges T str ix ix' \<longleftrightarrow> same_geometry ix ix' \<and>
     (\<forall>b i r. slotRef ix b i = Some r \<longrightarrow> slotRef ix' b i = Some r) \<and>
     (\<forall>b. inBin ix b \<longrightarrow> headerStep (hdr ix b) (hdr ix' b)) \<and>
     (\<forall>b i. inBin ix b \<and> i < 15 \<and> T \<noteq> Some (b, i) \<longrightarrow>
        stHi (hdr ix' b) i = stHi (hdr ix b) i \<and> stLo (hdr ix' b) i = stLo (hdr ix b) i) \<and>
     (\<forall>b i. inBin ix b \<and> i < 15 \<and> (T \<noteq> Some (b, i) \<or> isValid ix b i) \<and> slotRef ix b i \<noteq> None \<longrightarrow>
        keyIn ix' b i = keyIn ix b i) \<and>
     (\<forall>b i. inBin ix b \<and> i < 15 \<and> T \<noteq> Some (b, i) \<and> \<not> isValid ix b i \<and> \<not> str \<and> slotRef ix b i \<noteq> None \<longrightarrow>
        slotIn ix' b i = slotIn ix b i)"

lemma ichanges_refl [simp]: "ichanges T str ix ix"
  by (auto simp: ichanges_def headerStep_def)

lemma ichanges_weaken: "ichanges T str ix ix' \<Longrightarrow> (str \<Longrightarrow> str') \<Longrightarrow> ichanges T str' ix ix'"
  unfolding ichanges_def by blast

lemma ichangesD:
  assumes "ichanges T str ix ix'"
  shows "same_geometry ix ix'" "inBin ix' b = inBin ix b" "binOf ix' h = binOf ix h"
    "slotRef ix b i = Some r \<Longrightarrow> slotRef ix' b i = Some r"
    "slotRef ix b i \<noteq> None \<Longrightarrow> slotRef ix' b i \<noteq> None"
    "inBin ix b \<Longrightarrow> headerStep (hdr ix b) (hdr ix' b)"
    "inBin ix b \<Longrightarrow> i < 15 \<Longrightarrow> T \<noteq> Some (b, i) \<Longrightarrow> stHi (hdr ix' b) i = stHi (hdr ix b) i"
    "inBin ix b \<Longrightarrow> i < 15 \<Longrightarrow> T \<noteq> Some (b, i) \<Longrightarrow> stLo (hdr ix' b) i = stLo (hdr ix b) i"
    "inBin ix b \<Longrightarrow> i < 15 \<Longrightarrow> T \<noteq> Some (b, i) \<or> isValid ix b i \<Longrightarrow> slotRef ix b i \<noteq> None \<Longrightarrow>
       keyIn ix' b i = keyIn ix b i"
    "inBin ix b \<Longrightarrow> i < 15 \<Longrightarrow> T \<noteq> Some (b, i) \<Longrightarrow> \<not> isValid ix b i \<Longrightarrow> \<not> str \<Longrightarrow> slotRef ix b i \<noteq> None \<Longrightarrow>
       slotIn ix' b i = slotIn ix b i"
proof -
  note a = assms [unfolded ichanges_def]
  show sg: "same_geometry ix ix'" using a by blast
  show "inBin ix' b = inBin ix b" "binOf ix' h = binOf ix h"
    using same_geometry_inBin [OF sg] same_geometry_binOf [OF sg] by auto
  show ref: "slotRef ix b i = Some r \<Longrightarrow> slotRef ix' b i = Some r" for r using a by blast
  show "slotRef ix b i \<noteq> None \<Longrightarrow> slotRef ix' b i \<noteq> None" using ref by blast
qed (use assms [unfolded ichanges_def] in blast)+

text \<open>
  A store to a slot: by the goroutine that has reserved it, or the swap of a \<open>Put\<close>, which keeps
  the key.
\<close>

lemma imem_slot:
  assumes ok: "imemOk hash ix" and b: "inBin ix b" "i < 15" "slotRef ix b i = Some r"
    and s: "slotIn ix b i = Some s" and st: "storeSlot ix r x = Some ix'"
    and T: "(T = Some (b, i) \<or> Key x = Key s) \<and> (isValid ix b i \<longrightarrow> Key x = Key s) \<and>
      (T = Some (b, i) \<or> isValid ix b i \<or> str)"
  shows "imemOk hash ix'" "ichanges T str ix ix'" "hdr ix' = hdr ix" "slotRef ix' = slotRef ix"
    "\<And>b' j. inBin ix b' \<Longrightarrow> j < 15 \<Longrightarrow> slotIn ix' b' j = (if b' = b \<and> j = i then Some x else slotIn ix b' j)"
    "linkStep H H ix ix'"
    "icontents hash ix' = (if isValid ix b i then (icontents hash ix)(Key x \<mapsto> Val x) else icontents hash ix)"
proof -
  note wf = imemOkD(1,2) [OF ok] and ew = imemOkD(7) [OF ok] and sh = imemOkD(3) [OF ok]
  obtain ix1 where a: "storeSlot ix r x = Some ix1" "same_frame ix ix1" "hdr ix1 = hdr ix"
    "lmeta ix1 = lmeta ix" "slotRef ix1 = slotRef ix" "wf_index ix1"
    "\<And>b' j. inBin ix b' \<Longrightarrow> j < 15 \<Longrightarrow> slotIn ix1 b' j = (if b' = b \<and> j = i then Some x else slotIn ix b' j)"
    using storeSlotAt_effect [OF wf(1) b] by metis
  have "ix1 = ix'" using a(1) st by simp
  note a = a [unfolded this]
  show "hdr ix' = hdr ix" "slotRef ix' = slotRef ix" by (rule a(3), rule a(5))
  show si: "slotIn ix' b' j = (if b' = b \<and> j = i then Some x else slotIn ix b' j)"
    if "inBin ix b'" "j < 15" for b' j using a(7) [OF that] .
  have sg: "same_geometry ix ix'" using a(2) by (rule same_frame_geometry)
  have inb: "inBin ix' b' = inBin ix b'" for b' using same_geometry_inBin [OF sg] .
  show "linkStep H H ix ix'" using a(2,4) by (simp add: linkStep_same same_frame_def)
  show "ichanges T str ix ix'"
    unfolding ichanges_def using sg a(3,5) si s T by (auto simp: headerStep_def keyIn_def)
  have al: "alloc_ok ix'"
    using wf(2) a(2,4) unfolding alloc_ok_def same_frame_def linkAt_def inb by (simp add: same_geometry_def)
  have v: "isValid ix' = isValid ix" by (rule isValid_frame [OF a(3)])
  have vw: "view ix' b' j = (if b' = b \<and> j = i \<and> isValid ix b i then Some x else view ix b' j)"
    if "inBin ix b'" for b' j
    using si [OF that, of j] b(2) by (auto simp: view_def v)
  have "entries_wf pairContent hash (\<lambda>_. True) ix' \<and> icontents hash ix' =
      (if isValid ix b i then (icontents hash ix)(Key x \<mapsto> Val x) else icontents hash ix)"
  proof (cases "isValid ix b i")
    case True
    have vs: "view ix b i = Some s" using True b(2) s by (simp add: view_def)
    have k: "Key x = Key s" using T True by blast
    have bk: "b = binOf ix (hash (Key x))"
      using entries_wfD(2) [OF ew b(1) vs] by (auto simp: pairContent_def k)
    have "slotEntry pairContent ix b i = Some (Key x, Val s)" by (simp add: slotEntry_pair vs k)
    then show ?thesis
      using entries_update [OF ew sh sg bk, of i "Some x"] vw True
      by (auto simp: icontents_def pairContent_def)
  next
    case False
    then show ?thesis using same_view_abs [OF sh ew sg] vw by (simp add: icontents_def)
  qed
  then show "icontents hash ix' =
      (if isValid ix b i then (icontents hash ix)(Key x \<mapsto> Val x) else icontents hash ix)"
    and "imemOk hash ix'"
    unfolding imemOk_def inb a(3) using a(6) al imemOkD(6) [OF ok] by auto
qed

text \<open>A swap of a header that changes the state of one slot.\<close>

lemma imem_state:
  assumes ok: "imemOk hash ix" and b: "inBin ix b" "i < 15" "slotRef ix b i \<noteq> None"
    and st: "storeHeader ix b h' = Some ix'" and h': "h' = setSlotStateAndVersion (hdr ix b) (int i) t"
    and bits: "\<And>j. j < 15 \<Longrightarrow> stHi h' j = (if j = i then hi else stHi (hdr ix b) j)"
      "\<And>j. j < 15 \<Longrightarrow> stLo h' j = (if j = i then lo else stLo (hdr ix b) j)" "\<not> (hi \<and> lo)"
    and s: "slotIn ix b i = Some s"
    and k: "hi \<or> isValid ix b i \<Longrightarrow> b = binOf ix (hash (Key s))"
    and new: "hi \<Longrightarrow> \<not> isValid ix b i \<and> icontents hash ix (Key s) = None"
  shows "imemOk hash ix'" "ichanges (Some (b, i)) False ix ix'" "hdr ix' b = h'"
    "slotRef ix' = slotRef ix" "slotIn ix' = slotIn ix" "linkStep H H ix ix'"
    "icontents hash ix' = (if hi then (icontents hash ix)(Key s \<mapsto> Val s)
       else if isValid ix b i then (icontents hash ix)(Key s := None) else icontents hash ix)"
proof -
  note wf = imemOkD(1,2) [OF ok] and ew = imemOkD(7) [OF ok] and sh = imemOkD(3) [OF ok]
  have bs: "getBinState h' = getBinState (hdr ix b)" unfolding h' by (rule getBinState_setSlot [OF b(2)])
  obtain ix1 where a: "storeHeader ix b h' = Some ix1" "same_frame ix ix1" "lmeta ix1 = lmeta ix"
    "slotRef ix1 = slotRef ix" "slotIn ix1 = slotIn ix"
    "\<And>b'. hdr ix1 b' = (if b' = b then h' else hdr ix b')" "wf_index ix1"
    "\<And>b' j. j < 15 \<Longrightarrow> isValid ix1 b' j = (if b' = b \<and> j = i then hi \<and> \<not> lo else isValid ix b' j)"
    "\<And>b'. getBinState (hdr ix1 b') = getBinState (hdr ix b')"
    using writeState_effect [OF wf(1) b(1,2) b(3) bits(3,1,2) bs] by metis
  have "ix1 = ix'" using a(1) st by simp
  note a = a [unfolded this]
  show "hdr ix' b = h'" "slotRef ix' = slotRef ix" "slotIn ix' = slotIn ix" by (simp_all add: a)
  have sg: "same_geometry ix ix'" using a(2) by (rule same_frame_geometry)
  have inb: "inBin ix' b' = inBin ix b'" for b' using same_geometry_inBin [OF sg] .
  show "linkStep H H ix ix'" using a(2,3) by (simp add: linkStep_same same_frame_def)
  have "headerStep (hdr ix b') (hdr ix' b')" for b'
    using headerStep_set [OF b(2)] by (simp add: a(6) h' headerStep_def)
  then show "ichanges (Some (b, i)) False ix ix'"
    unfolding ichanges_def using sg by (auto simp: a bits keyIn_def)
  have al: "alloc_ok ix'"
    using wf(2) a(2,3) unfolding alloc_ok_def same_frame_def linkAt_def inb by (simp add: same_geometry_def)
  let ?new = "if hi then Some s else None"
  have vw: "view ix' b' j = (if b' = b \<and> j = i then ?new else view ix b' j)" for b' j
    using a(8) [of j b'] b(2) bits(3) s by (auto simp: view_def a(5))
  have "entries_wf pairContent hash (\<lambda>_. True) ix' \<and> icontents hash ix' =
      (if hi then (icontents hash ix)(Key s \<mapsto> Val s)
       else if isValid ix b i then (icontents hash ix)(Key s := None) else icontents hash ix)"
  proof (cases "hi \<or> isValid ix b i")
    case True
    have "slotEntry pairContent ix b i = None \<and> absMap pairContent hash ix (Key s) = None \<or>
        (\<exists>v0. slotEntry pairContent ix b i = Some (Key s, v0))"
      using True new s b(2) by (auto simp: slotEntry_pair view_def icontents_def)
    from entries_update [OF ew sh sg k [OF True] this, of ?new] vw True show ?thesis
      by (auto simp: icontents_def pairContent_def)
  next
    case False
    then have "view ix' b' j = view ix b' j" for b' j using vw by (simp add: view_def)
    then show ?thesis using same_view_abs [OF sh ew sg] False by (simp add: icontents_def)
  qed
  then show "icontents hash ix' = (if hi then (icontents hash ix)(Key s \<mapsto> Val s)
       else if isValid ix b i then (icontents hash ix)(Key s := None) else icontents hash ix)"
    and "imemOk hash ix'"
    unfolding imemOk_def inb using a(7,9) al imemOkD(6) [OF ok] by auto
qed

text \<open>Attaching link buckets.\<close>

lemma imem_links:
  assumes ok: "imemOk hash ix" and ext: "links_extend ix ix'" and wf: "wf_index ix'" "alloc_ok ix'"
  shows "imemOk hash ix'" "ichanges None False ix ix'" "hdr ix' = hdr ix"
    "icontents hash ix' = icontents hash ix"
    "\<And>b i. slotRef ix b i \<noteq> None \<Longrightarrow> slotIn ix' b i = slotIn ix b i"
proof -
  have sg: "same_geometry ix ix'" and h: "hdr ix' = hdr ix" and ld: "loadSlot ix' = loadSlot ix"
    using ext by (simp_all add: links_extend_def)
  show "hdr ix' = hdr ix" by (rule h)
  have sr: "slotRef ix' b i = Some r" if "slotRef ix b i = Some r" for b i r
    by (rule links_extend_slotRef [OF ext that])
  show si: "slotIn ix' b i = slotIn ix b i" if "slotRef ix b i \<noteq> None" for b i
    using that sr by (auto simp: slotIn_def ld)
  show "ichanges None False ix ix'"
    unfolding ichanges_def using sg sr si by (simp add: h headerStep_def keyIn_def)
  have "view ix' b i = view ix b i" if "inBin ix b" for b i
    by (rule links_extend_view [OF ext imemOkD(5) [OF ok] that])
  then have "entries_wf pairContent hash (\<lambda>_. True) ix' \<and> icontents hash ix' = icontents hash ix"
    using same_view_abs [OF imemOkD(3,7) [OF ok] sg] by (simp add: icontents_def)
  then show "imemOk hash ix'" "icontents hash ix' = icontents hash ix"
    unfolding imemOk_def same_geometry_inBin [OF sg] h using wf imemOkD(6) [OF ok] by auto
qed

end
