(* ===== verification/InlineInv.thy ===== *)
theory InlineInv
  imports InlineMemory
begin

text \<open>
  What a goroutine of the interleaved inline model knows at each point of its call (\<open>ipcInv\<close>), and
  that no access of another goroutine invalidates it.
\<close>

section \<open>What is known at each point\<close>

text \<open>The valid slots of bin \<open>b\<close> with key \<open>k\<close> are in \<open>I\<close>.\<close>

definition icovers :: "64 word index \<Rightarrow> 64 word \<Rightarrow> 64 word \<Rightarrow> nat set \<Rightarrow> bool" where
  "icovers ix b k I \<longleftrightarrow> (\<forall>i<15. isValid ix b i \<and> keyIn ix b i = Some k \<longrightarrow> i \<in> I)"

text \<open>Slot \<open>i\<close> is published and holds key \<open>k\<close>.\<close>

definition holds :: "64 word index \<Rightarrow> 64 word \<Rightarrow> nat \<Rightarrow> 64 word \<Rightarrow> bool" where
  "holds ix b i k \<longleftrightarrow> isValid ix b i \<and> keyIn ix b i = Some k"

text \<open>Slot \<open>i\<close> is reserved, has its key, and, unless a \<open>Put\<close> has strayed, its value.\<close>

definition ifilled :: "bool \<Rightarrow> 64 word index \<Rightarrow> 64 word \<Rightarrow> nat \<Rightarrow> 64 word \<Rightarrow> 64 word \<Rightarrow> bool" where
  "ifilled clean ix b i k x \<longleftrightarrow> trying ix b i \<and> keyIn ix b i = Some k \<and>
     (clean \<longrightarrow> slotIn ix b i = Some \<lparr>Key = k, Val = x\<rparr>)"

definition isIns :: "icall \<Rightarrow> bool" where
  "isIns c = (case c of CallInsert _ _ \<Rightarrow> True | _ \<Rightarrow> False)"

definition isPut :: "icall \<Rightarrow> bool" where
  "isPut c = (case c of CallPut _ _ \<Rightarrow> True | _ \<Rightarrow> False)"

definition iownOk :: "bool \<Rightarrow> 64 word index \<Rightarrow> 64 word \<Rightarrow> icall \<Rightarrow> nat option \<Rightarrow> bool" where
  "iownOk clean ix b c own = (case own of None \<Rightarrow> True
     | Some i \<Rightarrow> isIns c \<and> ifilled clean ix b i (keyOf c) (valueOf c))"

definition iexisting :: "64 word option set \<Rightarrow> ianswer option \<Rightarrow> bool" where
  "iexisting S res = (case res of None \<Rightarrow> True | Some (x, f) \<Rightarrow> \<not> f \<and> Some x \<in> S)"

text \<open>The invariant of call \<open>c\<close> at a point, where \<open>S\<close> are the values its key has had.\<close>

fun ipcInv ::
  "64 word index \<Rightarrow> (64 word \<Rightarrow> nat) \<Rightarrow> bool \<Rightarrow> 64 word option set \<Rightarrow> icall \<Rightarrow> 64 word \<Rightarrow> ipc \<Rightarrow> bool" where
  "ipcInv ix w cl S c b IIdle \<longleftrightarrow> True"
| "ipcInv ix w cl S c b ILoad0 \<longleftrightarrow> True"
| "ipcInv ix w cl S c b (IDone res) \<longleftrightarrow> True"
| "ipcInv ix w cl S c b IGrow \<longleftrightarrow> True"
| "ipcInv ix w cl S c b (ILoad2 i) \<longleftrightarrow> iownOk cl ix b c (Some i)"
| "ipcInv ix w cl S c b (IKeys h todo hit rest own) \<longleftrightarrow>
     captured ix w b h \<and> attached ix b h \<and> refsOk ix b todo \<and> restOk ix b rest \<and> iownOk cl ix b c own \<and>
     (case hit of
        None \<Rightarrow> hdr ix b = h \<longrightarrow> icovers ix b (keyOf c) (slotsOf todo \<union> pending rest)
      | Some (i, r) \<Rightarrow> i < 15 \<and> slotRef ix b i = Some r \<and> (hdr ix b = h \<longrightarrow> holds ix b i (keyOf c)))"
| "ipcInv ix w cl S c b (IVal h i r own) \<longleftrightarrow>
     captured ix w b h \<and> iownOk cl ix b c own \<and> i < 15 \<and> slotRef ix b i = Some r \<and>
     (hdr ix b = h \<longrightarrow> holds ix b i (keyOf c))"
| "ipcInv ix w cl S c b (ILoadLinks h own) \<longleftrightarrow>
     captured ix w b h \<and> attached ix b h \<and> iownOk cl ix b c own \<and>
     (hdr ix b = h \<longrightarrow> icovers ix b (keyOf c) {3..<15})"
| "ipcInv ix w cl S c b (IAgain h fnd own) \<longleftrightarrow>
     captured ix w b h \<and> iownOk cl ix b c own \<and>
     (case fnd of
        None \<Rightarrow> \<not> isIns c \<and> (hdr ix b = h \<longrightarrow> icovers ix b (keyOf c) {})
      | Some (i, r, x) \<Rightarrow> i < 15 \<and> slotRef ix b i = Some r \<and>
          (hdr ix b = h \<longrightarrow> holds ix b i (keyOf c) \<and> (isDelete c \<or> Some x \<in> S)))"
| "ipcInv ix w cl S c b (IChoose h) \<longleftrightarrow>
     isIns c \<and> captured ix w b h \<and> (hdr ix b = h \<longrightarrow> icovers ix b (keyOf c) {})"
| "ipcInv ix w cl S c b (IChoosing h cp) \<longleftrightarrow>
     isIns c \<and> captured ix w b h \<and> (hdr ix b = h \<longrightarrow> icovers ix b (keyOf c) {}) \<and>
     chooseInv ix b h cp \<and> (\<forall>i. cp \<noteq> Chosen i)"
| "ipcInv ix w cl S c b (IReserve h i) \<longleftrightarrow>
     isIns c \<and> i < 15 \<and> captured ix w b h \<and> slotRef ix b i \<noteq> None \<and> freeSlot ix b h i \<and>
     (hdr ix b = h \<longrightarrow> icovers ix b (keyOf c) {})"
| "ipcInv ix w cl S c b (ISlotPtr h i) \<longleftrightarrow>
     isIns c \<and> captured ix w b h \<and> trying ix b i \<and> (hdr ix b = h \<longrightarrow> icovers ix b (keyOf c) {})"
| "ipcInv ix w cl S c b (IWriteKey h i r) \<longleftrightarrow>
     isIns c \<and> captured ix w b h \<and> trying ix b i \<and> slotRef ix b i = Some r \<and>
     (hdr ix b = h \<longrightarrow> icovers ix b (keyOf c) {})"
| "ipcInv ix w cl S c b (IWriteVal h i r) \<longleftrightarrow>
     isIns c \<and> captured ix w b h \<and> trying ix b i \<and> slotRef ix b i = Some r \<and>
     keyIn ix b i = Some (keyOf c) \<and> (hdr ix b = h \<longrightarrow> icovers ix b (keyOf c) {})"
| "ipcInv ix w cl S c b (IFinalize h i) \<longleftrightarrow>
     captured ix w b h \<and> iownOk cl ix b c (Some i) \<and> (hdr ix b = h \<longrightarrow> icovers ix b (keyOf c) {})"
| "ipcInv ix w cl S c b (IUnreserve i res) \<longleftrightarrow> isIns c \<and> trying ix b i \<and> iexisting S res"
| "ipcInv ix w cl S c b (IUnreserveKey h i res) \<longleftrightarrow> isIns c \<and> trying ix b i \<and> iexisting S res"
| "ipcInv ix w cl S c b (IUnreserveVal h i r res) \<longleftrightarrow>
     isIns c \<and> trying ix b i \<and> slotRef ix b i = Some r \<and> iexisting S res"
| "ipcInv ix w cl S c b (IUnreserveCAS h i res) \<longleftrightarrow> isIns c \<and> trying ix b i \<and> iexisting S res"
| "ipcInv ix w cl S c b (ISwap i r x) \<longleftrightarrow> isPut c \<and> i < 15 \<and> slotRef ix b i = Some r \<and> Some x \<in> S"
| "ipcInv ix w cl S c b (IRemove h i) \<longleftrightarrow>
     isDelete c \<and> i < 15 \<and> slotRef ix b i \<noteq> None \<and> captured ix w b h \<and>
     (hdr ix b = h \<longrightarrow> holds ix b i (keyOf c))"
| "ipcInv ix w cl S c b (ILoopHeader i r) \<longleftrightarrow> isPut c \<and> i < 15 \<and> slotRef ix b i = Some r"
| "ipcInv ix w cl S c b (ILoopKey h i r) \<longleftrightarrow>
     isPut c \<and> i < 15 \<and> slotRef ix b i = Some r \<and> captured ix w b h \<and> stHi h i"
| "ipcInv ix w cl S c b (ILoopVal h i r) \<longleftrightarrow>
     isPut c \<and> i < 15 \<and> slotRef ix b i = Some r \<and> captured ix w b h \<and>
     (hdr ix b = h \<longrightarrow> holds ix b i (keyOf c))"
| "ipcInv ix w cl S c b (ILoopCheck h i r x) \<longleftrightarrow>
     isPut c \<and> i < 15 \<and> slotRef ix b i = Some r \<and> captured ix w b h \<and> (hdr ix b = h \<longrightarrow> Some x \<in> S)"
| "ipcInv ix w cl S c b (ILoopAgain h i r x) \<longleftrightarrow>
     isPut c \<and> i < 15 \<and> slotRef ix b i = Some r \<and> Some x \<in> S"

text \<open>The slot a call has reserved, and the links it keeps for itself.\<close>

fun iowned :: "ipc \<Rightarrow> nat option" where
  "iowned (ILoad2 i) = Some i"
| "iowned (IKeys h todo hit rest own) = own"
| "iowned (IVal h i r own) = own"
| "iowned (ILoadLinks h own) = own"
| "iowned (IAgain h fnd own) = own"
| "iowned (ISlotPtr h i) = Some i"
| "iowned (IWriteKey h i r) = Some i"
| "iowned (IWriteVal h i r) = Some i"
| "iowned (IFinalize h i) = Some i"
| "iowned (IUnreserve i res) = Some i"
| "iowned (IUnreserveKey h i res) = Some i"
| "iowned (IUnreserveVal h i r res) = Some i"
| "iowned (IUnreserveCAS h i res) = Some i"
| "iowned q = None"

fun iheld :: "ipc \<Rightarrow> 32 word set" where
  "iheld (IChoosing h cp) = heldLinks cp"
| "iheld q = {}"

lemma iheld_free: "ipcInv ix w cl S c b q \<Longrightarrow> l \<in> iheld q \<Longrightarrow> linkFree ix l"
  by (cases q) (auto intro: held_linkFree)

lemma iowned_trying: "ipcInv ix w cl S c b q \<Longrightarrow> iowned q = Some i \<Longrightarrow> trying ix b i"
  by (cases q) (auto simp: iownOk_def ifilled_def)

section \<open>Stability\<close>

text \<open>An access of another goroutine: everything the lemmas below use of it.\<close>

definition ielsewhere ::
  "(64 word \<times> nat) option \<Rightarrow> 32 word set \<Rightarrow> bool \<Rightarrow> bool \<Rightarrow> 64 word index \<Rightarrow> 64 word index \<Rightarrow>
     (64 word \<Rightarrow> nat) \<Rightarrow> 64 word \<Rightarrow> bool" where
  "ielsewhere T H cl cl' ix ix' w b \<longleftrightarrow> ichanges T (\<not> cl') ix ix' \<and> linkStep H {} ix ix' \<and> inBin ix b \<and>
     writesOk ix w \<and> writesOk ix' (countWrites ix ix' w) \<and> (cl' \<longrightarrow> cl)"

lemma ielsewhereD:
  assumes "ielsewhere T H cl cl' ix ix' w b"
  shows "ichanges T (\<not> cl') ix ix'" "linkStep H {} ix ix'" "inBin ix b" "writesOk ix w"
    "writesOk ix' (countWrites ix ix' w)" "cl' \<Longrightarrow> cl"
  using assms by (auto simp: ielsewhere_def)

lemma ist_captured:
  "ielsewhere T H cl cl' ix ix' w b \<Longrightarrow> captured ix w b h \<Longrightarrow> captured ix' (countWrites ix ix' w) b h"
  by (rule captured_step [OF _ ichangesD(6) [OF ielsewhereD(1,3)] ielsewhereD(3,4)])

lemma ist_back:
  assumes "ielsewhere T H cl cl' ix ix' w b" "captured ix w b h" "hdr ix' b = h"
  shows "hdr ix b = h"
  by (rule captured_return [OF assms(2) ichangesD(6) [OF ielsewhereD(1,3) [OF assms(1)]] _ ielsewhereD(5) [OF assms(1)] assms(3)])
    (simp add: ichangesD(2) [OF ielsewhereD(1) [OF assms(1)]] ielsewhereD(3) [OF assms(1)])

lemma ist_ref: "ielsewhere T H cl cl' ix ix' w b \<Longrightarrow> slotRef ix b i = Some r \<Longrightarrow> slotRef ix' b i = Some r"
  using ichangesD(4) ielsewhereD(1) by blast

lemma ist_ref': "ielsewhere T H cl cl' ix ix' w b \<Longrightarrow> slotRef ix b i \<noteq> None \<Longrightarrow> slotRef ix' b i \<noteq> None"
  using ist_ref by blast

lemma ist_refs: "ielsewhere T H cl cl' ix ix' w b \<Longrightarrow> refsOk ix b sg \<Longrightarrow> refsOk ix' b sg"
  unfolding refsOk_def using ist_ref by fast

lemma ist_rest: "ielsewhere T H cl cl' ix ix' w b \<Longrightarrow> restOk ix b rest \<Longrightarrow> restOk ix' b rest"
  using ist_refs by (auto simp: restOk_def split: option.splits)

lemma ist_attached: "ielsewhere T H cl cl' ix ix' w b \<Longrightarrow> attached ix b h \<Longrightarrow> attached ix' b h"
  unfolding attached_def using ist_ref' by blast

text \<open>As long as the header stays, so do the keys of the published slots.\<close>

lemma ist_key:
  assumes el: "ielsewhere T H cl cl' ix ix' w b" and sw: "states_wf ix" and i: "i < 15" and v: "isValid ix b i"
  shows "keyIn ix' b i = keyIn ix b i"
proof -
  have "slotRef ix b i \<noteq> None"
    using sw v i ielsewhereD(3) [OF el] by (auto simp: states_wf_def isValid_def isInvalid_def)
  then show ?thesis using ichangesD(9) [OF ielsewhereD(1,3) [OF el] i] v by blast
qed

lemma ist_covers:
  assumes el: "ielsewhere T H cl cl' ix ix' w b" and sw: "states_wf ix" and c: "icovers ix b k I"
    and h: "hdr ix' b = hdr ix b"
  shows "icovers ix' b k I"
  using c ist_key [OF el sw] h unfolding icovers_def isValid_def by auto

lemma ist_holds:
  assumes el: "ielsewhere T H cl cl' ix ix' w b" and sw: "states_wf ix" and c: "holds ix b i k" "i < 15"
    and h: "hdr ix' b = hdr ix b"
  shows "holds ix' b i k"
  using c ist_key [OF el sw c(2)] h unfolding holds_def isValid_def by auto

lemma ist_trying:
  "ielsewhere T H cl cl' ix ix' w b \<Longrightarrow> T \<noteq> Some (b, i) \<Longrightarrow> trying ix b i \<Longrightarrow> trying ix' b i"
  using ist_ref' [of T H cl cl' ix ix'] ichangesD(7,8) [OF ielsewhereD(1,3)] unfolding trying_def by metis

lemma ist_trying_key:
  "ielsewhere T H cl cl' ix ix' w b \<Longrightarrow> T \<noteq> Some (b, i) \<Longrightarrow> trying ix b i \<Longrightarrow> keyIn ix' b i = keyIn ix b i"
  using ichangesD(9) [OF ielsewhereD(1,3)] unfolding trying_def by blast

lemma ist_filled:
  assumes el: "ielsewhere T H cl cl' ix ix' w b" and T: "T \<noteq> Some (b, i)" and f: "ifilled cl ix b i k x"
  shows "ifilled cl' ix' b i k x"
proof -
  have t: "trying ix b i" "\<not> isValid ix b i" "i < 15" "slotRef ix b i \<noteq> None"
    using f by (auto simp: ifilled_def trying_def isValid_def)
  show ?thesis
    using f ist_trying [OF el T t(1)] ist_trying_key [OF el T t(1)] ielsewhereD(6) [OF el]
      ichangesD(10) [OF ielsewhereD(1,3) [OF el] t(3) T t(2) _ t(4)]
    by (auto simp: ifilled_def)
qed

lemma ist_own:
  "ielsewhere T H cl cl' ix ix' w b \<Longrightarrow> (\<And>i. own = Some i \<Longrightarrow> T \<noteq> Some (b, i)) \<Longrightarrow>
     iownOk cl ix b c own \<Longrightarrow> iownOk cl' ix' b c own"
  using ist_filled by (auto simp: iownOk_def split: option.splits)

lemma ist_own_Some:
  "ielsewhere T H cl cl' ix ix' w b \<Longrightarrow> T \<noteq> Some (b, i) \<Longrightarrow> iownOk cl ix b c (Some i) \<Longrightarrow> iownOk cl' ix' b c (Some i)"
  by (rule ist_own) simp_all

lemma ist_pcInv:
  assumes el: "ielsewhere T H cl cl' ix ix' w b" and sw: "states_wf ix" and inv: "ipcInv ix w cl S c b q"
    and S: "S \<subseteq> S'" and mine: "\<And>i. iowned q = Some i \<Longrightarrow> T \<noteq> Some (b, i)" "H \<inter> iheld q = {}"
  shows "ipcInv ix' (countWrites ix ix' w) cl' S' c b q"
proof -
  have ex: "iexisting S res \<Longrightarrow> iexisting S' res" for res
    using S by (auto simp: iexisting_def split: option.splits)
  note st = ist_captured [OF el] ist_ref [OF el] ist_ref' [OF el] ist_refs [OF el] ist_rest [OF el] ist_attached [OF el]
  note same = ist_back [OF el] ist_covers [OF el sw] ist_holds [OF el sw]
  note own = ist_own [OF el] ist_own_Some [OF el] ist_trying [OF el]
  show ?thesis
  proof (cases q)
    case (IKeys h todo hit rest own)
    with inv st same ist_own [OF el] mine show ?thesis by (cases hit) (auto 0 3)
  next
    case (IAgain h fnd own)
    with inv st same ist_own [OF el] mine S show ?thesis by (cases fnd) (auto 0 3)
  next
    case (IChoosing h cp)
    then have "captured ix w b h" using inv by simp
    then have "chooseInv ix' b h cp"
      using chooseInv_later [of ix b h cp ix', OF _ same(1) _ ielsewhereD(2) [OF el]] inv mine(2) ist_ref' [OF el]
        ichangesD(2) [OF ielsewhereD(1) [OF el]] by (simp add: IChoosing)
    with IChoosing inv st same show ?thesis by auto
  next
    case (IReserve h i)
    then show ?thesis using inv st same freeSlot_later [of ix b h i ix'] by auto
  next
    case (IWriteVal h i r)
    then have "keyIn ix' b i = keyIn ix b i" using ist_trying_key [OF el] inv mine by simp
    then show ?thesis using IWriteVal inv st same own mine by auto
  qed (use inv mine st same ex own S in \<open>auto 0 3\<close>)
qed

end
