(* ===== verification/InlineAccess.thy ===== *)
theory InlineAccess
  imports InlineInv
begin

text \<open>
  One access of a goroutine of the interleaved inline model whose invariant holds: it does not fault,
  it establishes the invariant of the next point, and the contents of the table change only by the access
  at which the call takes effect, then as in the sequential specification \<open>inlineSpecCall\<close>.
\<close>

section \<open>What an access has to show\<close>

text \<open>The answer is that of the sequential call, without and with a change, for a value in \<open>S\<close>.\<close>

definition iobserved :: "64 word option set \<Rightarrow> icall \<Rightarrow> ianswer \<Rightarrow> bool" where
  "iobserved S c res \<longleftrightarrow> (\<exists>x \<in> S. \<forall>M. M (keyOf c) = x \<longrightarrow> inlineSpecCall c M = (res, M))"

definition iright :: "64 word option set \<Rightarrow> icall \<Rightarrow> ianswer \<Rightarrow> bool" where
  "iright S c res \<longleftrightarrow> (\<exists>x \<in> S. \<forall>M. M (keyOf c) = x \<longrightarrow> fst (inlineSpecCall c M) = res)"

definition ianswerInv :: "64 word option set \<Rightarrow> icall \<Rightarrow> ianswer option \<Rightarrow> ipc \<Rightarrow> bool" where
  "ianswerInv S c eff q = (case q of
     IIdle \<Rightarrow> True
   | IDone res \<Rightarrow> (case eff of None \<Rightarrow> iobserved S c res | Some r \<Rightarrow> res = r \<and> iright S c r)
   | _ \<Rightarrow> eff = None)"

definition iprepared ::
  "(64 word \<Rightarrow> 64 word) \<Rightarrow> icall \<Rightarrow> 64 word option set \<Rightarrow> (64 word \<Rightarrow> nat) \<Rightarrow> 64 word \<Rightarrow> bool \<Rightarrow>
     ianswer option \<Rightarrow> 64 word index \<Rightarrow> ipc \<Rightarrow> bool" where
  "iprepared hash c S w b cl eff ix q \<longleftrightarrow>
     imemOk hash ix \<and> b = binOf ix (hash (keyOf c)) \<and> ipcInv ix w cl S c b q \<and> ianswerInv S c eff q \<and>
     icontents hash ix (keyOf c) \<in> S"

definition istepOk ::
  "(64 word \<Rightarrow> 64 word) \<Rightarrow> icall \<Rightarrow> 64 word option set \<Rightarrow> (64 word \<Rightarrow> nat) \<Rightarrow> 64 word \<Rightarrow> bool \<Rightarrow>
     ianswer option \<Rightarrow> 64 word index \<Rightarrow> ipc \<Rightarrow> ipc \<Rightarrow> 64 word index \<Rightarrow> bool" where
  "istepOk hash c S w b cl eff ix q q' ix' \<longleftrightarrow>
     imemOk hash ix' \<and>
     (\<exists>T. ichanges T (strays ix b q q') ix ix' \<and>
        (\<forall>b' i. T = Some (b', i) \<longrightarrow> b' = b \<and> (iowned q = Some i \<or> \<not> trying ix b i) \<and>
           (isValid ix b i \<longrightarrow> isDelete c \<and> idecides q q')) \<and>
        (\<forall>i. iowned q' = Some i \<longrightarrow> iowned q = Some i \<or> T = Some (b, i))) \<and>
     linkStep (iheld q) (iheld q') ix ix' \<and>
     ipcInv ix' (countWrites ix ix' w) (cl \<and> \<not> strays ix b q q') S c b q' \<and>
     ianswerInv S c (if idecides q q' then ianswerOf q' else eff) q' \<and>
     (if idecides q q' \<and> \<not> strays ix b q q'
      then let r = inlineSpecCall c (icontents hash ix)
           in ianswerOf q' = Some (fst r) \<and> (cl \<longrightarrow> icontents hash ix' = snd r)
      else icontents hash ix' = icontents hash ix)"

definition igoes ::
  "(64 word \<Rightarrow> 64 word) \<Rightarrow> icall \<Rightarrow> 64 word option set \<Rightarrow> (64 word \<Rightarrow> nat) \<Rightarrow> 64 word \<Rightarrow> bool \<Rightarrow>
     ianswer option \<Rightarrow> 64 word index \<Rightarrow> ipc \<Rightarrow> bool" where
  "igoes hash c S w b cl eff ix q \<longleftrightarrow>
     (\<exists>q' ix'. iexec hash c q ix = Some (q', ix') \<and> istepOk hash c S w b cl eff ix q q' ix')"

lemma ipreparedD:
  assumes "iprepared hash c S w b cl eff ix q"
  shows "imemOk hash ix" "binOf ix (hash (keyOf c)) = b" "inBin ix b" "ipcInv ix w cl S c b q"
    "ianswerInv S c eff q" "icontents hash ix (keyOf c) \<in> S"
proof -
  show m: "imemOk hash ix" and b: "binOf ix (hash (keyOf c)) = b" using assms by (simp_all add: iprepared_def)
  show "inBin ix b" using binOf_in [OF imemOkD(3) [OF m]] b by blast
qed (use assms in \<open>auto simp: iprepared_def\<close>)

lemma strays_idecides: "strays ix b q q' \<Longrightarrow> idecides q q'"
  by (auto simp: strays_def idecides_def split: ipc.splits)

text \<open>An access that is not decisive; then a load.\<close>

lemma igoes_write:
  assumes r: "iprepared hash c S w b cl eff ix q" "iexec hash c q ix = Some (q', ix')"
    and ch: "imemOk hash ix'" "ichanges T False ix ix'"
    and T: "\<And>b' i. T = Some (b', i) \<Longrightarrow> b' = b \<and> (iowned q = Some i \<or> \<not> trying ix b i) \<and> \<not> isValid ix b i"
      "\<And>i. iowned q' = Some i \<Longrightarrow> iowned q = Some i \<or> T = Some (b, i)"
    and inv: "ipcInv ix' (countWrites ix ix' w) cl S c b q'" "ianswerInv S c eff q'" "\<not> idecides q q'"
    and ls: "linkStep (iheld q) (iheld q') ix ix'" and con: "icontents hash ix' = icontents hash ix"
  shows "igoes hash c S w b cl eff ix q"
proof -
  have st: "\<not> strays ix b q q'" using inv(3) strays_idecides by blast
  have "\<exists>T. ichanges T (strays ix b q q') ix ix' \<and>
        (\<forall>b' i. T = Some (b', i) \<longrightarrow> b' = b \<and> (iowned q = Some i \<or> \<not> trying ix b i) \<and>
           (isValid ix b i \<longrightarrow> isDelete c \<and> idecides q q')) \<and>
        (\<forall>i. iowned q' = Some i \<longrightarrow> iowned q = Some i \<or> T = Some (b, i))"
    using ch(2) T st by (intro exI [of _ T] conjI allI impI) (blast | simp)+
  then have "istepOk hash c S w b cl eff ix q q' ix'"
    unfolding istepOk_def using ch(1) inv ls con st by simp
  then show ?thesis unfolding igoes_def using r(2) by blast
qed

lemma igoes_read:
  assumes r: "iprepared hash c S w b cl eff ix q" "iexec hash c q ix = Some (q', ix)"
    and inv: "ipcInv ix w cl S c b q'" "ianswerInv S c eff q'" "\<not> idecides q q'"
    and own: "\<And>i. iowned q' = Some i \<Longrightarrow> iowned q = Some i" "iheld q' \<subseteq> iheld q"
  shows "igoes hash c S w b cl eff ix q"
  by (rule igoes_write [OF r ipreparedD(1) [OF r(1)], where T = None])
    (use inv own in \<open>auto simp: linkStep_same\<close>)

section \<open>Loads\<close>

lemma iload_slot:
  assumes "imemOk hash ix" "inBin ix b" "i < 15" "slotRef ix b i = Some r"
  obtains s where "loadSlot ix r = Some s" "slotIn ix b i = Some s" "keyIn ix b i = Some (Key s)"
    "loadSlotKey ix r = Some (Key s)" "atomicLoadSlotVal ix r = Some (Val s)"
    "getSlotByIndex ix b (int i) = Some (Some r)"
proof -
  obtain s where "loadSlot ix r = Some s" using slotRef_load [OF imemOkD(3,4) [OF assms(1)] assms(2-4)] by blast
  with assms(4) show ?thesis
    by (intro that [of s]) (simp_all add: slotIn_def keyIn_def loadSlotKey_def atomicLoadSlotVal_def getSlotByIndex_ref)
qed

text \<open>The value of a published slot with the call's key is what the map holds for the key.\<close>

lemma holds_contents:
  assumes r: "iprepared hash c S w b cl eff ix q" and h: "i < 15" "holds ix b i (keyOf c)" "slotIn ix b i = Some s"
  shows "icontents hash ix (keyOf c) = Some (Val s)" "Some (Val s) \<in> S" "Key s = keyOf c"
proof -
  show k: "Key s = keyOf c" using h(2,3) by (simp add: holds_def keyIn_def)
  show "icontents hash ix (keyOf c) = Some (Val s)"
    using icontents_Some [OF ipreparedD(1) [OF r], of i "keyOf c" s] h k
    by (simp add: ipreparedD(2) [OF r] holds_def)
  then show "Some (Val s) \<in> S" using ipreparedD(6) [OF r] by simp
qed

lemma covers_contents:
  assumes r: "iprepared hash c S w b cl eff ix q" and h: "icovers ix b (keyOf c) {}"
  shows "icontents hash ix (keyOf c) = None" "None \<in> S"
proof -
  show "icontents hash ix (keyOf c) = None"
    using h unfolding icontents_None [OF ipreparedD(1) [OF r]] ipreparedD(2) [OF r] by (auto simp: icovers_def)
  then show "None \<in> S" using ipreparedD(6) [OF r] by simp
qed

lemma valid_hi: "isValid ix b i \<Longrightarrow> stHi (hdr ix b) i" by (simp add: isValid_def)

section \<open>The search\<close>

lemma icovers_start: "icovers ix b k (slotsOf (primarySegment b) \<union> pending None)"
  by (auto simp: icovers_def primarySegment_def pending_def)

lemma igoes_ILoad0:
  assumes r: "iprepared hash c S w b cl eff ix ILoad0"
  shows "igoes hash c S w b cl eff ix ILoad0"
proof (rule igoes_read [OF r])
  note d = ipreparedD [OF r]
  show "iexec hash c ILoad0 ix = Some (IKeys (hdr ix b) (primarySegment b) None None None, ix)"
    using imemOkD(6) [OF d(1,3)] by (simp add: d(2) load_header [OF d(3)])
  show "ipcInv ix w cl S c b (IKeys (hdr ix b) (primarySegment b) None None None)"
    using attached_now [OF imemOkD(5) [OF d(1)] d(3)] icovers_start [of ix b "keyOf c"]
    by (simp add: primarySegment_def slotRef_primary restOk_def iownOk_def numeral_eq_Suc)
qed (use ipreparedD(5) [OF r] in \<open>simp_all add: ianswerInv_def idecides_def\<close>)

lemma igoes_ILoad2:
  assumes r: "iprepared hash c S w b cl eff ix (ILoad2 i)"
  shows "igoes hash c S w b cl eff ix (ILoad2 i)"
proof (rule igoes_read [OF r])
  note d = ipreparedD [OF r]
  show "iexec hash c (ILoad2 i) ix = Some (IKeys (hdr ix b) (primarySegment b) None None (Some i), ix)"
    using imemOkD(6) [OF d(1,3)] by (simp add: d(2) load_header [OF d(3)])
  show "ipcInv ix w cl S c b (IKeys (hdr ix b) (primarySegment b) None None (Some i))"
    using attached_now [OF imemOkD(5) [OF d(1)] d(3)] icovers_start [of ix b "keyOf c"] d(4)
    by (simp add: primarySegment_def slotRef_primary restOk_def numeral_eq_Suc)
qed (use ipreparedD(5) [OF r] in \<open>simp_all add: ianswerInv_def idecides_def\<close>)

lemma iafterMiss_inv:
  assumes "captured ix w b h" "iownOk cl ix b c own" "hdr ix b = h \<Longrightarrow> icovers ix b (keyOf c) {}"
  shows "ipcInv ix w cl S c b (iafterMiss c h own)"
  using assms by (cases "(c, h, own)" rule: iafterMiss.cases) (auto simp: isIns_def iownOk_def)

lemma iafterMiss_frame:
  "iowned (iafterMiss c h own) = Some i \<Longrightarrow> own = Some i" "iheld (iafterMiss c h own) = {}"
  "ianswerInv S c None (iafterMiss c h own)"
  by (cases "(c, h, own)" rule: iafterMiss.cases; auto simp: ianswerInv_def)+

lemma igoes_IKeys_Nil:
  assumes r: "iprepared hash c S w b cl eff ix (IKeys h [] hit rest own)"
  shows "igoes hash c S w b cl eff ix (IKeys h [] hit rest own)"
proof -
  note d = ipreparedD [OF r]
  have eff: "eff = None" using d(5) by (simp add: ianswerInv_def)
  have inv: "ipcInv ix w cl S c b (iafterKeys c h hit rest own)"
  proof (cases hit)
    case None
    then show ?thesis
      using d(4) iafterMiss_inv [of ix w b h cl c own S]
      by (auto simp: iafterKeys_def pending_def restOk_def split: option.splits list.splits)
  next
    case (Some ir)
    then show ?thesis using d(4) by (cases ir) (auto simp: iafterKeys_def)
  qed
  have fr: "ianswerInv S c None q \<and> (\<forall>i. iowned q = Some i \<longrightarrow> own = Some i) \<and> iheld q = {}"
    if "q = iafterKeys c h hit rest own" for q
  proof (cases "hit = None \<and> rest = Some []")
    case True
    then have "q = iafterMiss c h own" using that by (simp add: iafterKeys_def)
    then show ?thesis using iafterMiss_frame by blast
  next
    case False
    then show ?thesis
      unfolding that iafterKeys_def ianswerInv_def by (simp split: option.split list.split prod.split) auto
  qed
  show ?thesis
    by (rule igoes_read [OF r _ inv]) (use fr [OF refl] in \<open>simp_all add: idecides_def eff\<close>)
qed

lemma igoes_IKeys_Cons:
  assumes r: "iprepared hash c S w b cl eff ix (IKeys h ((i, rf) # todo) hit rest own)"
  shows "igoes hash c S w b cl eff ix (IKeys h ((i, rf) # todo) hit rest own)"
proof -
  note d = ipreparedD [OF r]
  have i: "i < 15" "slotRef ix b i = Some rf" using d(4) by simp_all
  obtain s where s: "slotIn ix b i = Some s" "keyIn ix b i = Some (Key s)" "loadSlotKey ix rf = Some (Key s)"
    by (rule iload_slot [OF d(1,3) i], rule that)
  let ?hit = "if hit = None \<and> Key s = keyOf c \<and> stHi h i then Some (i, rf) else hit"
  have new: "holds ix b i (keyOf c)" if "hdr ix b = h" "Key s = keyOf c" "stHi h i"
    using valid_now [OF imemOkD(5) [OF d(1)] d(3) i(1)] that s(2) by (simp add: holds_def)
  have cov: "icovers ix b (keyOf c) (slotsOf todo \<union> pending rest)"
    if "hdr ix b = h" "icovers ix b (keyOf c) (slotsOf ((i, rf) # todo) \<union> pending rest)"
      "\<not> (Key s = keyOf c \<and> stHi h i)"
    using that s(2) valid_hi [of ix b i] by (auto simp: icovers_def)
  have inv: "ipcInv ix w cl S c b (IKeys h todo ?hit rest own)"
  proof (cases hit)
    case None
    then show ?thesis using d(4) i new cov by auto
  next
    case (Some p)
    then show ?thesis using d(4) by (cases p) auto
  qed
  show ?thesis
    by (rule igoes_read [OF r _ inv]) (use d(5) s(3) in \<open>simp_all add: ianswerInv_def idecides_def\<close>)
qed

lemma igoes_IVal:
  assumes r: "iprepared hash c S w b cl eff ix (IVal h i rf own)"
  shows "igoes hash c S w b cl eff ix (IVal h i rf own)"
proof -
  note d = ipreparedD [OF r]
  have i: "i < 15" "slotRef ix b i = Some rf" using d(4) by simp_all
  obtain s where s: "slotIn ix b i = Some s" "atomicLoadSlotVal ix rf = Some (Val s)"
    by (rule iload_slot [OF d(1,3) i], rule that)
  have inv: "ipcInv ix w cl S c b (IAgain h (Some (i, rf, Val s)) own)"
    using d(4) holds_contents(2) [OF r i(1) _ s(1)] by auto
  show ?thesis
    by (rule igoes_read [OF r _ inv]) (use d(5) s(2) in \<open>simp_all add: ianswerInv_def idecides_def\<close>)
qed

lemma igoes_ILoadLinks:
  assumes r: "iprepared hash c S w b cl eff ix (ILoadLinks h own)"
  shows "igoes hash c S w b cl eff ix (ILoadLinks h own)"
proof -
  note d = ipreparedD [OF r]
  let ?segs = "linkSegmentsOf h (lmeta ix b)"
  have "icovers ix b (keyOf c) (slotsOf (concat ?segs))" if h: "hdr ix b = h"
    unfolding icovers_def
  proof (intro allI impI; elim conjE)
    fix j assume j: "j < 15" "isValid ix b j" "keyIn ix b j = Some (keyOf c)"
    then have "3 \<le> j" using d(4) h by (auto simp: icovers_def)
    then show "j \<in> slotsOf (concat ?segs)"
      using links_cover [OF imemOkD(4) [OF d(1)] d(3), of h j] d(4) valid_hi [OF j(2)] h j(1) by simp
  qed
  then have inv: "ipcInv ix w cl S c b (IKeys h [] None (Some ?segs) own)"
    using d(4) links_refs [OF imemOkD(4) [OF d(1)] d(3)] by (auto simp: restOk_def pending_def)
  have "getBin ix (hash (keyOf c)) = Some (bins ix ! unat b)" using d(3) by (simp add: getBin_def d(2))
  then show ?thesis
    by (intro igoes_read [OF r _ inv]) (use d(5) in \<open>simp_all add: ianswerInv_def idecides_def lmeta_def\<close>)
qed

lemma igoes_IAgain:
  assumes r: "iprepared hash c S w b cl eff ix (IAgain h fnd own)"
  shows "igoes hash c S w b cl eff ix (IAgain h fnd own)"
proof (cases "h = hdr ix b")
  case False
  show ?thesis
    by (rule igoes_read [OF r, where q' = "iafterMismatch own"])
      (use False ipreparedD(1-6) [OF r] in \<open>auto simp: load_header ianswerInv_def idecides_def iafterMismatch_def split: option.splits\<close>)
next
  case True
  note d = ipreparedD [OF r]
  have ld: "iexec hash c (IAgain h fnd own) ix = Some (iafterMatch c h fnd own, ix)"
    using True by (simp add: d(2) load_header [OF d(3)])
  have eff: "eff = None" using d(5) by (simp add: ianswerInv_def)
  show ?thesis
  proof (cases fnd)
    case None
    have "icovers ix b (keyOf c) {}" "\<not> isIns c" using d(4) True by (simp_all add: None)
    with covers_contents(2) [OF r] have miss: "None \<in> S" "\<not> isIns c" by simp_all
    have "iafterMatch c h fnd own = IDone (0, False)" "iobserved S c (0, False)"
      using miss by (cases c; auto simp: None isIns_def iobserved_def found_def intro!: bexI [of _ None])+
    then show ?thesis
      by (intro igoes_read [OF r ld]) (simp_all add: ianswerInv_def eff idecides_def)
  next
    case (Some irx)
    obtain i rf x where irx: "irx = (i, rf, x)" by (cases irx)
    have k: "i < 15" "slotRef ix b i = Some rf" "holds ix b i (keyOf c)" "isDelete c \<or> Some x \<in> S"
      "iownOk cl ix b c own" "captured ix w b h"
      using d(4) True by (simp_all add: Some irx)
    have obs: "iobserved S c (x, True)" if "\<not> isIns c" "\<not> isDelete c" "\<not> isPut c"
      using that k(4) unfolding iobserved_def
      by (intro bexI [of _ "Some x"]; cases c) (auto simp: found_def isPut_def isIns_def isDelete_def)
    have ins: "iobserved S c (x, False)" "Some x \<in> S" if "isIns c"
      using that k(4) unfolding iobserved_def
      by (auto intro!: bexI [of _ "Some x"] simp: isIns_def isDelete_def split: call.splits)
    have own: "own = None \<or> isIns c" using k(5) by (auto simp: iownOk_def split: option.splits)
    have tr: "trying ix b j" if "own = Some j" for j using k(5) that by (simp add: iownOk_def ifilled_def)
    show ?thesis
      by (rule igoes_read [OF r ld]; cases c; cases own)
        (use k own obs ins tr True in \<open>auto simp: Some irx ianswerInv_def eff idecides_def isIns_def isPut_def isDelete_def iexisting_def\<close>)
  qed
qed

end
