(* ===== verification/InlineWrites.thy ===== *)
theory InlineWrites
  imports InlineAccess
begin

text \<open>
  The accesses of \<open>Insert\<close>, \<open>Put\<close> and \<open>Delete\<close> that may change the table: choosing, reserving,
  filling, publishing and releasing a slot, the swap of \<open>Put\<close> with its loop, and the
  compare-and-swap of \<open>Delete\<close>. \<open>igoes_all\<close> collects every access.
\<close>

section \<open>Choosing and reserving a slot\<close>

lemma igoes_IChoose:
  assumes r: "iprepared hash c S w b cl eff ix (IChoose h)"
  shows "igoes hash c S w b cl eff ix (IChoose h)"
proof -
  note d = ipreparedD [OF r]
  have eff: "eff = None" using d(5) by (simp add: ianswerInv_def)
  show ?thesis
  proof (cases "invalidMask3 h = 0")
    case False
    then obtain j where j: "j < 3" "lowestSlot (invalidMask3 h) = int j" "\<not> stHi h j" "\<not> stLo h j"
      by (rule invalidMask3_lowest)
    have "ipcInv ix w cl S c b (IReserve h j)"
      using d(4) j by (auto simp: freeSlot_def isInvalid_def slotRef_primary)
    then show ?thesis
      by (rule igoes_read [OF r, rotated]) (use False j in \<open>simp_all add: ianswerInv_def eff idecides_def\<close>)
  next
    case True
    show ?thesis
      by (rule igoes_read [OF r, where q' = "IChoosing h ChooseHeader"])
        (use True d(4) in \<open>simp_all add: ianswerInv_def eff idecides_def\<close>)
  qed
qed

lemma igoes_IChoosing:
  assumes r: "iprepared hash c S w b cl eff ix (IChoosing h cp)"
  shows "igoes hash c S w b cl eff ix (IChoosing h cp)"
proof -
  note d = ipreparedD [OF r]
  have eff: "eff = None" using d(5) by (simp add: ianswerInv_def)
  have cp: "chooseInv ix b h cp" "\<And>i. cp \<noteq> Chosen i" using d(4) by simp_all
  obtain cp' ix' where st: "chooseStep b cp ix = Some (cp', ix')"
    and ok: "cp' = Chosen (-1) \<or> links_extend ix ix' \<and> wf_index ix' \<and> alloc_ok ix' \<and> chooseInv ix' b h cp' \<and>
       linkStep (heldLinks cp) (heldLinks cp') ix ix'"
    by (rule chooseStep_ok [OF imemOkD(1,2) [OF d(1)] d(3) cp]) (rule that)
  let ?q = "case cp' of Chosen i \<Rightarrow> if i < 0 then IGrow else IReserve h (nat i) | _ \<Rightarrow> IChoosing h cp'"
  show ?thesis
  proof (cases "\<exists>i<0. cp' = Chosen i")
    case True
    then show ?thesis
      by (intro igoes_read [OF r, where q' = IGrow]) (use st in \<open>auto simp: d(2) ianswerInv_def eff idecides_def\<close>)
  next
    case False
    then have ok: "links_extend ix ix'" "wf_index ix'" "alloc_ok ix'" "chooseInv ix' b h cp'"
      "linkStep (heldLinks cp) (heldLinks cp') ix ix'" using ok by auto
    note ch = imem_links [OF d(1) ok(1-3)]
    show ?thesis
    proof (rule igoes_write [OF r _ ch(1,2) _ _ _ _ _ _ ch(4)])
      show "iexec hash c (IChoosing h cp) ix = Some (?q, ix')"
        using st False by (auto simp: d(2) split: chooser.splits)
      have v: "isValid ix' = isValid ix" by (rule isValid_frame [OF ch(3)])
      have "icovers ix' b (keyOf c) {}" if "icovers ix b (keyOf c) {}"
        using that ichangesD(9) [OF ch(2) d(3)] imemOkD(5) [OF d(1)] d(3)
        by (fastforce simp: icovers_def v states_wf_def isValid_def isInvalid_def)
      moreover have "captured ix' (countWrites ix ix' w) b h"
        using d(4) by (simp add: countWrites_hdr [OF ch(3)] ch(3) captured_def)
      ultimately show "ipcInv ix' (countWrites ix ix' w) cl S c b ?q"
        using d(4) ok(4) False ch(3) by (auto split: chooser.splits)
      show "linkStep (iheld (IChoosing h cp)) (iheld ?q) ix ix'"
        using ok(5) by (auto simp: linkStep_def split: chooser.splits)
    qed (auto simp: ianswerInv_def eff idecides_def split: chooser.splits if_splits)
  qed
qed

text \<open>A swap of the header that changes slot \<open>i\<close>, which is not published before or after.\<close>

lemma igoes_state:
  assumes r: "iprepared hash c S w b cl eff ix q" and i: "i < 15" "slotRef ix b i \<noteq> None" "\<not> isValid ix b i"
    and h': "h' = setSlotStateAndVersion (hdr ix b) (int i) t" and st: "storeHeader ix b h' = Some ix'"
    and t: "t = SlotTrying \<and> lo \<or> t = SlotInvalid \<and> \<not> lo"
    and ex: "iexec hash c q ix = Some (q', ix')"
    and own: "iowned q = Some i \<or> \<not> trying ix b i" "\<And>j. iowned q' = Some j \<Longrightarrow> j = i" "iheld q = {}" "iheld q' = {}"
    and inv: "hdr ix' b = h' \<Longrightarrow> slotRef ix' = slotRef ix \<Longrightarrow> captured ix' (countWrites ix ix' w) b h' \<Longrightarrow>
        icovers ix' b (keyOf c) {} = icovers ix b (keyOf c) {} \<Longrightarrow> ipcInv ix' (countWrites ix ix' w) cl S c b q'"
    and ans: "ianswerInv S c eff q'" "\<not> idecides q q'"
  shows "igoes hash c S w b cl eff ix q"
proof -
  note d = ipreparedD [OF r]
  obtain rf where rf: "slotRef ix b i = Some rf" using i(2) by auto
  obtain s where s: "slotIn ix b i = Some s" by (rule iload_slot [OF d(1,3) i(1) rf], rule that)
  have bits: "stHi h' j = (if j = i then False else stHi (hdr ix b) j)"
    "stLo h' j = (if j = i then lo else stLo (hdr ix b) j)" if "j < 15" for j
    using that i(1) t unfolding h' by (auto simp: stHi_setSlot stLo_setSlot)
  have ch: "imemOk hash ix'" "ichanges (Some (b, i)) False ix ix'" "hdr ix' b = h'"
    "slotRef ix' = slotRef ix" "slotIn ix' = slotIn ix" "linkStep {} {} ix ix'"
    "icontents hash ix' = icontents hash ix"
    using imem_state [OF d(1,3) i(1,2) st h' bits _ s] i(3) by simp_all
  have v: "isValid ix' b j = isValid ix b j" if "j < 15" for j
    using bits [OF that] i(3) by (auto simp: isValid_def ch(3))
  have "captured ix' (countWrites ix ix' w) b h'" using captured_now [of ix' _ b] by (simp add: ch(3))
  then have "ipcInv ix' (countWrites ix ix' w) cl S c b q'"
    by (intro inv [OF ch(3,4)]) (simp_all add: icovers_def keyIn_def ch(5) v cong: conj_cong imp_cong)
  then show ?thesis
    by (intro igoes_write [OF r ex ch(1,2) _ _ _ ans _ ch(7)]) (use own i ch(6) in auto)
qed

lemma igoes_IReserve:
  assumes r: "iprepared hash c S w b cl eff ix (IReserve h i)"
  shows "igoes hash c S w b cl eff ix (IReserve h i)"
proof -
  note d = ipreparedD [OF r]
  let ?h1 = "setSlotStateAndVersion h (int i) SlotTrying"
  have eff: "eff = None" using d(5) by (simp add: ianswerInv_def)
  obtain ix' where st: "storeHeader ix b ?h1 = Some ix'"
    "atomicCASHeader ix b h ?h1 = Some (if hdr ix b = h then (True, ix') else (False, ix))"
    by (rule CAS_header [OF d(3)])
  show ?thesis
  proof (cases "hdr ix b = h")
    case False
    show ?thesis
      by (rule igoes_read [OF r, where q' = ILoad0])
        (use st(2) False in \<open>simp_all add: reserveSlot_def d(2) ianswerInv_def eff idecides_def\<close>)
  next
    case True
    have i: "i < 15" "isInvalid ix b i" "slotRef ix b i \<noteq> None" "icovers ix b (keyOf c) {}" "isIns c"
      using d(4) True by (simp_all add: freeSlot_def)
    have nv: "\<not> isValid ix b i" "\<not> trying ix b i" using i(2) by (auto simp: isValid_def isInvalid_def trying_def)
    have h1: "?h1 = setSlotStateAndVersion (hdr ix b) (int i) SlotTrying" using True by simp
    show ?thesis
    proof (rule igoes_state [OF r i(1,3) nv(1) h1 st(1), where lo = True])
      show "iexec hash c (IReserve h i) ix = Some (ISlotPtr ?h1 i, ix')"
        using st(2) True by (simp add: reserveSlot_def d(2))
      show "ipcInv ix' (countWrites ix ix' w) cl S c b (ISlotPtr ?h1 i)"
        if "hdr ix' b = ?h1" "slotRef ix' = slotRef ix" "captured ix' (countWrites ix ix' w) b ?h1"
          "icovers ix' b (keyOf c) {} = icovers ix b (keyOf c) {}"
        using that i by (simp add: trying_def stHi_setSlot stLo_setSlot)
    qed (use nv in \<open>simp_all add: ianswerInv_def eff idecides_def\<close>)
  qed
qed

section \<open>Filling the reserved slot\<close>

lemma igoes_ISlotPtr:
  assumes r: "iprepared hash c S w b cl eff ix (ISlotPtr h i)"
  shows "igoes hash c S w b cl eff ix (ISlotPtr h i)"
proof -
  note d = ipreparedD [OF r]
  have "trying ix b i" using d(4) by simp
  then obtain rf where i: "i < 15" "slotRef ix b i = Some rf" by (auto simp: trying_def)
  have "ipcInv ix w cl S c b (IWriteKey h i rf)" using d(4) i by simp
  then show ?thesis
    by (rule igoes_read [OF r, rotated])
      (use getSlotByIndex_ref [OF i(2)] d(5) in \<open>simp_all add: d(2) ianswerInv_def idecides_def\<close>)
qed

text \<open>A store to a reserved slot.\<close>

lemma igoes_fill:
  assumes r: "iprepared hash c S w b cl eff ix q" and t: "trying ix b i" "slotRef ix b i = Some rf"
    and f: "\<And>s. slotIn ix b i = Some s \<Longrightarrow> storeSlot ix rf (f s) = Some ix'"
    and ex: "iexec hash c q ix = Some (q', ix')"
    and own: "iowned q = Some i" "iowned q' = Some i" "iheld q = {}" "iheld q' = {}"
    and inv: "\<And>s. slotIn ix b i = Some s \<Longrightarrow> hdr ix' = hdr ix \<Longrightarrow> slotRef ix' = slotRef ix \<Longrightarrow>
        slotIn ix' b i = Some (f s) \<Longrightarrow> captured ix' w b = captured ix w b \<Longrightarrow>
        icovers ix' b (keyOf c) {} = icovers ix b (keyOf c) {} \<Longrightarrow> ipcInv ix' w cl S c b q'"
    and ans: "ianswerInv S c eff q'" "\<not> idecides q q'"
  shows "igoes hash c S w b cl eff ix q"
proof -
  note d = ipreparedD [OF r]
  have i: "i < 15" "\<not> isValid ix b i" using trying_states [OF t(1)] by simp_all
  obtain s where s: "slotIn ix b i = Some s" by (rule iload_slot [OF d(1,3) i(1) t(2)], rule that)
  have ch: "imemOk hash ix'" "ichanges (Some (b, i)) False ix ix'" "hdr ix' = hdr ix" "slotRef ix' = slotRef ix"
    "\<And>b' j. inBin ix b' \<Longrightarrow> j < 15 \<Longrightarrow> slotIn ix' b' j = (if b' = b \<and> j = i then Some (f s) else slotIn ix b' j)"
    "linkStep {} {} ix ix'" "icontents hash ix' = icontents hash ix"
    using imem_slot [OF d(1,3) i(1) t(2) s f [OF s], where T = "Some (b, i)" and str = False] i(2) by simp_all
  have v: "isValid ix' b j = isValid ix b j" for j by (simp add: isValid_def ch(3))
  have key: "keyIn ix' b j = keyIn ix b j" if "j < 15" "isValid ix b j" for j
    using ch(5) [OF d(3) that(1)] that(2) i by (auto simp: keyIn_def)
  have "ipcInv ix' (countWrites ix ix' w) cl S c b q'"
    unfolding countWrites_hdr [OF ch(3)]
    by (rule inv [OF s ch(3,4)])
      (use i key ch(5) [OF d(3)] in \<open>auto simp: icovers_def v captured_def ch(3) fun_eq_iff\<close>)
  then show ?thesis
    by (intro igoes_write [OF r ex ch(1,2) _ _ _ ans _ ch(7)]) (use own i ch(6) in auto)
qed

lemma istore:
  assumes "imemOk hash ix" "inBin ix b" "trying ix b i" "slotRef ix b i = Some rf"
  obtains ix' s where "storeSlot ix rf (f s) = Some ix'" "slotIn ix b i = Some s" "loadSlot ix rf = Some s"
proof -
  have i: "i < 15" using assms(3) by (simp add: trying_def)
  obtain s where s: "loadSlot ix rf = Some s" "slotIn ix b i = Some s"
    by (rule iload_slot [OF assms(1,2) i assms(4)], rule that)
  then show ?thesis using storeSlot_total [OF s(1)] that by blast
qed

lemma igoes_IWriteKey:
  assumes r: "iprepared hash c S w b cl eff ix (IWriteKey h i rf)"
  shows "igoes hash c S w b cl eff ix (IWriteKey h i rf)"
proof -
  note d = ipreparedD [OF r]
  have t: "trying ix b i" "slotRef ix b i = Some rf" using d(4) by simp_all
  let ?f = "\<lambda>s. s\<lparr>Key := keyOf c\<rparr>"
  obtain ix' s where st: "storeSlot ix rf (?f s) = Some ix'" "slotIn ix b i = Some s" "loadSlot ix rf = Some s"
    by (rule istore [OF d(1,3) t])
  show ?thesis
  proof (rule igoes_fill [OF r t, where f = ?f and q' = "IWriteVal h i rf"])
    fix s assume a: "hdr ix' = hdr ix" "slotRef ix' = slotRef ix" "slotIn ix' b i = Some (?f s)"
      "captured ix' w b = captured ix w b" "icovers ix' b (keyOf c) {} = icovers ix b (keyOf c) {}"
    then show "ipcInv ix' w cl S c b (IWriteVal h i rf)"
      using d(4) by (simp add: trying_frame [OF a(1,2)] keyIn_def)
  qed (use st d(5) in \<open>simp_all add: storeSlotKey_def ianswerInv_def idecides_def\<close>)
qed

lemma igoes_IWriteVal:
  assumes r: "iprepared hash c S w b cl eff ix (IWriteVal h i rf)"
  shows "igoes hash c S w b cl eff ix (IWriteVal h i rf)"
proof -
  note d = ipreparedD [OF r]
  have t: "trying ix b i" "slotRef ix b i = Some rf" using d(4) by simp_all
  let ?f = "\<lambda>s. s\<lparr>Val := valueOf c\<rparr>"
  obtain ix' s where st: "storeSlot ix rf (?f s) = Some ix'" "slotIn ix b i = Some s" "loadSlot ix rf = Some s"
    by (rule istore [OF d(1,3) t])
  show ?thesis
  proof (rule igoes_fill [OF r t, where f = ?f and q' = "IFinalize h i"])
    fix s assume a: "hdr ix' = hdr ix" "slotRef ix' = slotRef ix" "slotIn ix' b i = Some (?f s)"
      "captured ix' w b = captured ix w b" "icovers ix' b (keyOf c) {} = icovers ix b (keyOf c) {}" "slotIn ix b i = Some s"
    then show "ipcInv ix' w cl S c b (IFinalize h i)"
      using d(4) by (cases s) (simp add: iownOk_def ifilled_def trying_frame [OF a(1,2)] keyIn_def)
  qed (use st d(5) in \<open>simp_all add: atomicStoreSlotVal_def ianswerInv_def idecides_def\<close>)
qed

lemma igoes_IUnreserveKey:
  assumes r: "iprepared hash c S w b cl eff ix (IUnreserveKey h i res)"
  shows "igoes hash c S w b cl eff ix (IUnreserveKey h i res)"
proof -
  note d = ipreparedD [OF r]
  have t: "trying ix b i" using d(4) by simp
  then obtain rf where rf: "slotRef ix b i = Some rf" by (auto simp: trying_def)
  let ?f = "\<lambda>s. s\<lparr>Key := 0\<rparr>"
  obtain ix' s where st: "storeSlot ix rf (?f s) = Some ix'" "slotIn ix b i = Some s" "loadSlot ix rf = Some s"
    by (rule istore [OF d(1,3) t rf])
  show ?thesis
  proof (rule igoes_fill [OF r t rf, where f = ?f and q' = "IUnreserveVal h i rf res"])
    assume a: "hdr ix' = hdr ix" "slotRef ix' = slotRef ix"
    then show "ipcInv ix' w cl S c b (IUnreserveVal h i rf res)"
      using d(4) rf by (simp add: trying_frame [OF a(1,2)])
  qed (use st d(5) getSlotByIndex_ref [OF rf] in \<open>simp_all add: d(2) storeSlotKey_def ianswerInv_def idecides_def\<close>)
qed

lemma igoes_IUnreserveVal:
  assumes r: "iprepared hash c S w b cl eff ix (IUnreserveVal h i rf res)"
  shows "igoes hash c S w b cl eff ix (IUnreserveVal h i rf res)"
proof -
  note d = ipreparedD [OF r]
  have t: "trying ix b i" "slotRef ix b i = Some rf" using d(4) by simp_all
  let ?f = "\<lambda>s. s\<lparr>Val := 0\<rparr>"
  obtain ix' s where st: "storeSlot ix rf (?f s) = Some ix'" "slotIn ix b i = Some s" "loadSlot ix rf = Some s"
    by (rule istore [OF d(1,3) t])
  show ?thesis
  proof (rule igoes_fill [OF r t, where f = ?f and q' = "IUnreserveCAS h i res"])
    assume a: "hdr ix' = hdr ix" "slotRef ix' = slotRef ix"
    then show "ipcInv ix' w cl S c b (IUnreserveCAS h i res)"
      using d(4) by (simp add: trying_frame [OF a(1,2)])
  qed (use st d(5) in \<open>simp_all add: atomicStoreSlotVal_def ianswerInv_def idecides_def\<close>)
qed

section \<open>Releasing a slot\<close>

lemma igoes_IUnreserve:
  assumes r: "iprepared hash c S w b cl eff ix (IUnreserve i res)"
  shows "igoes hash c S w b cl eff ix (IUnreserve i res)"
proof -
  note d = ipreparedD [OF r]
  have "trying ix b i" using d(4) by simp
  then have "getSlotState (hdr ix b) (int i) = SlotTrying"
    using slot_state_cases(2) [of i "hdr ix b"] by (simp add: trying_def)
  then show ?thesis
    by (intro igoes_read [OF r, where q' = "IUnreserveKey (hdr ix b) i res"])
      (use imemOkD(6) [OF d(1,3)] d(4,5) in
        \<open>simp_all add: d(2) load_header [OF d(3)] ianswerInv_def idecides_def\<close>)
qed

lemma igoes_IUnreserveCAS:
  assumes r: "iprepared hash c S w b cl eff ix (IUnreserveCAS h i res)"
  shows "igoes hash c S w b cl eff ix (IUnreserveCAS h i res)"
proof -
  note d = ipreparedD [OF r]
  let ?h1 = "setSlotStateAndVersion h (int i) SlotInvalid"
  have eff: "eff = None" using d(5) by (simp add: ianswerInv_def)
  obtain ix' where st: "storeHeader ix b ?h1 = Some ix'"
    "atomicCASHeader ix b h ?h1 = Some (if hdr ix b = h then (True, ix') else (False, ix))"
    by (rule CAS_header [OF d(3)])
  show ?thesis
  proof (cases "hdr ix b = h")
    case False
    show ?thesis
      by (rule igoes_read [OF r, where q' = "IUnreserve i res"])
        (use st(2) False d(4) in \<open>simp_all add: d(2) ianswerInv_def eff idecides_def\<close>)
  next
    case True
    have t: "trying ix b i" "iexisting S res" "isIns c" using d(4) by simp_all
    have i: "i < 15" "slotRef ix b i \<noteq> None" "\<not> isValid ix b i"
      using t(1) trying_states [OF t(1)] by (simp_all add: trying_def)
    have h1: "?h1 = setSlotStateAndVersion (hdr ix b) (int i) SlotInvalid" using True by simp
    have obs: "iobserved S c x" if x: "res = Some x" for x
    proof -
      obtain v where "x = (v, False)" "Some v \<in> S" using t(2) x by (cases x) (auto simp: iexisting_def)
      then show ?thesis
        using t(3) unfolding iobserved_def by (intro bexI [of _ "Some v"]; cases c) (auto simp: isIns_def)
    qed
    show ?thesis
    proof (rule igoes_state [OF r i h1 st(1), where lo = False])
      show "iexec hash c (IUnreserveCAS h i res) ix = Some (iafterUnreserve res, ix')"
        using st(2) True by (simp add: d(2))
    qed (use obs in \<open>auto simp: iafterUnreserve_def ianswerInv_def eff idecides_def split: option.splits\<close>)
  qed
qed

section \<open>The accesses at which a call takes effect\<close>

lemma igoes_decide:
  assumes r: "iprepared hash c S w b cl eff ix q" "iexec hash c q ix = Some (IDone res, ix')"
    and ch: "imemOk hash ix'" "ichanges T False ix ix'"
    and T: "\<And>b' i. T = Some (b', i) \<Longrightarrow> b' = b \<and> (iowned q = Some i \<or> \<not> trying ix b i) \<and>
      (isValid ix b i \<longrightarrow> isDelete c)"
    and dec: "idecides q (IDone res)" "\<not> strays ix b q (IDone res)"
    and ls: "linkStep {} {} ix ix'" "iheld q = {}"
    and res: "res = fst (inlineSpecCall c (icontents hash ix))"
      "\<And>M. M (keyOf c) = icontents hash ix (keyOf c) \<Longrightarrow> fst (inlineSpecCall c M) = res"
    and con: "cl \<Longrightarrow> icontents hash ix' = snd (inlineSpecCall c (icontents hash ix))"
  shows "igoes hash c S w b cl eff ix q"
proof -
  have "iright S c res" using res(2) ipreparedD(6) [OF r(1)] unfolding iright_def by blast
  moreover have "\<exists>T. ichanges T (strays ix b q (IDone res)) ix ix' \<and>
        (\<forall>b' i. T = Some (b', i) \<longrightarrow> b' = b \<and> (iowned q = Some i \<or> \<not> trying ix b i) \<and>
           (isValid ix b i \<longrightarrow> isDelete c \<and> idecides q (IDone res))) \<and>
        (\<forall>i. iowned (IDone res) = Some i \<longrightarrow> iowned q = Some i \<or> T = Some (b, i))"
    using ch(2) T dec by (intro exI [of _ T] conjI allI impI) (blast | simp)+
  ultimately have "istepOk hash c S w b cl eff ix q (IDone res) ix'"
    unfolding istepOk_def Let_def using ch(1) ls con dec res(1) by (simp add: ianswerOf_def ianswerInv_def)
  then show ?thesis unfolding igoes_def using r(2) by blast
qed

lemma igoes_IFinalize:
  assumes r: "iprepared hash c S w b cl eff ix (IFinalize h i)"
  shows "igoes hash c S w b cl eff ix (IFinalize h i)"
proof -
  note d = ipreparedD [OF r]
  let ?h1 = "setSlotStateAndVersion h (int i) SlotValid"
  obtain ix' where st: "storeHeader ix b ?h1 = Some ix'"
    "atomicCASHeader ix b h ?h1 = Some (if hdr ix b = h then (True, ix') else (False, ix))"
    by (rule CAS_header [OF d(3)])
  show ?thesis
  proof (cases "hdr ix b = h")
    case False
    show ?thesis
      by (rule igoes_read [OF r, where q' = "ILoad2 i"])
        (use st(2) False d(4,5) in \<open>simp_all add: finalizeSlot_def d(2) ianswerInv_def idecides_def\<close>)
  next
    case True
    have "isIns c" using d(4) by (simp add: iownOk_def)
    then obtain k v where c: "c = CallInsert k v" by (cases c) (auto simp: isIns_def)
    have t: "trying ix b i" "keyIn ix b i = Some k" "cl \<Longrightarrow> slotIn ix b i = Some \<lparr>Key = k, Val = v\<rparr>"
      "icovers ix b (keyOf c) {}"
      using d(4) True by (simp_all add: iownOk_def ifilled_def c)
    have i: "i < 15" "slotRef ix b i \<noteq> None" using t(1) by (simp_all add: trying_def)
    note nv = trying_states [OF t(1)]
    obtain s where s: "slotIn ix b i = Some s" "Key s = k" using t(2) by (auto simp: keyIn_def)
    have k: "b = binOf ix (hash (Key s))" using d(2) by (simp add: c s)
    have none: "icontents hash ix k = None" using covers_contents(1) [OF r t(4)] by (simp add: c)
    have bits: "stHi ?h1 j = (if j = i then True else stHi (hdr ix b) j)"
      "stLo ?h1 j = (if j = i then False else stLo (hdr ix b) j)" if "j < 15" for j
      using that i(1) True by (simp_all add: stHi_setSlot stLo_setSlot bit_3)
    have h1: "?h1 = setSlotStateAndVersion (hdr ix b) (int i) SlotValid" using True by simp
    have ch: "imemOk hash ix'" "ichanges (Some (b, i)) False ix ix'" "linkStep {} {} ix ix'"
      "icontents hash ix' = (icontents hash ix)(k \<mapsto> Val s)"
      using imem_state [OF d(1,3) i st(1) h1 bits _ s(1) k] nv none s(2) by simp_all
    have "Val s = v" if cl using t(3) [OF that] s by simp
    then show ?thesis
      by (intro igoes_decide [OF r, where res = "(0, True)" and ix' = ix' and T = "Some (b, i)"])
        (use ch st(2) True none nv d(2) in \<open>auto simp: c finalizeSlot_def idecides_def strays_def\<close>)
  qed
qed

lemma igoes_IRemove:
  assumes r: "iprepared hash c S w b cl eff ix (IRemove h i)"
  shows "igoes hash c S w b cl eff ix (IRemove h i)"
proof -
  note d = ipreparedD [OF r]
  let ?h1 = "setSlotStateAndVersion h (int i) SlotInvalid"
  obtain ix' where st: "storeHeader ix b ?h1 = Some ix'"
    "atomicCASHeader ix b h ?h1 = Some (if hdr ix b = h then (True, ix') else (False, ix))"
    by (rule CAS_header [OF d(3)])
  show ?thesis
  proof (cases "hdr ix b = h")
    case False
    show ?thesis
      by (rule igoes_read [OF r, where q' = ILoad0])
        (use st(2) False d(4,5) in \<open>simp_all add: d(2) ianswerInv_def idecides_def\<close>)
  next
    case True
    have "isDelete c" using d(4) by simp
    then obtain k where c: "c = CallDelete k" by (cases c) (auto simp: isDelete_def)
    have i: "i < 15" "slotRef ix b i \<noteq> None" "holds ix b i (keyOf c)" using d(4) True by simp_all
    then obtain s where s: "slotIn ix b i = Some s" by (auto simp: holds_def keyIn_def)
    have v: "isValid ix b i" "\<not> trying ix b i" using i(3) by (auto simp: holds_def isValid_def trying_def)
    note hc = holds_contents [OF r i(1,3) s]
    have k: "b = binOf ix (hash (Key s))" using d(2) by (simp add: hc)
    have bits: "stHi ?h1 j = (if j = i then False else stHi (hdr ix b) j)"
      "stLo ?h1 j = (if j = i then False else stLo (hdr ix b) j)" if "j < 15" for j
      using that i(1) True by (simp_all add: stHi_setSlot stLo_setSlot)
    have h1: "?h1 = setSlotStateAndVersion (hdr ix b) (int i) SlotInvalid" using True by simp
    have ch: "imemOk hash ix'" "ichanges (Some (b, i)) False ix ix'" "linkStep {} {} ix ix'"
      "icontents hash ix' = (icontents hash ix)(k := None)"
      using imem_state [OF d(1,3) i(1,2) st(1) h1 bits _ s k] v(1) hc(3) by (simp_all add: c)
    show ?thesis
      by (intro igoes_decide [OF r, where res = "(0, True)" and ix' = ix' and T = "Some (b, i)"])
        (use ch st(2) True hc(1) v(2) d(2) in \<open>auto simp: c isDelete_def idecides_def strays_def\<close>)
  qed
qed

lemma igoes_ISwap:
  assumes r: "iprepared hash c S w b cl eff ix (ISwap i rf x)"
  shows "igoes hash c S w b cl eff ix (ISwap i rf x)"
proof -
  note d = ipreparedD [OF r]
  have "isPut c" using d(4) by simp
  then obtain k v where c: "c = CallPut k v" by (cases c) (auto simp: isPut_def)
  have i: "i < 15" "slotRef ix b i = Some rf" "Some x \<in> S" using d(4) by simp_all
  obtain s where s: "loadSlot ix rf = Some s" "slotIn ix b i = Some s" "keyIn ix b i = Some (Key s)"
    by (rule iload_slot [OF d(1,3) i(1,2)], rule that)
  show ?thesis
  proof (cases "Key s = k \<and> Val s = x")
    case False
    show ?thesis
      by (rule igoes_read [OF r, where q' = "ILoopHeader i rf"])
        (use False s(1) d(4,5) in \<open>auto simp: c DWCAS_def ianswerInv_def idecides_def\<close>)
  next
    case True
    let ?x = "s\<lparr>Key := k, Val := v\<rparr>"
    obtain ix' where st: "storeSlot ix rf ?x = Some ix'" using storeSlot_total [OF s(1)] by blast
    have ex: "iexec hash c (ISwap i rf x) ix = Some (IDone (x, True), ix')"
      using True s(1) st by (simp add: c DWCAS_def)
    have dec: "idecides (ISwap i rf x) (IDone (x, True))" by (simp add: idecides_def)
    have stray: "strays ix b (ISwap i rf x) (IDone (x, True)) = (\<not> isValid ix b i)" by (simp add: strays_def)
    have ch: "imemOk hash ix'" "ichanges None (\<not> isValid ix b i) ix ix'" "hdr ix' = hdr ix" "linkStep {} {} ix ix'"
      "icontents hash ix' = (if isValid ix b i then (icontents hash ix)(k \<mapsto> v) else icontents hash ix)"
      using imem_slot [OF d(1,3) i(1,2) s(2) st, where T = None and str = "\<not> isValid ix b i"] True by simp_all
    show ?thesis
    proof (cases "isValid ix b i")
      case valid: True
      then have "holds ix b i (keyOf c)" using s(3) True by (simp add: holds_def c)
      note hc = holds_contents(1) [OF r i(1) this s(2)]
      show ?thesis
        by (rule igoes_decide [OF r ex ch(1), where T = None])
          (use ch valid stray dec hc True in \<open>auto simp: c found_def\<close>)
    next
      case False
      have "iright S c (x, True)" unfolding iright_def using i(3) by (intro bexI [of _ "Some x"]) (simp_all add: c found_def)
      moreover have "ichanges None (strays ix b (ISwap i rf x) (IDone (x, True))) ix ix'" using ch(2) stray by simp
      ultimately have "istepOk hash c S w b cl eff ix (ISwap i rf x) (IDone (x, True)) ix'"
        unfolding istepOk_def Let_def using ch(1,4,5) dec stray False
        by (auto simp: ianswerOf_def ianswerInv_def intro!: exI [of _ None])
      then show ?thesis unfolding igoes_def using ex by blast
    qed
  qed
qed

section \<open>The loop of Put\<close>

lemma igoes_ILoopHeader:
  assumes r: "iprepared hash c S w b cl eff ix (ILoopHeader i rf)"
  shows "igoes hash c S w b cl eff ix (ILoopHeader i rf)"
proof -
  note d = ipreparedD [OF r]
  have i: "i < 15" using d(4) by simp
  have ex: "iexec hash c (ILoopHeader i rf) ix =
      Some (if getSlotState (hdr ix b) (int i) \<noteq> SlotValid then ILoad0 else ILoopKey (hdr ix b) i rf, ix)"
    by (simp add: d(2) load_header [OF d(3)])
  show ?thesis
    by (rule igoes_read [OF r ex])
      (use d(4,5) slot_state_cases(3) [OF i, of "hdr ix b"] in \<open>auto simp: ianswerInv_def idecides_def split: if_splits\<close>)
qed

lemma igoes_ILoopKey:
  assumes r: "iprepared hash c S w b cl eff ix (ILoopKey h i rf)"
  shows "igoes hash c S w b cl eff ix (ILoopKey h i rf)"
proof -
  note d = ipreparedD [OF r]
  have i: "i < 15" "slotRef ix b i = Some rf" using d(4) by simp_all
  obtain s where s: "keyIn ix b i = Some (Key s)" "loadSlotKey ix rf = Some (Key s)" "slotIn ix b i = Some s"
    by (rule iload_slot [OF d(1,3) i]) blast
  have "holds ix b i (keyOf c)" if "hdr ix b = h" "Key s = keyOf c"
    using valid_now [OF imemOkD(5) [OF d(1)] d(3) i(1)] that s(1) d(4) by (simp add: holds_def)
  then show ?thesis
    by (intro igoes_read [OF r, where q' = "if Key s \<noteq> keyOf c then ILoad0 else ILoopVal h i rf"])
      (use d(4,5) s(2) in \<open>auto simp: ianswerInv_def idecides_def split: if_splits\<close>)
qed

lemma igoes_ILoopVal:
  assumes r: "iprepared hash c S w b cl eff ix (ILoopVal h i rf)"
  shows "igoes hash c S w b cl eff ix (ILoopVal h i rf)"
proof -
  note d = ipreparedD [OF r]
  have i: "i < 15" "slotRef ix b i = Some rf" using d(4) by simp_all
  obtain s where s: "slotIn ix b i = Some s" "atomicLoadSlotVal ix rf = Some (Val s)"
    by (rule iload_slot [OF d(1,3) i], rule that)
  have inv: "ipcInv ix w cl S c b (ILoopCheck h i rf (Val s))"
    using d(4) holds_contents(2) [OF r i(1) _ s(1)] by auto
  show ?thesis
    by (rule igoes_read [OF r _ inv]) (use d(5) s(2) in \<open>simp_all add: ianswerInv_def idecides_def\<close>)
qed

lemma igoes_ILoopCheck:
  assumes r: "iprepared hash c S w b cl eff ix (ILoopCheck h i rf x)"
  shows "igoes hash c S w b cl eff ix (ILoopCheck h i rf x)"
proof -
  note d = ipreparedD [OF r]
  have ex: "iexec hash c (ILoopCheck h i rf x) ix =
      Some (if hdr ix b \<noteq> h then ILoopHeader i rf else ILoopAgain h i rf x, ix)"
    by (simp add: d(2) load_header [OF d(3)])
  show ?thesis
    by (rule igoes_read [OF r ex]) (use d(4,5) in \<open>auto simp: ianswerInv_def idecides_def split: if_splits\<close>)
qed

lemma igoes_ILoopAgain:
  assumes r: "iprepared hash c S w b cl eff ix (ILoopAgain h i rf x)"
  shows "igoes hash c S w b cl eff ix (ILoopAgain h i rf x)"
proof -
  note d = ipreparedD [OF r]
  have i: "i < 15" "slotRef ix b i = Some rf" using d(4) by simp_all
  obtain s where s: "slotIn ix b i = Some s" "atomicLoadSlotVal ix rf = Some (Val s)"
    by (rule iload_slot [OF d(1,3) i], rule that)
  show ?thesis
    by (rule igoes_read [OF r, where q' = "if Val s \<noteq> x then ILoopHeader i rf else ISwap i rf x"])
      (use d(4,5) s in \<open>auto simp: ianswerInv_def idecides_def split: if_splits\<close>)
qed

section \<open>Every access\<close>

lemmas igoes_simple = igoes_ILoad0 igoes_ILoad2 igoes_IVal igoes_ILoadLinks igoes_IAgain igoes_IChoose
  igoes_IChoosing igoes_IReserve igoes_ISlotPtr igoes_IWriteKey igoes_IWriteVal igoes_IFinalize
  igoes_IUnreserve igoes_IUnreserveKey igoes_IUnreserveVal igoes_IUnreserveCAS igoes_ISwap igoes_IRemove
  igoes_ILoopHeader igoes_ILoopKey igoes_ILoopVal igoes_ILoopCheck igoes_ILoopAgain

theorem igoes_all:
  assumes "iprepared hash c S w b cl eff ix q" "iInCall q" "q \<noteq> IGrow"
  shows "igoes hash c S w b cl eff ix q"
proof (cases q)
  case (IKeys h todo hit rest own)
  show ?thesis
  proof (cases todo)
    case Nil
    with assms(1) show ?thesis unfolding IKeys by (simp add: igoes_IKeys_Nil)
  next
    case (Cons ir todo')
    with assms(1) show ?thesis unfolding IKeys by (cases ir) (simp add: igoes_IKeys_Cons)
  qed
qed (use assms igoes_simple in \<open>auto simp: iInCall_def\<close>)

end
