(* ===== verification/InlineLinearize.thy ===== *)
theory InlineLinearize
  imports InlineWrites
begin

text \<open>
  The invariant of all goroutines of the interleaved inline model together (\<open>iconcInv\<close>), kept by
  every event; with it, the properties of reachable states.
\<close>

section \<open>The invariant\<close>

abbreviation mem1 :: "iconc \<Rightarrow> 64 word index" where "mem1 s \<equiv> imem (machine s)"

abbreviation calling :: "imachine \<Rightarrow> nat \<Rightarrow> icall" where "calling m t \<equiv> icalling (irun m ! t)"

definition irunnerInv :: "(64 word \<Rightarrow> 64 word) \<Rightarrow> iconc \<Rightarrow> nat \<Rightarrow> bool" where
  "irunnerInv hash s t \<longleftrightarrow> (let m = machine s; c = calling m t; S = iseen s t in
     ipcInv (imem m) (iwrites s) (istrays s = 0) S c (ibin hash m t) (point m t) \<and>
     ianswerInv S c (ieffect s t) (point m t) \<and>
     (iInCall (point m t) \<longrightarrow> icontents hash (imem m) (keyOf c) \<in> S))"

definition iapart :: "(64 word \<Rightarrow> 64 word) \<Rightarrow> imachine \<Rightarrow> nat \<Rightarrow> nat \<Rightarrow> bool" where
  "iapart hash m t u \<longleftrightarrow>
     (\<forall>i. iowned (point m t) = Some i \<and> iowned (point m u) = Some i \<longrightarrow> ibin hash m t \<noteq> ibin hash m u) \<and>
     iheld (point m t) \<inter> iheld (point m u) = {}"

definition iconcInv :: "(64 word \<Rightarrow> 64 word) \<Rightarrow> iconc \<Rightarrow> bool" where
  "iconcInv hash s \<longleftrightarrow> imemOk hash (mem1 s) \<and> writesOk (mem1 s) (iwrites s) \<and>
     (\<forall>t < length (irun (machine s)). irunnerInv hash s t) \<and>
     (\<forall>t < length (irun (machine s)). \<forall>u < length (irun (machine s)). t \<noteq> u \<longrightarrow> iapart hash (machine s) t u)"

lemma iconcInvD:
  assumes "iconcInv hash s"
  shows "imemOk hash (mem1 s)" "writesOk (mem1 s) (iwrites s)"
    "t < length (irun (machine s)) \<Longrightarrow> irunnerInv hash s t"
    "t < length (irun (machine s)) \<Longrightarrow> u < length (irun (machine s)) \<Longrightarrow> t \<noteq> u \<Longrightarrow> iapart hash (machine s) t u"
    "inBin (mem1 s) (ibin hash (machine s) t)"
proof -
  show m: "imemOk hash (mem1 s)" using assms by (simp add: iconcInv_def)
  show "inBin (mem1 s) (ibin hash (machine s) t)" unfolding ibin_def by (rule binOf_in [OF imemOkD(3) [OF m]])
qed (use assms in \<open>simp_all add: iconcInv_def\<close>)

lemma irunnerD:
  assumes "irunnerInv hash s t"
  shows "ipcInv (mem1 s) (iwrites s) (istrays s = 0) (iseen s t) (calling (machine s) t) (ibin hash (machine s) t)
      (point (machine s) t)"
    "ianswerInv (iseen s t) (calling (machine s) t) (ieffect s t) (point (machine s) t)"
    "iInCall (point (machine s) t) \<Longrightarrow> icontents hash (mem1 s) (keyOf (calling (machine s) t)) \<in> iseen s t"
  using assms by (simp_all add: irunnerInv_def Let_def)

lemma iapart_sym: "iapart hash m t u \<Longrightarrow> iapart hash m u t"
  by (auto simp: iapart_def)

lemma iquiet_iconcInv:
  assumes "iquiet hash s"
  shows "iconcInv hash s"
proof -
  have "imemOk hash (mem1 s)" using assms by (simp add: iquiet_def imemOk_def settled_def)
  moreover have idle: "point (machine s) t = IIdle" if "t < length (irun (machine s))" for t
    using assms that by (simp add: iquiet_def)
  ultimately show ?thesis
    unfolding iconcInv_def using assms
    by (auto simp: irunnerInv_def iapart_def iInCall_def ianswerInv_def iquiet_def writesOk_def)
qed

section \<open>Events\<close>

lemma ianswerInv_mono: "ianswerInv S c eff q \<Longrightarrow> S \<subseteq> S' \<Longrightarrow> ianswerInv S' c eff q"
  unfolding ianswerInv_def iobserved_def iright_def by (cases q; cases eff; simp; blast)

lemma ipcInv_mono:
  assumes "writesOk ix w" "inBin ix b" "states_wf ix" "ipcInv ix w cl S c b q" "S \<subseteq> S'"
  shows "ipcInv ix w cl S' c b q"
proof -
  have "ielsewhere None {} cl cl ix ix w b" using assms(1,2) by (simp add: ielsewhere_def linkStep_same)
  from ist_pcInv [OF this assms(3-5)] show ?thesis by simp
qed

lemma perform_Begin:
  "perform hash (Begin t c) m = Some m' \<longleftrightarrow> running m \<and> t < length (irun m) \<and> \<not> iInCall (point m t) \<and>
     m' = m\<lparr>irun := (irun m)[t := \<lparr>icalling = c, ipoint = ILoad0, istarted = iclock m\<rparr>], iclock := Suc (iclock m)\<rparr>"
  by (auto simp: point_def)

lemma begin_inv:
  assumes inv: "iconcInv hash s" and p: "perform hash (Begin t c) (machine s) = Some m'"
  shows "iconcInv hash (observe hash (Begin t c) s m')" (is "iconcInv hash ?s")
    and "imem m' = mem1 s"
proof -
  let ?m = "machine s"
  note p = p [unfolded perform_Begin]
  have m: "imem m' = imem ?m" "length (irun m') = length (irun ?m)"
    "point m' u = (if u = t then ILoad0 else point ?m u)"
    "calling m' u = (if u = t then c else calling ?m u)" for u
    using p by (auto simp: point_def nth_list_update)
  show "imem m' = mem1 s" by (rule m(1))
  have s: "machine ?s = m'" "iwrites ?s = iwrites s" "istrays ?s = istrays s"
    "iseen ?s u = (if u = t then {icontents hash (imem ?m) (keyOf c)} else iseen s u)"
    "ieffect ?s u = (if u = t then None else ieffect s u)" for u
    by (simp_all add: m)
  have bin: "u \<noteq> t \<Longrightarrow> ibin hash m' u = ibin hash ?m u" for u by (simp add: ibin_def m)
  have "irunnerInv hash ?s u" if u: "u < length (irun ?m)" for u
  proof (cases "u = t")
    case True
    then show ?thesis unfolding irunnerInv_def Let_def s by (simp add: m ianswerInv_def)
  next
    case False
    then show ?thesis using iconcInvD(3) [OF inv u] unfolding irunnerInv_def Let_def s by (simp add: m bin)
  qed
  moreover have "iapart hash m' u v" if uv: "u < length (irun ?m)" "v < length (irun ?m)" "u \<noteq> v" for u v
    using iconcInvD(4) [OF inv uv] uv(3) bin [of u] bin [of v] by (auto simp: iapart_def m)
  ultimately show "iconcInv hash ?s"
    unfolding iconcInv_def s m using iconcInvD(1,2) [OF inv] by blast
qed

lemma iexec_inCall: "iexec hash c q ix = Some r \<Longrightarrow> iInCall q \<and> q \<noteq> IGrow"
  by (cases q) (auto simp: iInCall_def)

lemma perform_Access:
  assumes "perform hash (Access t) m = Some m'"
  obtains q ix where "t < length (irun m)" "iexec hash (calling m t) (point m t) (imem m) = Some (q, ix)"
    "imem m' = ix" "length (irun m') = length (irun m)" "\<And>u. point m' u = (if u = t then q else point m u)"
    "\<And>u. calling m' u = calling m u"
proof -
  obtain q ix where "t < length (irun m)" "iexec hash (calling m t) (point m t) (imem m) = Some (q, ix)"
    "imem m' = ix" "irun m' = (irun m)[t := (irun m ! t)\<lparr>ipoint := q\<rparr>]"
    using assms by (auto simp: point_def Let_def split: if_splits bind_splits)
  then show ?thesis by (intro that [of q ix]) (auto simp: point_def nth_list_update)
qed

lemma access_ok:
  assumes inv: "iconcInv hash s" and t: "t < length (irun (machine s))"
    and call: "iInCall (point (machine s) t)" "point (machine s) t \<noteq> IGrow"
  shows "igoes hash (calling (machine s) t) (iseen s t) (iwrites s) (ibin hash (machine s) t) (istrays s = 0)
    (ieffect s t) (mem1 s) (point (machine s) t)"
  by (rule igoes_all [OF _ call])
    (use iconcInvD(1) [OF inv] irunnerD [OF iconcInvD(3) [OF inv t]] call in \<open>simp add: iprepared_def ibin_def\<close>)

lemma idecides_answer:
  "idecides q q' \<Longrightarrow> ianswerInv S c (ianswerOf q') q' \<Longrightarrow> \<exists>res. q' = IDone res"
  by (cases q) (auto simp: idecides_def split: ipc.splits)

lemma istepOkD:
  assumes "istepOk hash c S w b cl eff ix q q' ix'"
  shows "imemOk hash ix'" "linkStep (iheld q) (iheld q') ix ix'"
    "ipcInv ix' (countWrites ix ix' w) (cl \<and> \<not> strays ix b q q') S c b q'"
    "ianswerInv S c (if idecides q q' then ianswerOf q' else eff) q'"
    "\<not> (idecides q q' \<and> \<not> strays ix b q q') \<Longrightarrow> icontents hash ix' = icontents hash ix"
    "idecides q q' \<Longrightarrow> \<not> strays ix b q q' \<Longrightarrow> ianswerOf q' = Some (fst (inlineSpecCall c (icontents hash ix)))"
    "idecides q q' \<Longrightarrow> \<not> strays ix b q q' \<Longrightarrow> cl \<Longrightarrow> icontents hash ix' = snd (inlineSpecCall c (icontents hash ix))"
  using assms unfolding istepOk_def Let_def by (blast | simp split: if_splits)+

lemma access_iconcInv:
  assumes inv: "iconcInv hash s" and p: "perform hash (Access t) (machine s) = Some m'"
    and wrap: "\<And>b. inBin (mem1 s) b \<Longrightarrow> countWrites (mem1 s) (imem m') (iwrites s) b < 2 ^ 32"
  shows "iconcInv hash (observe hash (Access t) s m')" (is "iconcInv hash ?s")
    and "inBin (imem m') = inBin (mem1 s)"
    and "istepOk hash (calling (machine s) t) (iseen s t) (iwrites s) (ibin hash (machine s) t) (istrays s = 0)
      (ieffect s t) (mem1 s) (point (machine s) t) (point m' t) (imem m')"
proof -
  let ?m = "machine s"
  let ?c = "calling ?m t" and ?q = "point ?m t" and ?b = "ibin hash ?m t" and ?ix = "imem ?m" and ?ix' = "imem m'"
  let ?n = "length (irun ?m)" and ?str = "strays ?ix ?b ?q (point m' t)"
  obtain q where t: "t < ?n" and ex: "iexec hash ?c ?q ?ix = Some (q, ?ix')"
    and m: "length (irun m') = ?n" "\<And>u. point m' u = (if u = t then q else point ?m u)"
      "\<And>u. calling m' u = calling ?m u"
    by (rule perform_Access [OF p], simp)
  note call = iexec_inCall [OF ex]
  have q': "point m' t = q" by (simp add: m)
  show ok: "istepOk hash ?c (iseen s t) (iwrites s) ?b (istrays s = 0) (ieffect s t) ?ix ?q (point m' t) ?ix'"
    using access_ok [OF inv t] call ex unfolding igoes_def q' by auto
  note k = istepOkD(1-4) [OF ok]
  obtain T where T: "ichanges T ?str ?ix ?ix'"
    "\<And>b' i. T = Some (b', i) \<Longrightarrow> b' = ?b \<and> (iowned ?q = Some i \<or> \<not> trying ?ix ?b i)"
    "\<And>i. iowned q = Some i \<Longrightarrow> iowned ?q = Some i \<or> T = Some (?b, i)"
    using ok q' unfolding istepOk_def by blast
  have inb: "inBin ?ix' = inBin ?ix" using ichangesD(2) [OF T(1)] by (simp add: fun_eq_iff)
  then show "inBin (imem m') = inBin (mem1 s)" .
  have bin: "ibin hash m' u = ibin hash ?m u" for u by (simp add: ibin_def m(3) ichangesD(3) [OF T(1)])
  have ow: "writesOk ?ix' (countWrites ?ix ?ix' (iwrites s))"
    by (rule writesOk_step [OF iconcInvD(2) [OF inv]]) (use inb ichangesD(6) [OF T(1)] wrap in auto)
  define s' where "s' = ?s"
  have s: "machine s' = m'" "iwrites s' = countWrites ?ix ?ix' (iwrites s)"
    "iseen s' u = (if u < ?n \<and> iInCall (point ?m u)
       then insert (icontents hash ?ix' (keyOf (calling ?m u))) (iseen s u) else iseen s u)"
    "ieffect s' u = (if u = t \<and> idecides ?q q then ianswerOf q else ieffect s u)"
    "istrays s' = (if ?str then Suc (istrays s) else istrays s)" for u
    by (simp_all add: s'_def Let_def q')
  have cl: "(istrays s' = 0) = (istrays s = 0 \<and> \<not> ?str)" unfolding s(5) by simp
  have sub: "iseen s u \<subseteq> iseen s' u" for u using s(3) by auto
  have R: "irunnerInv hash s u" if "u < ?n" for u by (rule iconcInvD(3) [OF inv that])
  have free: "T \<noteq> Some (ibin hash ?m u, i)" if u: "u < ?n" "u \<noteq> t" "iowned (point ?m u) = Some i" for u i
  proof
    assume T': "T = Some (ibin hash ?m u, i)"
    then have "ibin hash ?m u = ?b" "iowned ?q = Some i \<or> \<not> trying ?ix ?b i" using T(2) by auto
    then show False
      using iowned_trying [OF irunnerD(1) [OF R [OF u(1)]] u(3)] iconcInvD(4) [OF inv u(1) t u(2)] u(3)
      by (auto simp: iapart_def)
  qed
  have held: "iheld ?q \<inter> iheld (point ?m u) = {}" if "u < ?n" "u \<noteq> t" for u
    using iconcInvD(4) [OF inv t that(1)] that(2) by (auto simp: iapart_def)
  have con: "iInCall (point m' u) \<longrightarrow> icontents hash ?ix' (keyOf (calling ?m u)) \<in> iseen s' u" if "u < ?n" for u
    using that call by (auto simp: s(3) m(2))
  have "irunnerInv hash s' u" if u: "u < ?n" for u
  proof (cases "u = t")
    case True
    have "ipcInv ?ix' (countWrites ?ix ?ix' (iwrites s)) (istrays s' = 0) (iseen s' t) ?c ?b q"
      using ipcInv_mono [OF ow _ imemOkD(5) [OF k(1)] k(3) sub] iconcInvD(5) [OF inv, of t] by (simp add: cl inb q')
    moreover have "ianswerInv (iseen s' t) ?c (ieffect s' t) q"
      using ianswerInv_mono [OF k(4) sub] unfolding q' s(4) by simp
    ultimately show ?thesis
      unfolding irunnerInv_def Let_def s(1,2) True bin m(3) q' using con [OF t] by (simp add: q')
  next
    case False
    have "ielsewhere T (iheld ?q) (istrays s = 0) (istrays s' = 0) ?ix ?ix' (iwrites s) (ibin hash ?m u)"
      unfolding ielsewhere_def
    proof (intro conjI)
      show "ichanges T (istrays s' \<noteq> 0) ?ix ?ix'" by (rule ichanges_weaken [OF T(1)]) (use cl in blast)
      show "linkStep (iheld ?q) {} ?ix ?ix'" using k(2) by (simp add: linkStep_def)
    qed (use iconcInvD(2,5) [OF inv] ow cl in blast)+
    from ist_pcInv [OF this imemOkD(5) [OF iconcInvD(1) [OF inv]] irunnerD(1) [OF R [OF u]] sub]
    have "ipcInv ?ix' (countWrites ?ix ?ix' (iwrites s)) (istrays s' = 0) (iseen s' u) (calling ?m u)
        (ibin hash ?m u) (point ?m u)"
      using free [OF u False] held [OF u False] by blast
    moreover have "ianswerInv (iseen s' u) (calling ?m u) (ieffect s u) (point ?m u)"
      by (rule ianswerInv_mono [OF irunnerD(2) [OF R [OF u]] sub])
    ultimately show ?thesis
      unfolding irunnerInv_def Let_def s(1,2) bin m(3) using con [OF u] False by (simp add: m(2) s(4))
  qed
  moreover
  have mine: "iapart hash m' t u" if u: "u < ?n" "u \<noteq> t" for u
  proof -
    have "\<not> (iowned q = Some i \<and> iowned (point ?m u) = Some i \<and> ?b = ibin hash ?m u)" for i
      using T(3) [of i] free [OF u, of i] iconcInvD(4) [OF inv t u(1)] u(2) by (auto simp: iapart_def)
    moreover have "iheld q \<inter> iheld (point ?m u) = {}"
      using k(2) held [OF u] iheld_free [OF irunnerD(1) [OF R [OF u(1)]]] unfolding linkStep_def linkFree_def q' by fastforce
    ultimately show ?thesis using u(2) unfolding iapart_def bin by (auto simp: m(2))
  qed
  have "iapart hash m' u v" if uv: "u < ?n" "v < ?n" "u \<noteq> v" for u v
  proof (cases "u = t \<or> v = t")
    case True
    then show ?thesis using mine [of u] mine [of v] uv iapart_sym by metis
  next
    case False
    then show ?thesis using iconcInvD(4) [OF inv uv] by (simp add: iapart_def bin m(2))
  qed
  ultimately show "iconcInv hash ?s"
    unfolding s'_def [symmetric] iconcInv_def s(1,2) m(1) using k(1) ow by blast
qed

section \<open>Reachable states\<close>

lemma ichangeOf_cases:
  assumes "iconcInv hash s" "perform hash e (machine s) = Some m'"
    and "\<And>b. inBin (mem1 s) b \<Longrightarrow> iwrites (observe hash e s m') b < 2 ^ 32"
  shows "iconcInv hash (observe hash e s m')" "inBin (imem m') = inBin (mem1 s)"
    "istrays (observe hash e s m') = 0 \<Longrightarrow>
       inlineSpecRun (map fst (ichangeOf hash e (machine s) m')) (icontents hash (mem1 s)) =
         (map snd (ichangeOf hash e (machine s) m'), icontents hash (imem m'))"
proof -
  have "iconcInv hash (observe hash e s m') \<and> inBin (imem m') = inBin (mem1 s) \<and>
    (istrays (observe hash e s m') = 0 \<longrightarrow>
       inlineSpecRun (map fst (ichangeOf hash e (machine s) m')) (icontents hash (mem1 s)) =
         (map snd (ichangeOf hash e (machine s) m'), icontents hash (imem m')))"
  proof (cases e)
    case (Begin t c)
    then show ?thesis using begin_inv [OF assms(1)] assms(2) by (simp del: observe.simps perform.simps)
  next
    case (Access t)
    have "countWrites (mem1 s) (imem m') (iwrites s) b < 2 ^ 32" if "inBin (mem1 s) b" for b
      using assms(3) [OF that] by (simp add: Access Let_def)
    note a = access_iconcInv [OF assms(1) assms(2) [unfolded Access] this]
    note k = istepOkD(5-7) [OF a(3)]
    show ?thesis
      unfolding Access
    proof (intro conjI impI)
      assume "istrays (observe hash (Access t) s m') = 0"
      then have z: "istrays s = 0" "\<not> strays (mem1 s) (ibin hash (machine s) t) (point (machine s) t) (point m' t)"
        by (auto simp: Let_def split: if_splits)
      let ?r = "inlineSpecCall (calling (machine s) t) (icontents hash (mem1 s))"
      show "inlineSpecRun (map fst (ichangeOf hash (Access t) (machine s) m')) (icontents hash (mem1 s)) =
         (map snd (ichangeOf hash (Access t) (machine s) m'), icontents hash (imem m'))"
      proof (cases "idecides (point (machine s) t) (point m' t)")
        case True
        then show ?thesis using k(2,3) z by (simp split: prod.split)
      next
        case False
        then show ?thesis using k(1) by simp
      qed
    qed (use a in blast)+
  qed
  then show "iconcInv hash (observe hash e s m')" "inBin (imem m') = inBin (mem1 s)"
    "istrays (observe hash e s m') = 0 \<Longrightarrow>
       inlineSpecRun (map fst (ichangeOf hash e (machine s) m')) (icontents hash (mem1 s)) =
         (map snd (ichangeOf hash e (machine s) m'), icontents hash (imem m'))" by blast+
qed

lemma observe_mono: "iwrites s b \<le> iwrites (observe hash e s m') b" "istrays s \<le> istrays (observe hash e s m')"
  by (cases e; simp add: Let_def countWrites_def)+

lemma observe_machine [simp]: "machine (observe hash e s m') = m'"
  by (cases e) (simp_all add: Let_def)

lemma inlineSpecRun_append:
  "inlineSpecRun (cs @ ds) M =
     (let (rs, M') = inlineSpecRun cs M; (rs', M'') = inlineSpecRun ds M' in (rs @ rs', M''))"
  by (induction cs arbitrary: M) (auto simp: Let_def split: prod.splits)

theorem ireachable_inv:
  assumes q: "iquiet hash s0" and r: "ireachable hash s0 H s"
    and wrap: "\<And>b. inBin (mem1 s0) b \<Longrightarrow> iwrites s b < 2 ^ 32"
  shows "iconcInv hash s" "inBin (mem1 s) = inBin (mem1 s0)"
    "istrays s = 0 \<Longrightarrow>
       inlineSpecRun (map fst H) (icontents hash (mem1 s0)) = (map snd H, icontents hash (mem1 s))"
proof -
  have "iconcInv hash s \<and> inBin (mem1 s) = inBin (mem1 s0) \<and> (istrays s = 0 \<longrightarrow>
      inlineSpecRun (map fst H) (icontents hash (mem1 s0)) = (map snd H, icontents hash (mem1 s)))"
    using r wrap
  proof (induction rule: ireachable.induct)
    case start
    then show ?case using iquiet_iconcInv [OF q] by simp
  next
    case (more H s e m')
    have IH: "iconcInv hash s" "inBin (mem1 s) = inBin (mem1 s0)"
      "istrays s = 0 \<longrightarrow>
         inlineSpecRun (map fst H) (icontents hash (mem1 s0)) = (map snd H, icontents hash (mem1 s))"
      using more.IH more.prems observe_mono(1) by (meson le_less_trans)+
    have "iwrites (observe hash e s m') b < 2 ^ 32" if "inBin (mem1 s) b" for b
      using more.prems that IH(2) by simp
    note a = ichangeOf_cases [OF IH(1) more.hyps(2) this]
    have "istrays (observe hash e s m') = 0 \<Longrightarrow> istrays s = 0" using observe_mono(2) [of s hash e m'] by simp
    then show ?case using a IH by (simp add: inlineSpecRun_append Let_def)
  qed
  then show "iconcInv hash s" "inBin (mem1 s) = inBin (mem1 s0)"
    "istrays s = 0 \<Longrightarrow>
       inlineSpecRun (map fst H) (icontents hash (mem1 s0)) = (map snd H, icontents hash (mem1 s))" by blast+
qed

text \<open>The answer of a call that has returned.\<close>

lemma ianswered:
  assumes "iconcInv hash s" "t < length (irun (machine s))" "point (machine s) t = IDone res"
  shows "ieffect s t = Some res \<and> iright (iseen s t) (calling (machine s) t) res \<or>
    ieffect s t = None \<and> iobserved (iseen s t) (calling (machine s) t) res"
  using irunnerD(2) [OF iconcInvD(3) [OF assms(1,2)]] assms(3)
  by (auto simp: ianswerInv_def split: option.splits)

end
