(* ===== verification/InlineStrays.thy ===== *)
theory InlineStrays
  imports InlineLinearize
begin

text \<open>
  A swap of \<open>Put\<close> can only hit a slot that is not published if an entry has been deleted: as long as
  no \<open>Delete\<close> has taken effect, a published slot stays published, and \<open>Put\<close> has seen its slot
  published (\<open>puttingOk\<close>).
\<close>

text \<open>The slot that a \<open>Put\<close> has found.\<close>

fun putting :: "ipc \<Rightarrow> nat option" where
  "putting (ISwap i r x) = Some i"
| "putting (ILoopHeader i r) = Some i"
| "putting (ILoopKey h i r) = Some i"
| "putting (ILoopVal h i r) = Some i"
| "putting (ILoopCheck h i r x) = Some i"
| "putting (ILoopAgain h i r x) = Some i"
| "putting q = None"

definition puttingOk :: "(64 word \<Rightarrow> 64 word) \<Rightarrow> imachine \<Rightarrow> bool" where
  "puttingOk hash m \<longleftrightarrow>
     (\<forall>t < length (irun m). \<forall>i. putting (point m t) = Some i \<longrightarrow> isValid (imem m) (ibin hash m t) i)"

lemma ipcInv_putting: "ipcInv ix w cl S c b q \<Longrightarrow> putting q = Some i \<Longrightarrow> i < 15 \<and> isPut c"
  by (cases q) auto

lemma putting_afterMiss [simp]: "putting (iafterMiss c h own) = None"
  by (cases "(c, h, own)" rule: iafterMiss.cases) auto

lemma putting_afterMatch:
  assumes "putting (iafterMatch c h fnd own) = Some i"
  obtains r x where "fnd = Some (i, r, x)" "isPut c"
  using assms that by (cases "(c, h, fnd, own)" rule: iafterMatch.cases) (auto simp: isPut_def)

text \<open>How a call gets to a slot, and why the slot is published then.\<close>

lemma putting_step:
  assumes r: "iprepared hash c S w b cl eff ix q" and ex: "iexec hash c q ix = Some (q', ix')"
    and p: "putting q' = Some i"
  shows "putting q = Some i \<or> ix' = ix \<and> isValid ix b i"
proof (cases q)
  case (IKeys h todo hit rest own)
  then show ?thesis
    using ex p by (cases todo; cases c)
      (auto simp: iafterKeys_def split: bind_splits option.splits list.splits if_splits)
next
  case (IAgain h fnd own)
  note d = ipreparedD [OF r]
  have q': "h = hdr ix b" "q' = iafterMatch c h fnd own" "ix' = ix"
    using ex p by (auto simp: IAgain d(2) load_header [OF d(3)] iafterMismatch_def split: if_splits option.splits)
  obtain rf x where "fnd = Some (i, rf, x)" using p q'(2) by (metis putting_afterMatch)
  then show ?thesis using d(4) q' by (simp add: IAgain holds_def)
qed (use ex p in \<open>auto simp: Let_def iafterMismatch_def iafterUnreserve_def split: bind_splits option.splits if_splits chooser.splits\<close>)

text \<open>Only the access at which a \<open>Delete\<close> takes effect makes a published slot invalid.\<close>

lemma stays_valid:
  assumes ok: "istepOk hash c S w b cl eff ix q q' ix'" and v: "inBin ix b'" "i < 15" "isValid ix b' i"
    and nd: "\<not> (isDelete c \<and> idecides q q')"
  shows "isValid ix' b' i"
proof -
  obtain T where T: "ichanges T (strays ix b q q') ix ix'"
    "\<forall>b' i. T = Some (b', i) \<longrightarrow> b' = b \<and> (iowned q = Some i \<or> \<not> trying ix b i) \<and>
       (isValid ix b i \<longrightarrow> isDelete c \<and> idecides q q')"
    using ok unfolding istepOk_def by (elim conjE exE) (rule that)
  have "T \<noteq> Some (b', i)" using T(2) v(3) nd by blast
  then show ?thesis using ichangesD(7,8) [OF T(1) v(1,2)] v(3) by (simp add: isValid_def)
qed

lemma strays_putting: "strays ix b q q' \<Longrightarrow> \<exists>i. putting q = Some i \<and> \<not> isValid ix b i"
  by (auto simp: strays_def split: ipc.splits)

lemma event_puttingOk:
  assumes inv: "iconcInv hash s" and p: "perform hash e (machine s) = Some m'" and ok: "puttingOk hash (machine s)"
    and wrap: "\<And>b. inBin (mem1 s) b \<Longrightarrow> iwrites (observe hash e s m') b < 2 ^ 32"
    and nd: "\<And>k res. (CallDelete k, res) \<notin> set (ichangeOf hash e (machine s) m')"
  shows "puttingOk hash m'" "istrays (observe hash e s m') = istrays s"
proof -
  let ?m = "machine s"
  have "puttingOk hash m' \<and> istrays (observe hash e s m') = istrays s"
  proof (cases e)
    case (Begin t c)
    then have "imem m' = imem ?m" "length (irun m') = length (irun ?m)"
      "\<And>u. point m' u = (if u = t then ILoad0 else point ?m u)"
      "\<And>u. u \<noteq> t \<Longrightarrow> ibin hash m' u = ibin hash ?m u"
      using p by (auto simp: perform_Begin point_def ibin_def nth_list_update simp del: perform.simps)
    then show ?thesis using ok Begin by (auto simp: puttingOk_def)
  next
    case (Access t)
    let ?c = "calling ?m t" and ?q = "point ?m t" and ?b = "ibin hash ?m t"
    have w: "countWrites (mem1 s) (imem m') (iwrites s) b < 2 ^ 32" if "inBin (mem1 s) b" for b
      using wrap [OF that] by (simp add: Access Let_def)
    have a: "istepOk hash ?c (iseen s t) (iwrites s) ?b (istrays s = 0) (ieffect s t) (mem1 s) ?q (point m' t) (imem m')"
      by (rule access_iconcInv(3) [OF inv p [unfolded Access] w])
    obtain q where t: "t < length (irun ?m)" and ex: "iexec hash ?c ?q (imem ?m) = Some (q, imem m')"
      and m: "length (irun m') = length (irun ?m)" "\<And>u. point m' u = (if u = t then q else point ?m u)"
        "\<And>u. calling m' u = calling ?m u"
      by (rule perform_Access [OF p [unfolded Access]], simp)
    have q': "point m' t = q" by (simp add: m)
    have st: "\<not> strays (imem ?m) ?b ?q q"
      using strays_putting [of "imem ?m" ?b ?q q] ok t unfolding puttingOk_def by blast
    have "\<not> (isDelete ?c \<and> idecides ?q q)"
    proof
      assume d: "isDelete ?c \<and> idecides ?q q"
      then obtain k where "?c = CallDelete k" by (cases ?c) (auto simp: isDelete_def)
      then show False using nd [of k "the (ianswerOf q)"] d st by (simp add: Access q')
    qed
    note sv = stays_valid [OF a _ _ _ this [folded q']]
    have bin: "ibin hash m' u = ibin hash ?m u" for u
    proof -
      obtain T where "ichanges T (strays (imem ?m) ?b ?q (point m' t)) (imem ?m) (imem m')"
        using a unfolding istepOk_def by blast
      then show ?thesis by (simp add: ibin_def m(3) ichangesD(3))
    qed
    have pr: "iprepared hash ?c (iseen s t) (iwrites s) ?b (istrays s = 0) (ieffect s t) (imem ?m) ?q"
      using iconcInvD(1) [OF inv] irunnerD [OF iconcInvD(3) [OF inv t]] iexec_inCall [OF ex]
      by (simp add: iprepared_def ibin_def)
    have "isValid (imem m') (ibin hash m' u) i" if u: "u < length (irun ?m)" "putting (point m' u) = Some i" for u i
    proof -
      have old: "isValid (imem m') (ibin hash ?m u) i" if "putting (point ?m u) = Some i"
        using sv [OF iconcInvD(5) [OF inv]] ok u(1) that ipcInv_putting [OF irunnerD(1) [OF iconcInvD(3) [OF inv u(1)]] that]
        unfolding puttingOk_def by blast
      show ?thesis
      proof (cases "u = t")
        case True
        then show ?thesis using old putting_step [OF pr ex, of i] u(2) by (auto simp: m(2) bin)
      next
        case False
        then show ?thesis using old u(2) by (simp add: m(2) bin)
      qed
    qed
    moreover have "istrays (observe hash e s m') = istrays s" using st by (simp add: Access Let_def q')
    ultimately show ?thesis unfolding puttingOk_def m(1) by blast
  qed
  then show "puttingOk hash m'" "istrays (observe hash e s m') = istrays s" by blast+
qed

theorem no_Delete_no_strays:
  assumes q: "iquiet hash s0" and r: "ireachable hash s0 H s"
    and wrap: "\<And>b. inBin (mem1 s0) b \<Longrightarrow> iwrites s b < 2 ^ 32"
    and nd: "\<And>k res. (CallDelete k, res) \<notin> set H"
  shows "istrays s = 0"
proof -
  have "puttingOk hash (machine s) \<and> istrays s = 0"
    using r wrap nd
  proof (induction rule: ireachable.induct)
    case start
    then show ?case using q by (simp add: puttingOk_def iquiet_def)
  next
    case (more H s e m')
    have w: "\<And>b. inBin (mem1 s0) b \<Longrightarrow> iwrites s b < 2 ^ 32"
      using more.prems(1) observe_mono(1) by (meson le_less_trans)
    have IH: "puttingOk hash (machine s) \<and> istrays s = 0"
      by (rule more.IH [OF w]) (use more.prems(2) in auto)
    note inv = ireachable_inv(1,2) [OF q more.hyps(1) w]
    have "iwrites (observe hash e s m') b < 2 ^ 32" if "inBin (mem1 s) b" for b
      using more.prems(1) that inv(2) by simp
    from event_puttingOk [OF inv(1) more.hyps(2) _ this] IH more.prems(2) show ?case by auto
  qed
  then show ?thesis by blast
qed

end
