(* ===== verification/InlineHistories.thy ===== *)
theory InlineHistories
  imports InlineInterleave "HOL-Library.Multiset"
begin

text \<open>
  What it means that a history of calls linearizes, a search that decides it, and a history of
  the inline package that does not.
\<close>

section \<open>Linearizable histories\<close>

definition opCall :: "iop \<Rightarrow> icall" where "opCall o1 = fst o1"

definition opAnswer :: "iop \<Rightarrow> ianswer" where "opAnswer o1 = fst (snd o1)"

text \<open>\<open>o1\<close> had returned when \<open>o2\<close> started.\<close>

definition returnedBefore :: "iop \<Rightarrow> iop \<Rightarrow> bool" where
  "returnedBefore o1 o2 \<longleftrightarrow> snd (snd (snd o1)) < fst (snd (snd o2))"

text \<open>
  A complete history linearizes, from contents \<open>M\<close>, if its calls can be put in a sequential order
  that respects the order of calls that do not overlap and gives every call its answer.
\<close>

definition linearizable :: "(64 word \<Rightarrow> 64 word option) \<Rightarrow> iop list \<Rightarrow> bool" where
  "linearizable M ops \<longleftrightarrow> (\<exists>order. mset order = mset ops \<and>
     sorted_wrt (\<lambda>o1 o2. \<not> returnedBefore o2 o1) order \<and>
     fst (inlineSpecRun (map opCall order) M) = map opAnswer order)"

text \<open>The search: try every call that no other one precedes as the first.\<close>

fun explained :: "nat \<Rightarrow> iop list \<Rightarrow> (64 word \<Rightarrow> 64 word option) \<Rightarrow> bool" where
  "explained 0 ops M \<longleftrightarrow> ops = []"
| "explained (Suc n) ops M \<longleftrightarrow>
     list_ex (\<lambda>o1. list_all (\<lambda>o2. \<not> returnedBefore o2 o1) (remove1 o1 ops) \<and>
       fst (inlineSpecCall (opCall o1) M) = opAnswer o1 \<and>
       explained n (remove1 o1 ops) (snd (inlineSpecCall (opCall o1) M))) ops"

lemma explained_linearizable: "linearizable M ops \<longleftrightarrow> explained (length ops) ops M"
proof
  assume "linearizable M ops"
  then obtain order where order: "mset order = mset ops" "sorted_wrt (\<lambda>o1 o2. \<not> returnedBefore o2 o1) order"
    "fst (inlineSpecRun (map opCall order) M) = map opAnswer order"
    by (auto simp: linearizable_def)
  then show "explained (length ops) ops M"
  proof (induction order arbitrary: ops M)
    case (Cons o1 order)
    have mem: "o1 \<in> set ops" and rest: "mset order = mset (remove1 o1 ops)"
      using Cons.prems(1) by (metis list.set_intros(1) set_mset_mset, simp add: mset_remove1 flip: Cons.prems(1))
    have len: "length ops = Suc (length (remove1 o1 ops))"
      using mem length_pos_if_in_set [OF mem] by (simp add: length_remove1)
    have set: "set order = set (remove1 o1 ops)" using rest by (rule mset_eq_setD)
    have run: "fst (inlineSpecCall (opCall o1) M) = opAnswer o1"
      "fst (inlineSpecRun (map opCall order) (snd (inlineSpecCall (opCall o1) M))) = map opAnswer order"
      using Cons.prems(3) by (auto simp: Let_def split: prod.splits)
    have "explained (length (remove1 o1 ops)) (remove1 o1 ops) (snd (inlineSpecCall (opCall o1) M))"
      by (rule Cons.IH [OF rest _ run(2)]) (use Cons.prems(2) in simp)
    moreover have "\<forall>o2 \<in> set (remove1 o1 ops). \<not> returnedBefore o2 o1"
      using Cons.prems(2) set by simp
    ultimately show ?case
      using mem run(1) unfolding len explained.simps list_ex_iff list_all_iff by blast
  qed simp
next
  show "explained (length ops) ops M \<Longrightarrow> linearizable M ops"
  proof (induction "length ops" arbitrary: ops M)
    case 0
    then show ?case by (simp add: linearizable_def)
  next
    case (Suc n)
    then obtain o1 where o1: "o1 \<in> set ops" "\<forall>o2 \<in> set (remove1 o1 ops). \<not> returnedBefore o2 o1"
      "fst (inlineSpecCall (opCall o1) M) = opAnswer o1"
      "explained n (remove1 o1 ops) (snd (inlineSpecCall (opCall o1) M))"
      unfolding Suc.hyps(2) [symmetric] explained.simps list_ex_iff list_all_iff by blast
    have "n = length (remove1 o1 ops)" using Suc.hyps(2) o1(1) by (simp add: length_remove1)
    from Suc.hyps(1) [OF this] o1(4) obtain order where order: "mset order = mset (remove1 o1 ops)"
      "sorted_wrt (\<lambda>o1 o2. \<not> returnedBefore o2 o1) order"
      "fst (inlineSpecRun (map opCall order) (snd (inlineSpecCall (opCall o1) M))) = map opAnswer order"
      using \<open>n = length (remove1 o1 ops)\<close> by (auto simp: linearizable_def)
    have "set order = set (remove1 o1 ops)" using order(1) by (rule mset_eq_setD)
    then show ?case
      unfolding linearizable_def using order o1 by (intro exI [of _ "o1 # order"]) (auto simp: Let_def split: prod.splits)
  qed
qed

section \<open>A Put in a slot that is not published\<close>

text \<open>
  Key 5 holds 7. A \<open>Put\<close> of 9 has found it and checked the header. Before it swaps, the key is
  deleted and an \<open>Insert\<close> of the same key and value has reserved the same slot and filled it, but
  not published it. The swap finds the key and the value it expects.
\<close>

definition accesses :: "nat \<Rightarrow> nat \<Rightarrow> event list" where
  "accesses t n = replicate n (Access t)"

definition lostPut :: "event list" where
  "lostPut =
     Begin 0 (CallInsert 5 7) # accesses 0 13 @
     Begin 1 (CallPut 5 9) # accesses 1 7 @
     Begin 0 (CallDelete 5) # accesses 0 7 @
     Begin 0 (CallInsert 5 7) # accesses 0 12 @
     accesses 1 1 @
     Begin 2 (CallGet 5) # accesses 2 8 @
     accesses 0 1 @
     Begin 2 (CallGet 5) # accesses 2 7"

definition lostPutHistory :: "iop list" where
  "lostPutHistory =
     [(CallInsert 5 7, (0, True), 0, 13), (CallDelete 5, (0, True), 22, 29),
      (CallPut 5 9, (7, True), 14, 43), (CallGet 5, (0, False), 44, 52),
      (CallInsert 5 7, (0, True), 30, 53), (CallGet 5, (9, True), 54, 61)]"

lemma lostPutHistory_length: "length lostPutHistory = 6"
  by (simp add: lostPutHistory_def)

lemma lostPut_history:
  "map_option (\<lambda>m. (history m, map ipoint (irun m))) (performs (\<lambda>k. k) lostPut (newMachine 4 3)) =
     Some (lostPutHistory, [IDone (0, True), IDone (7, True), IDone (9, True)])"
  by code_simp

lemma lostPut_unexplained: "\<not> explained 6 lostPutHistory (\<lambda>_. None)"
  by code_simp

end
