(* ===== verification/InlineSchedules.thy ===== *)
theory InlineSchedules
  imports InlineStrays InlineHistories NewIndex
begin

text \<open>
  Interleavings of the inline package that can be executed together with the changes they record
  (\<open>traced\<close>), and the state in which a new table is before the first call. The properties of
  interleavings are instantiated with them.
\<close>

definition newIConc :: "nat \<Rightarrow> nat \<Rightarrow> iconc" where
  "newIConc B n = \<lparr>machine = newMachine B n, iwrites = (\<lambda>b. 0), iseen = (\<lambda>t. {}), ieffect = (\<lambda>t. None),
     istrays = 0\<rparr>"

lemma newIConc_quiet:
  assumes "B \<le> 33"
  shows "iquiet hash (newIConc B n)"
  using newIndex_settled(1,2) [OF assms]
  by (auto simp: iquiet_def newIConc_def newMachine_def point_def newIndex_reads version_def)

text \<open>The number of swaps of \<open>Put\<close> that hit a slot that is not published, and the changes.\<close>

definition strayed :: "(64 word \<Rightarrow> 64 word) \<Rightarrow> event \<Rightarrow> imachine \<Rightarrow> imachine \<Rightarrow> nat" where
  "strayed hash e m m' = (case e of
     Begin t c \<Rightarrow> 0
   | Access t \<Rightarrow> if strays (imem m) (ibin hash m t) (point m t) (point m' t) then 1 else 0)"

fun traced ::
  "(64 word \<Rightarrow> 64 word) \<Rightarrow> event list \<Rightarrow> imachine \<Rightarrow> (imachine \<times> ichange list \<times> nat) option" where
  "traced hash [] m = Some (m, [], 0)"
| "traced hash (e # es) m = do {
     m1 \<leftarrow> perform hash e m;
     (m', H, n) \<leftarrow> traced hash es m1;
     Some (m', ichangeOf hash e m m1 @ H, strayed hash e m m1 + n) }"

lemma traced_reachable:
  assumes "ireachable hash s0 H s" "traced hash es (machine s) = Some (m', H', n)"
  shows "\<exists>s'. ireachable hash s0 (H @ H') s' \<and> machine s' = m' \<and> istrays s' = istrays s + n \<and>
    (\<forall>b. iwrites s' b \<le> iwrites s b + length es)"
  using assms
proof (induction es arbitrary: H H' s n)
  case (Cons e es)
  obtain m1 H1 n1 where st: "perform hash e (machine s) = Some m1" "traced hash es m1 = Some (m', H1, n1)"
    "H' = ichangeOf hash e (machine s) m1 @ H1" "n = strayed hash e (machine s) m1 + n1"
    using Cons.prems(2) by (auto split: bind_splits)
  let ?s = "observe hash e s m1"
  have "istrays ?s = istrays s + strayed hash e (machine s) m1"
    by (cases e) (simp_all add: strayed_def Let_def)
  moreover have "iwrites ?s b \<le> iwrites s b + 1" for b
    by (cases e) (simp_all add: countWrites_def Let_def)
  moreover have "ireachable hash s0 (H @ ichangeOf hash e (machine s) m1) ?s"
    using Cons.prems(1) st(1) by (rule ireachable.more)
  from Cons.IH [OF this, of H1 n1] st(2) obtain s' where
    "ireachable hash s0 (H @ H') s'" "machine s' = m'" "istrays s' = istrays ?s + n1"
    "\<forall>b. iwrites s' b \<le> iwrites ?s b + length es" by (auto simp: st(3))
  ultimately show ?case
    by (intro exI [of _ s']) (auto simp: st(4) intro: order_trans add_mono)
qed auto

lemma traced_new:
  assumes "traced hash es (newMachine B n) = Some (m, H, k)"
  obtains s where "ireachable hash (newIConc B n) H s" "machine s = m" "istrays s = k"
    "\<And>b. iwrites s b \<le> length es"
proof -
  have "machine (newIConc B n) = newMachine B n" "istrays (newIConc B n) = 0" "\<And>b. iwrites (newIConc B n) b = 0"
    by (simp_all add: newIConc_def)
  then show ?thesis using traced_reachable [OF ireachable.start, of hash es "newIConc B n"] assms that by force
qed

section \<open>Two schedules\<close>

text \<open>
  Two goroutines insert key 5 at the same time: each has reserved a slot when the other one looks
  for the key, one publishes its slot, the other releases its own. Then a \<open>Put\<close> runs in the middle
  of a \<open>Get\<close>, and the key is deleted.
\<close>

definition inlineRace :: "event list" where
  "inlineRace =
     [Begin 0 (CallInsert 5 7), Begin 1 (CallInsert 5 8)] @ accesses 0 9 @ accesses 1 9 @
     accesses 0 12 @ accesses 1 15 @
     [Begin 2 (CallPut 5 9), Begin 0 (CallGet 5)] @ accesses 0 5 @ accesses 2 8 @ accesses 0 2 @
     Begin 1 (CallDelete 5) # accesses 1 7"

definition raceChanges :: "ichange list" where
  "raceChanges = [(CallInsert 5 7, (0, True)), (CallPut 5 9, (7, True)), (CallDelete 5, (0, True))]"

lemma inlineRace_traced:
  "map_option (\<lambda>(m, H, n). (map opCall (history m), map opAnswer (history m), H, n))
       (traced (\<lambda>k. k) inlineRace (newMachine 4 3)) =
     Some ([CallInsert 5 7, CallInsert 5 8, CallPut 5 9, CallGet 5, CallDelete 5],
       [(0, True), (7, False), (7, True), (9, True), (0, True)], raceChanges, 0)"
  by code_simp

lemma lostPut_traced:
  "map_option (\<lambda>(m, H, n). (map (\<lambda>g. (icalling g, ipoint g)) (irun m), n))
       (traced (\<lambda>k. k) lostPut (newMachine 4 3)) =
     Some ([(CallInsert 5 7, IDone (0, True)), (CallPut 5 9, IDone (7, True)), (CallGet 5, IDone (9, True))], 1)"
  by code_simp

end
