(* ===== verification/Spec2Isabelle.thy ===== *)
theory Spec2Isabelle
  imports Samples InlineSchedules
begin

text \<open>
  DLHT is a concurrent in-memory hash table: \<open>allocator\<close> maps keys of any comparable type to
  values of any type, \<open>inline\<close> maps 64-bit keys to integers kept in the table itself. A table
  (an \<open>index\<close>) is an array of bins and an arena of link buckets. A bin has a 64-bit header, a
  64-bit link descriptor and three slots; up to three link buckets of four slots each can be
  attached to it, fifteen slots in all. The header holds a version, the transfer state of the
  bin and two bits of state for each slot; it is written by compare-and-swap and is the
  seqlock of the readers. When a bin is full, the table grows: a new index is allocated, the
  bins are transferred in chunks, and the old index points to the new one, so that a
  goroutine that still holds it can follow the chain.

  Which theory models what (paths are under src/):
  \<^item> \<open>Prelude\<close>, \<open>GoBits\<close>: results of loops, \<open>math/bits\<close>, the spread bitmaps and the loop
    over their set bits;
  \<^item> \<open>BucketHeader\<close> (allocator/header.go, types.go), \<open>LinkMetaWord\<close> (linkmeta.go): the two
    words of a bin, with the source's bit expressions on 64-bit words;
  \<^item> \<open>BucketIndex\<close> (types.go, index.go, link.go): slots, buckets and index as records, slot
    pointers, the link arena, \<open>chooseInsertSlot\<close>; \<open>BinView\<close>, \<open>BinOps\<close> and \<open>TableView\<close>: the
    invariant \<open>wf_index\<close>, what each store changes, and the abstract map \<open>absMap\<close> an index
    stands for; \<open>ChooseSlot\<close>: the order in which \<open>chooseInsertSlot\<close> takes slots;
  \<^item> \<open>SlotSearch\<close>, \<open>LinkSearch\<close> (get.go): the bitmap searches and the reference search over
    the fifteen slots; \<open>MapState\<close> (types.go, resize.go): the map object, its generations, and
    the interface \<open>slot_codec\<close> between the search and the slots of a package;
  \<^item> \<open>AllocGet\<close>, \<open>AllocUpdate\<close>, \<open>AllocInsert\<close>, \<open>AllocMap\<close> (get.go, put.go, delete.go,
    insert.go, hash.go of the allocator); \<open>InlineGet\<close>, \<open>InlineUpdate\<close>, \<open>InlineInsert\<close>,
    \<open>InlineMap\<close> (the same files of inline); \<open>InlineWords\<close>: the inline functions whose text is
    the allocator's, and map.go;
  \<^item> \<open>SlotUpdate\<close>, \<open>SlotInsert\<close>: the writes and the code of \<open>Insert\<close> the packages share, with
    the interface \<open>slot_insert\<close>; \<open>InsertRace\<close>: its second half, from \<open>retryWithSlot\<close>;
  \<^item> \<open>ResizeLinks\<close>, \<open>ResizeBins\<close>, \<open>NewIndex\<close>, \<open>ResizeMap\<close>, \<open>ResizeRun\<close>, \<open>ResizeTrigger\<close>
    (resize.go, map.go), with the interface \<open>slot_transfer\<close>;
  \<^item> \<open>MapStats\<close> (map.go), \<open>MapIter\<close>, \<open>IterChain\<close> (iter.go); \<open>AllocTable\<close> and \<open>InlineTable\<close>
    instantiate them; \<open>StaleStart\<close>: operations that start on an older generation;
  \<^item> \<open>AlignedSlices\<close> (index.go): how bins are carved out of an array at a cache line;
  \<^item> \<open>Samples\<close>: the concrete tables of the witnesses.
  \<^item> \<open>HeaderSteps\<close>: what the slots of a search and the versions of a header have in common in
    the interleaved models; \<open>ChooseSteps\<close> (index.go, link.go): \<open>chooseInsertSlot\<close> access by access;
  \<^item> \<open>Interleave\<close> (get.go, put.go, delete.go, insert.go of the allocator, once more, access by
    access): goroutines on one table, with \<open>pc\<close> the places of a call, \<open>exec\<close> its next access,
    \<open>step\<close> and \<open>reachable\<close> their interleavings; \<open>InterleaveMem\<close>, \<open>InterleaveInv\<close>,
    \<open>InterleaveStep\<close>, \<open>InterleaveWrite\<close>: the invariants and what each access does to them;
    \<open>Linearize\<close>: the invariant of all goroutines together; \<open>Schedules\<close>: interleavings that can
    be executed; \<open>SoloRun\<close>: a call that runs alone returns;
  \<^item> \<open>InlineInterleave\<close> (get.go, put.go, delete.go, insert.go of the inline package), in the same
    way; \<open>InlineMemory\<close>, \<open>InlineInv\<close>, \<open>InlineAccess\<close>, \<open>InlineWrites\<close>, \<open>InlineLinearize\<close>: its
    invariants and what each access does to them; \<open>InlineStrays\<close>: when a swap of \<open>Put\<close> can hit a slot
    that is not published; \<open>InlineHistories\<close>: what it means that a history of
    calls linearizes, and one of the inline package that does not; \<open>InlineSchedules\<close>: interleavings
    that can be executed.

  Two models of the operations. The first (all theories but the last group) runs an operation to
  its end before the next one starts, and covers the resize; the second lets any goroutine
  make the next access, and covers the operations of each package between two resizes. In the
  second, a search remembers the header it started from; what it read counts only while the
  header is still that word. \<open>captured\<close> is why this is sound: a compare-and-swap raises the
  version, and the AND of \<open>markSlotInvalid\<close>, which does not, only clears bits, so a header
  that equals an earlier one was that word all the time, as long as the version has not gone
  round (fewer than 2^32 swaps of one header).

  In the inline package the swap of \<open>Put\<close> compares the key and the value of a slot and nothing
  that identifies the entry, so it can succeed in a slot that is not published. \<open>istrays\<close> counts
  these swaps; there is none as long as no \<open>Delete\<close> has removed a key. Without one, the interleavings linearize as those of the allocator do; with one, every
  answer is still that of the sequential call for a value the key had during the call, but the
  history need not linearize.

  How the state corresponds to the code. A pointer to an index is its position in \<open>indexes\<close>,
  the list of all indices allocated so far; a pointer to a bin is its number; a pointer to a
  slot is a \<open>SlotRef\<close>; a pointer to an entry of the allocator is an option of a record with an
  address, since the code compares such pointers. \<open>None\<close> as the result of a step is a fault of
  the Go program: an access outside a slice or through a nil pointer. The properties show
  that it does not occur. \<open>Goto i\<close> is \<open>goto retry\<close> with index \<open>i\<close>, \<open>Ret\<close> a return, and
  \<open>Spinning\<close> a loop that has used up its fuel.

  What the lemmas show. Of a word: that its fields are independent and that the branch-free
  masks read them. Of an index: that each store keeps \<open>wf_index\<close> and changes one slot. Of an
  operation, on a map between operations (\<open>consistent\<close>, \<open>inlineReady\<close>): that it returns what
  the finite map \<open>absOf\<close> or \<open>inlineAbs\<close> returns and changes it in the same way; hence any
  sequence of calls refines the finite map. Of a resize: that every bin is transferred, that
  the links reserved for it suffice, that the contents are kept, and that every link bucket it
  took is attached (\<open>linksExact\<close>, which \<open>New\<close> sets up and the sequential calls keep, so that
  \<open>Stats\<close> counts the links in use). Of the iterators: that
  each pair is yielded once. Of an operation that lags behind: that it reaches the current
  generation.

  Bounds and fuel. A table has at most \<open>2 ^ 33\<close> bins (then its arena has at most \<open>2 ^ 30\<close>
  link buckets and 32-bit link numbers suffice), and grows from at most \<open>2 ^ 32\<close> bins. The
  fuel of a retry loop counts rounds: without interference a round that does not grow the
  table is the last one, so 1 is enough for \<open>Get\<close>, \<open>Put\<close> and \<open>Delete\<close>; \<open>Insert\<close> needs at
  most as many rounds as the table can double before three keys no longer share a bin, which
  is the hypothesis \<open>crowded\<close> or \<open>sparse\<close>; keys whose hashes agree in full on more than
  fifteen keys make the code grow for ever, as the model does. A resize needs as much fuel as
  it has chunks of 1024 bins.

  Parameters. The hash function \<open>cmp seed key\<close> is \<open>maphash.Comparable\<close>, and the seed is what
  \<open>maphash.MakeSeed\<close> returned; \<open>mk\<close> in \<open>AlignedSlices\<close> is the address \<open>make\<close> returned.

  Not modelled: the Go memory model (each atomic access, and each plain access to a slot the
  goroutine owns, is one step of a sequentially consistent interleaving); interleavings of the
  accesses of a resize with each other or with those of an operation (a resize runs to its end, and
  an operation that meets one starts before it or after it); the register code of
  the double-word compare-and-swap and the write barrier around it (internal/asm: the model
  has its effect, one atomic comparison and store of the two words of a slot); prefetch,
  barrier and yield instructions, which have no effect on the state; \<open>float64\<close> (the load
  factor is a real quotient); the benchmarks, the tests and the Quint specification.
\<close>

section \<open>The allocator package\<close>

text \<open>C12: on a consistent map, \<open>Get\<close> returns the value the map holds for the key.\<close>

theorem Get_correct:
  assumes "consistent cmp m" "0 < fuel"
  shows "Get fuel cmp zv m key =
    Some (Returned (case absOf cmp m key of Some v \<Rightarrow> (v, True) | None \<Rightarrow> (zv, False)))"
  by (rule Get_run [OF assms])

theorem Get_correct_witness: "\<exists>m. Get 1 idHash 0 m 5 = Some (Returned (7 :: nat, True))"
proof -
  obtain m :: "(64 word, nat, unit) AMap" where m: "consistent idHash m" "absOf idHash m = [5 \<mapsto> 7]"
    by (rule sampleA_one) (rule that)
  show ?thesis using Get_correct [OF m(1), of 1 0 5] m(2) by auto
qed

text \<open>
  C13: \<open>Put\<close> returns the previous value and replaces it when the key is present; when it is
  absent, \<open>Put\<close> returns the zero value and changes nothing. The map stays consistent.
\<close>

theorem Put_correct:
  assumes "consistent cmp m" "0 < fuel"
  shows "\<exists>m'. Put fuel cmp zv newp m key newValue =
      Some (Returned (case absOf cmp m key of Some v \<Rightarrow> (v, True) | None \<Rightarrow> (zv, False)), m') \<and>
    consistent cmp m' \<and> hashConfig m' = hashConfig m \<and>
    absOf cmp m' = (if absOf cmp m key = None then absOf cmp m else (absOf cmp m)(key \<mapsto> newValue))"
  using Put_run [OF assms, of zv newp key newValue] by blast

theorem Put_correct_witness:
  "\<exists>m m'. absOf idHash m = [5 \<mapsto> 7] \<and>
    Put 1 idHash 0 43 m 5 9 = Some (Returned (7 :: nat, True), m') \<and> absOf idHash m' = [5 \<mapsto> 9]"
proof -
  obtain m :: "(64 word, nat, unit) AMap" where m: "consistent idHash m" "absOf idHash m = [5 \<mapsto> 7]"
    by (rule sampleA_one) (rule that)
  show ?thesis using Put_correct [OF m(1), of 1 0 43 5 9] m(2) by auto
qed

text \<open>
  C14: \<open>Delete\<close> returns the removed value, and the key is absent afterwards; every other key
  keeps its value.
\<close>

theorem Delete_correct:
  assumes "consistent cmp m" "0 < fuel"
  shows "\<exists>m'. Delete fuel cmp zv m key =
      Some (Returned (case absOf cmp m key of Some v \<Rightarrow> (v, True) | None \<Rightarrow> (zv, False)), m') \<and>
    consistent cmp m' \<and> hashConfig m' = hashConfig m \<and> absOf cmp m' = (absOf cmp m)(key := None)"
  using Delete_run [OF assms, of zv key] by blast

theorem Delete_correct_witness:
  "\<exists>m m'. absOf idHash m = [5 \<mapsto> 7] \<and>
    Delete 1 idHash 0 m 5 = Some (Returned (7 :: nat, True), m') \<and> absOf idHash m' = Map.empty"
proof -
  obtain m :: "(64 word, nat, unit) AMap" where m: "consistent idHash m" "absOf idHash m = [5 \<mapsto> 7]"
    by (rule sampleA_one) (rule that)
  obtain m' where "Delete 1 idHash 0 m 5 = Some (Returned (7, True), m')"
    "absOf idHash m' = (absOf idHash m)(5 := None)"
    using Delete_correct [OF m(1), of 1 0 5] m(2) by auto
  then show ?thesis using m(2) by (intro exI [of _ m] exI [of _ m']) simp
qed

text \<open>
  C7: \<open>Insert\<close> of a new key stores it and returns (zero, true), after as many resizes as it
  needs. It returns within \<open>2 ^ B\<close> rounds when no three stored keys agree with the new one
  on the low \<open>B\<close> bits of their hashes.
\<close>

theorem Insert_new_correct:
  assumes "consistent cmp m" "absOf cmp m key = None"
    and "B \<le> 33" "2 ^ B \<le> fuel" "\<not> crowded (hashOf cmp m) (absOf cmp m) B key"
  shows "\<exists>m'. Insert fuel cmp zv newp m key newValue = Some (Returned (zv, True), m') \<and>
    consistent cmp m' \<and> hashConfig m' = hashConfig m \<and> absOf cmp m' = (absOf cmp m)(key \<mapsto> newValue)"
  using Insert_run_absent [OF assms, of zv newp newValue] by blast

theorem Insert_new_correct_witness:
  "\<exists>m'. Insert 1 idHash 0 42 sampleA 5 7 = Some (Returned (0, True), m') \<and> absOf idHash m' = [5 \<mapsto> 7]"
proof -
  have "\<not> crowded (hashOf idHash sampleA) (absOf idHash sampleA) 0 5"
    unfolding sampleA_facts(2) by (rule not_crowded_empty)
  with Insert_new_correct [OF sampleA_facts(1) _ _ _ this, of 1 0 42 7] sampleA_facts(2)
  show ?thesis by auto
qed

text \<open>C15: \<open>Insert\<close> of a key that is present returns the stored value and changes nothing at all.\<close>

theorem Insert_existing_correct:
  assumes "consistent cmp m" "0 < fuel" "absOf cmp m key = Some v"
  shows "Insert fuel cmp zv newp m key newValue = Some (Returned (v, False), m)"
  by (rule Insert_run_present [OF assms])

theorem Insert_existing_correct_witness:
  "\<exists>m. absOf idHash m 5 = Some 7 \<and> Insert 1 idHash 0 43 m 5 9 = Some (Returned (7 :: nat, False), m)"
proof -
  obtain m :: "(64 word, nat, unit) AMap" where m: "consistent idHash m" "absOf idHash m = [5 \<mapsto> 7]"
    by (rule sampleA_one) (rule that)
  have "Insert 1 idHash 0 43 m 5 9 = Some (Returned (7, False), m)"
    by (rule Insert_existing_correct [OF m(1)]) (simp_all add: m(2))
  then show ?thesis using m(2) by (intro exI [of _ m]) simp
qed

text \<open>
  C6: a sequence of calls whose keys are \<open>sparse\<close> (no three share the low \<open>B\<close> bits of their
  hashes, with \<open>B\<close> at most 33 and a fuel of \<open>2 ^ B\<close>) returns on a consistent map what the same
  calls return on a finite map, and leaves that map behind; no call faults or fails to return.
\<close>

theorem apiRun_refines_map:
  assumes "B \<le> 33" "2 ^ B \<le> fuel" "sparse (hashOf cmp m) B K"
    and "consistent cmp m" "dom (absOf cmp m) \<subseteq> K" "keyOf ` set cs \<subseteq> K"
  shows "\<exists>m'. apiRun fuel cmp zv newp cs m =
      Some (map Returned (fst (specRun zv cs (absOf cmp m))), m') \<and>
    consistent cmp m' \<and> absOf cmp m' = snd (specRun zv cs (absOf cmp m))"
  using apiRun_refines [OF assms, of zv newp] by blast

theorem apiRun_refines_map_witness:
  "\<exists>m'. apiRun 1 idHash 0 42 [CallInsert 5 7, CallInsert 5 8, CallPut 6 1, CallInsert 6 2, CallPut 5 9,
      CallDelete 6, CallGet 6, CallGet 5] sampleA =
    Some (map Returned [(0, True), (7, False), (0, False), (0, True), (7, True), (2, True),
      (0, False), (9, True)], m')"
proof -
  have "sparse (hashOf idHash sampleA) 0 {5, 6}" by (rule sparse_few) simp_all
  from apiRun_refines_map [OF _ _ this sampleA_facts(1), of 1 "[CallInsert 5 7, CallInsert 5 8,
      CallPut 6 1, CallInsert 6 2, CallPut 5 9, CallDelete 6, CallGet 6, CallGet 5]" 0 42]
  show ?thesis by (auto simp: sampleA_facts(2) found_def)
qed

text \<open>
  C8: a resize, run to its end, keeps the contents, makes the table at least twice as large
  and publishes it as the active generation; it never runs out of link buckets.
\<close>

theorem resize_preserves_map:
  assumes "consistent cmp m" "length (bins (current m)) \<le> 2 ^ 32"
    "chunkCount (length (bins (current m))) \<le> fuel"
  shows "\<exists>m'. AllocTriggerResize fuel m = Some (Returned True, m') \<and> consistent cmp m' \<and>
    absOf cmp m' = absOf cmp m \<and> hashConfig m' = hashConfig m \<and> active m' = Suc (active m) \<and>
    2 * length (bins (current m)) \<le> length (bins (current m'))"
  by (rule AllocTriggerResize_run [OF assms])

theorem resize_preserves_map_witness:
  "\<exists>m m'. absOf idHash m = [5 \<mapsto> 7 :: nat] \<and> AllocTriggerResize 1 m = Some (Returned True, m') \<and>
    absOf idHash m' = [5 \<mapsto> 7] \<and> 32 \<le> length (bins (current m'))"
proof -
  obtain m :: "(64 word, nat, unit) AMap" where m: "consistent idHash m" "absOf idHash m = [5 \<mapsto> 7]"
    "length (bins (current m)) = 16" by (rule sampleA_one) (rule that)
  have "chunkCount (length (bins (current m))) \<le> 1" by (simp add: m(3) chunkCount_def)
  with resize_preserves_map [OF m(1), of 1] m(2,3) show ?thesis by auto
qed

text \<open>
  C9: \<open>Range\<close> yields every stored pair exactly once, in a fixed order, until the callback
  returns false: there is a list without repeated keys, with the map's contents, that every
  callback is run over.
\<close>

theorem Range_exactly_once:
  assumes "consistent cmp m" "0 < fuel"
  shows "\<exists>es. distinct (map fst es) \<and> map_of es = absOf cmp m \<and>
    (\<forall>yld (y :: 'y). AllocRange fuel yld m y = Some (Returned (), snd (consume yld es y)))"
proof -
  have "generations m" using assms(1) by (simp add: consistent_def)
  then show ?thesis
    using pairs_map [OF assms(1)]
    by (intro exI [of _ "pairs m"] conjI allI AllocRange_consume [OF _ assms(2)]) simp_all
qed

theorem Range_exactly_once_witness:
  "\<exists>m :: (64 word, nat, unit) AMap.
    AllocRange 1 (\<lambda>k v n. (True, n + v)) m 0 = Some (Returned (), 7)"
proof -
  obtain m :: "(64 word, nat, unit) AMap" where m: "consistent idHash m" "absOf idHash m = [5 \<mapsto> 7]"
    by (rule sampleA_one) (rule that)
  obtain es :: "(64 word \<times> nat) list" where es: "distinct (map fst es)" "map_of es = [5 \<mapsto> 7]"
    "AllocRange 1 (\<lambda>k v n. (True, n + v)) m 0 = Some (Returned (), snd (consume (\<lambda>k v n. (True, n + v)) es 0))"
    using Range_exactly_once [OF m(1), of 1, where 'y = nat] m(2) by auto
  have "es = [(5, 7)]" by (rule single_pair [OF es(1,2)])
  with es(3) show ?thesis by auto
qed

text \<open>
  C16: an iteration that started at an older generation \<open>i\<close>, before one or more resizes, still
  yields every stored pair exactly once: \<open>scanShards\<close> leads it to the bins its bins were
  split into.
\<close>

theorem Range_from_older_generation:
  assumes "consistent cmp m" "i \<le> active m" "active m - i < fuel"
  shows "\<exists>es. distinct (map fst es) \<and> map_of es = absOf cmp m \<and>
    (\<forall>yld (y :: 'y). AllocRangeFrom fuel yld m i y = Some (Returned (), snd (consume yld es y)))"
  by (rule AllocRangeFrom_consume [OF assms, where 'y = 'y]) blast

theorem Range_from_older_generation_witness:
  "\<exists>m :: (64 word, nat, unit) AMap. active m = 1 \<and>
    AllocRangeFrom 2 (\<lambda>k v n. (True, n + v)) m 0 0 = Some (Returned (), 7)"
proof -
  obtain m :: "(64 word, nat, unit) AMap" where m: "consistent idHash m" "absOf idHash m = [5 \<mapsto> 7]"
    "active m = 1" by (rule sampleA_resized) (rule that)
  obtain es :: "(64 word \<times> nat) list" where es: "distinct (map fst es)" "map_of es = [5 \<mapsto> 7]"
    "AllocRangeFrom 2 (\<lambda>k v n. (True, n + v)) m 0 0 = Some (Returned (), snd (consume (\<lambda>k v n. (True, n + v)) es 0))"
    using Range_from_older_generation [OF m(1), of 0 2, where 'y = nat] m(2,3) by auto
  have "es = [(5, 7)]" by (rule single_pair [OF es(1,2)])
  with es(3) m(3) show ?thesis by auto
qed

text \<open>
  C17: an operation that loaded the active index before one or more resizes and goes on with
  that older generation \<open>i\<close> returns, after following the chain, what it would return when
  started now, with the same effect: \<open>Put\<close>, \<open>Delete\<close> and \<open>Insert\<close>.
\<close>

theorem stale_operations:
  assumes "generations m" "i \<le> active m"
  shows "retryLoop (active m - i + fuel) (Put_round fuel cmp zv newp key newValue) i m =
      Put fuel cmp zv newp m key newValue \<and>
    retryLoop (active m - i + fuel) (Delete_round fuel cmp zv key) i m = Delete fuel cmp zv m key \<and>
    retryLoop (active m - i + fuel)
      (Insert_round fuel (findEntry key (hashOf cmp m key)) (Val_update (\<lambda>_. None))
        (growTable fuel None moveEntry GetTransferSentinel) zv (hashOf cmp m key) (hashOf cmp m key)
        (newEntry newp key newValue)) i m = Insert fuel cmp zv newp m key newValue"
  by (simp add: Put_stale [OF assms] Delete_stale [OF assms] Insert_stale [OF assms] Put_def
      Delete_def Insert_def hashOf_def Let_def)

theorem stale_operations_witness:
  "\<exists>m :: (64 word, nat, unit) AMap. active m = 1 \<and>
    retryLoop 2 (Delete_round 1 idHash 0 5) 0 m = Delete 1 idHash 0 m 5"
proof -
  obtain m :: "(64 word, nat, unit) AMap" where m: "generations m" "active m = 1"
    by (rule sampleA_resized) (rule that)
  show ?thesis using stale_operations [OF m(1), of 0 1 idHash 0 0 5 0] m(2)
    by (intro exI [of _ m]) (simp add: numeral_2_eq_2 del: retryLoop.simps)
qed

text \<open>C18: a reader on an older generation returns the value the map holds now.\<close>

theorem stale_Get:
  assumes "consistent cmp m" "i \<le> active m" "active m - i < fuel"
  shows "retryRead fuel (Get_round cmp zv m key) i =
    Some (Returned (case absOf cmp m key of Some v \<Rightarrow> (v, True) | None \<Rightarrow> (zv, False)))"
  by (rule Get_from [OF assms])

theorem stale_Get_witness:
  "\<exists>m :: (64 word, nat, unit) AMap. active m = 1 \<and>
    retryRead 2 (Get_round idHash 0 m 5) 0 = Some (Returned (7, True))"
proof -
  obtain m :: "(64 word, nat, unit) AMap" where m: "consistent idHash m" "absOf idHash m = [5 \<mapsto> 7]"
    "active m = 1" by (rule sampleA_resized) (rule that)
  show ?thesis using stale_Get [OF m(1), of 0 2 0 5] m(2,3) by (intro exI [of _ m]) simp
qed

text \<open>C22: \<open>Size\<close> is the number of keys.\<close>

theorem Size_correct:
  assumes "consistent cmp m"
  shows "\<exists>n. Size m = Some n \<and> unat n = card (dom (absOf cmp m))"
  by (rule Size_run [OF assms])

theorem Size_correct_witness: "\<exists>m :: (64 word, nat, unit) AMap. \<exists>n. Size m = Some n \<and> unat n = 1"
proof -
  obtain m :: "(64 word, nat, unit) AMap" where m: "consistent idHash m" "absOf idHash m = [5 \<mapsto> 7]"
    by (rule sampleA_one) (rule that)
  show ?thesis using Size_correct [OF m(1)] m(2) by auto
qed

text \<open>
  C23: \<open>Stats\<close> after any sequence of calls on a new map (initial size at most \<open>2 ^ 33\<close>, sparse
  keys): \<open>StatsSize\<close> is the number of keys the calls leave stored, \<open>Links\<close> the number of link
  buckets attached to bins, whether \<open>Insert\<close> took them from the bottom of the arena or a resize
  from its top, \<open>LoadFactor\<close> the quotient of the keys and the slots, and \<open>Bins\<close>, \<open>Capacity\<close> and
  \<open>LinkCapacity\<close> the sizes of the current table.
\<close>

theorem Stats_correct:
  fixes m :: "('k, 'b, 's) AMap"
  assumes "unat initialSize \<le> 2 ^ 33" "m = AllocNew seed initialSize"
    and "B \<le> 33" "2 ^ B \<le> fuel" "sparse (hashOf cmp m) B (keyOf ` set cs)"
  shows "\<exists>rs m' st. apiRun fuel cmp zv newp cs m = Some (rs, m') \<and> statsOf m' = Some st \<and>
    unat (StatsSize st) = card (dom (snd (specRun zv cs Map.empty))) \<and>
    unat (Bins st) = length (bins (current m')) \<and> unat (Capacity st) = 15 * length (bins (current m')) \<and>
    unat (Links st) = card {(b, u). inBin (current m') b \<and> u < 3 \<and> linkAt (current m') b u \<noteq> 0} \<and>
    unat (LinkCapacity st) = length (links (current m')) \<and>
    LoadFactor st = of_nat (card (dom (snd (specRun zv cs Map.empty)))) / of_nat (15 * length (bins (current m'))) \<and>
    \<not> Resizing st"
  by (rule Stats_after_run [OF assms]) (intro exI conjI, assumption+)

theorem Stats_correct_witness:
  "\<exists>rs m' st. apiRun 1 idHash 0 42 [CallInsert 5 7, CallInsert 6 8, CallDelete 5] sampleA = Some (rs, m') \<and>
    statsOf m' = Some st \<and> unat (StatsSize st) = 1"
proof -
  have K: "sparse (hashOf idHash sampleA) 0 (keyOf ` set [CallInsert 5 7, CallInsert 6 8, CallDelete (5 :: 64 word)])"
    by (rule sparse_few) (simp_all add: card_insert_if)
  have "card (dom (snd (specRun 0 [CallInsert 5 7, CallInsert 6 8, CallDelete (5 :: 64 word)] Map.empty))) = 1"
    by simp
  with Stats_correct [OF _ sampleA_def _ _ K, of 1 0 42] show ?thesis by auto
qed

text \<open>
  C24: \<open>New\<close> builds an empty map in a consistent state, for initial sizes up to \<open>2 ^ 33\<close>
  bins, the bound under which the 32-bit arithmetic on link buckets is exact.
\<close>

theorem New_empty:
  fixes cmp :: "'s \<Rightarrow> 'k \<Rightarrow> 64 word" and m :: "('k, 'b, 's) AMap"
  assumes "unat initialSize \<le> 2 ^ 33" "m = AllocNew seed initialSize"
  shows "consistent cmp m \<and> absOf cmp m = Map.empty"
  using AllocNew_consistent [OF assms] by simp

theorem New_empty_witness: "consistent idHash sampleA \<and> absOf idHash sampleA = Map.empty"
  by (rule New_empty [of 16 _ "()"]) (simp_all add: sampleA_def)

section \<open>The inline package\<close>

text \<open>
  C11: a sequence of calls on an inline map that is ready for them returns what the same calls
  return on a finite map, values being truncated to their type and back without loss. Ready
  (\<open>inlineReady\<close>) means a consistent table of two bins or more with opposed sentinels, which
  \<open>inlineNew\<close> provides. The keys used are \<open>sparse\<close>: no three share the low \<open>B\<close> bits of their
  hashes, with \<open>B\<close> at most 33. The value type has at most 64 bits.
\<close>

theorem inlineRun_refines_map:
  fixes cs :: "(64 word, 'a::len word) call list"
  assumes "LENGTH('a) \<le> 64" "B \<le> 33" "2 ^ B \<le> fuel" "sparse (inlineHashOf cmp m) B K"
    and "inlineReady cmp m" "dom (inlineRaw cmp m) \<subseteq> K" "keyOf ` set cs \<subseteq> K"
  shows "\<exists>m'. inlineRun fuel isSigned cmp cs m =
      Some (map Returned (fst (inlineSpecRun cs (inlineAbs cmp m))), m') \<and>
    inlineReady cmp m' \<and> inlineAbs cmp m' = snd (inlineSpecRun cs (inlineAbs cmp m))"
  by (rule inlineRun_refines [OF assms])

theorem inlineRun_refines_map_witness:
  "\<exists>m'. inlineRun 1 True idHash [CallInsert 5 (- 7 :: 8 word), CallInsert 5 8, CallPut 6 1, CallInsert 6 2,
      CallPut 5 9, CallDelete 6, CallGet 6, CallGet 5] sampleI =
    Some (map Returned [(0, True), (- 7, False), (0, False), (0, True), (- 7, True), (0, True),
      (0, False), (9, True)], m')"
proof -
  have K: "sparse (inlineHashOf idHash sampleI) 0 {5, 6}" by (rule sparse_few) simp_all
  have "inlineAbs idHash sampleI = (Map.empty :: 64 word \<Rightarrow> 8 word option)"
    by (simp add: inlineAbs_def fun_eq_iff sampleI_facts(2))
  with inlineRun_refines_map [OF _ _ _ K sampleI_facts(1), of 1 "[CallInsert 5 (- 7 :: 8 word),
      CallInsert 5 8, CallPut 6 1, CallInsert 6 2, CallPut 5 9, CallDelete 6, CallGet 6, CallGet 5]" True]
  show ?thesis by (auto simp: sampleI_facts(2) found_def)
qed

text \<open>
  C25: \<open>New\<close> of the inline package, when its search for sentinels does not panic, builds an empty
  map that is ready for such runs, for every initial size up to \<open>2 ^ 33\<close> except 1.
\<close>

theorem inlineNew_empty:
  assumes "unat initialSize \<le> 2 ^ 33" "initialSize \<noteq> 1" "inlineNew cmp seed initialSize = Some m"
  shows "inlineReady cmp m \<and> inlineRaw cmp m = Map.empty"
  using inlineNew_ready [OF assms] by simp

theorem inlineNew_empty_witness: "inlineReady idHash sampleI \<and> inlineRaw idHash sampleI = Map.empty"
  by (rule inlineNew_empty [OF _ _ sampleI_new]) simp_all

text \<open>
  C26: a resize of an inline map of two bins or more with opposed sentinels (\<open>inlineReady\<close>), of at
  most \<open>2 ^ 32\<close> bins, run to its end, keeps the contents and the readiness, at least doubles the
  table and publishes it as the active generation.
\<close>

theorem inline_resize_preserves_map:
  assumes "inlineReady cmp m" "length (bins (current m)) \<le> 2 ^ 32"
    "chunkCount (length (bins (current m))) \<le> fuel"
  shows "\<exists>m'. inlineTriggerResize fuel cmp m = Some (Returned True, m') \<and> inlineReady cmp m' \<and>
    inlineRaw cmp m' = inlineRaw cmp m \<and> hashConfig m' = hashConfig m \<and>
    active m' = Suc (active m) \<and> 2 * length (bins (current m)) \<le> length (bins (current m'))"
  by (rule inlineTriggerResize_run [OF assms])

theorem inline_resize_preserves_map_witness:
  "\<exists>m'. inlineTriggerResize 1 idHash sampleI = Some (Returned True, m') \<and> inlineReady idHash m' \<and>
    32 \<le> length (bins (current m'))"
proof -
  have "chunkCount (length (bins (current sampleI))) \<le> 1" by (simp add: sampleI_facts(3) chunkCount_def)
  with inline_resize_preserves_map [OF sampleI_facts(1), of 1] sampleI_facts(3) show ?thesis by auto
qed

text \<open>
  C27: the sentinels \<open>findSentinels\<close> returns hash to opposite parities: the one written into
  even bins to an odd hash, the one written into odd bins to an even hash.
\<close>

theorem findSentinels_parity:
  assumes "findSentinels cmp seed = Some (forEven, forOdd)"
  shows "odd (cmp seed forEven) \<and> even (cmp seed forOdd)"
  using assms unfolding findSentinels_def by (rule findSentinels_loop_parity) simp_all

theorem findSentinels_parity_witness: "odd (idHash () (NOT 0)) \<and> even (idHash () (NOT 0 - 1))"
  by (rule findSentinels_parity) code_simp

text \<open>
  C28: therefore, in a table of at least two bins, no key that belongs to bin \<open>b\<close> equals the
  sentinel a transfer writes into that bin.
\<close>

theorem sentinel_avoids_keys:
  assumes "inlineInitHashConfig cmp seed = Some cfg" "shape ix" "2 \<le> length (bins ix)"
    and "binOf ix (cmp seed key) = b"
  shows "\<not> inlineIsTransferSentinelForBucket cfg key b"
  using sentinel_not_stored [of cmp cfg "cmp seed" ix key b] inlineInitHashConfig_opposed [OF assms(1)]
    assms(2-4) by (simp add: inlineIsTransferSentinelForBucket_def)

theorem sentinel_avoids_keys_witness:
  "\<not> inlineIsTransferSentinelForBucket sampleConfig 5 (binOf (current sampleI) 5)"
proof -
  have c: "inlineInitHashConfig idHash () = Some sampleConfig"
    using sampleI_new by (auto simp: inlineNew_def sampleI_def New_def split: bind_splits)
  have "idHash () 5 = 5" by (simp add: idHash_def)
  with sentinel_avoids_keys [OF c, of "current sampleI" 5] sampleI_facts(3)
    settledD(3) [OF generations_settled [OF sampleI_facts(4)]]
  show ?thesis by simp
qed

text \<open>
  C29: the argument that stored keys avoid the sentinels needs the two bins. In a table of one
  bin (\<open>InitialSize\<close> 1) every key belongs to bin 0, also the key that serves as its sentinel; the transfer takes its slot
  for one that was moved already and skips it. A run over the public interface, with the
  identity as hash: the key is inserted and found, three more insertions make the table grow,
  and the key is gone.
\<close>

theorem one_bin_table_loses_sentinel_key:
  "map_option fst (do {
     m \<leftarrow> inlineNew idHash () 1;
     inlineRun 2 False idHash [CallInsert (NOT 0) (7 :: 32 word), CallGet (NOT 0), CallInsert 1 1,
       CallInsert 2 2, CallInsert 3 3, CallGet (NOT 0)] m }) =
   Some (map Returned [(0, True), (7, True), (0, True), (0, True), (0, True), (0, False)])"
  by code_simp

text \<open>C30: \<open>V(uint64(value))\<close> is the value, for every integer type of at most 64 bits, signed or not.\<close>

theorem raw_value_roundtrip:
  assumes "LENGTH('a) \<le> 64"
  shows "fromRaw (toRaw isSigned (v :: 'a::len word)) = v"
  by (rule fromRaw_toRaw [OF assms])

theorem raw_value_roundtrip_witness: "fromRaw (toRaw True (- 5 :: 8 word)) = (- 5 :: 8 word)"
  by (rule raw_value_roundtrip) simp

text \<open>
  C31: iterating an inline map yields every key once with its value as the caller stored it,
  also from an older generation.
\<close>

theorem inlineRange_exactly_once:
  assumes "inlineConsistent cmp m" "i \<le> active m" "active m - i < fuel"
  shows "\<exists>es :: (64 word \<times> 'a::len word) list. distinct (map fst es) \<and> map_of es = inlineAbs cmp m \<and>
    (\<forall>yld (y :: 'y). inlineRangeFrom fuel yld m i y = Some (Returned (), snd (consume yld es y)))"
  by (rule inlineRangeFrom_consume [OF assms, where 'a = 'a and 'y = 'y]) blast

theorem inlineRange_exactly_once_witness:
  "\<exists>m :: unit IMap. inlineRangeFrom 1 (\<lambda>k (v :: 32 word) n. (True, n + unat v)) m (active m) 0 =
    Some (Returned (), 7)"
proof -
  obtain m where m: "inlineReady idHash m" "inlineAbs idHash m = [5 \<mapsto> (7 :: 32 word)]"
    by (rule sampleI_one) (rule that)
  have "inlineConsistent idHash m" using m(1) by (simp add: inlineReady_def)
  from inlineRange_exactly_once [OF this, of "active m" 1, where 'a = 32 and 'y = nat]
  obtain es :: "(64 word \<times> 32 word) list" where es: "distinct (map fst es)" "map_of es = [5 \<mapsto> 7]"
    "inlineRangeFrom 1 (\<lambda>k (v :: 32 word) n. (True, n + unat v)) m (active m) 0 =
      Some (Returned (), snd (consume (\<lambda>k (v :: 32 word) n. (True, n + unat v)) es 0))"
    using m(2) by auto
  have "es = [(5, 7)]" by (rule single_pair [OF es(1,2)])
  with es(3) show ?thesis by auto
qed

section \<open>Words and buckets\<close>

text \<open>C32: \<open>nextPowerOf2\<close> is the least power of two that is not smaller, up to \<open>2 ^ 63\<close>.\<close>

theorem nextPowerOf2_least:
  assumes "unat n \<le> 2 ^ 63"
  shows "\<exists>k \<le> 63. nextPowerOf2 n = 2 ^ k \<and> unat n \<le> 2 ^ k \<and> (\<forall>j. unat n \<le> 2 ^ j \<longrightarrow> k \<le> j)"
proof -
  obtain k where k: "k \<le> 63" "nextPowerOf2 n = 2 ^ k" "unat n \<le> 2 ^ k" "0 < k \<Longrightarrow> 2 ^ (k - 1) < unat n"
    by (rule nextPowerOf2_cases [OF assms]) (rule that)
  have "k \<le> j" if j: "unat n \<le> 2 ^ j" for j
  proof (rule ccontr)
    assume "\<not> k \<le> j"
    then have le: "j \<le> k - 1" "0 < k" by simp_all
    have "(2::nat) ^ j \<le> 2 ^ (k - 1)" by (rule power_increasing [OF le(1)]) simp
    with k(4) [OF le(2)] j show False by linarith
  qed
  with k(1-3) show ?thesis by blast
qed

theorem nextPowerOf2_least_witness: "\<exists>k \<le> 63. nextPowerOf2 100 = 2 ^ k \<and> k \<le> 7"
  using nextPowerOf2_least [of 100] by auto

text \<open>
  C33: above \<open>2 ^ 63\<close> the shift leaves the word: \<open>nextPowerOf2\<close> is 0, and \<open>New\<close> builds a table
  without bins, in which every lookup reads outside the slice.
\<close>

theorem nextPowerOf2_overflow:
  fixes seed :: 's and key :: 'k and zv :: 'b
  assumes "2 ^ 63 < unat n" "0 < fuel"
  shows "nextPowerOf2 n = 0 \<and> bins (current (AllocNew seed n :: ('k, 'b, 's) AMap)) = [] \<and>
    Get fuel cmp zv (AllocNew seed n) key = None"
proof -
  let ?m = "AllocNew seed n :: ('k, 'b, 's) AMap"
  have z: "nextPowerOf2 n = 0" by (rule nextPowerOf2_big [OF assms(1)])
  have "n \<noteq> 0" using assms(1) by auto
  then have m: "indexes ?m = [newIndex None 0]" "active ?m = 0"
    by (simp_all add: AllocNew_def New_def z)
  have b: "bins (newIndex None 0 :: ('k, 'b) EntryPtr index) = []" by (simp add: newIndex_def)
  then have "Get_round cmp zv ?m key 0 = None"
    by (simp add: Get_round_def indexAt_def m getBin_def getBinByIndex_def)
  then have "Get fuel cmp zv ?m key = None"
    using assms(2) by (cases fuel) (simp_all add: Get_def getActiveIndex_def m)
  with z b show ?thesis by (simp add: current_def m)
qed

theorem nextPowerOf2_overflow_witness:
  "nextPowerOf2 9223372036854775809 = 0 \<and>
    Get 1 idHash (0 :: nat) (AllocNew () 9223372036854775809) 5 = None"
proof -
  have big: "2 ^ 63 < unat (9223372036854775809 :: 64 word)" by simp
  from nextPowerOf2_overflow [OF big zero_less_one, where cmp = idHash and zv = "0 :: nat" and seed = "()" and key = 5]
  show ?thesis by (elim conjE) (intro conjI)
qed

text \<open>
  C34: writing the state of one slot into a header changes that state, raises the version by
  one (mod \<open>2 ^ 32\<close>) and leaves the other fourteen states and the bin state alone; writing
  the bin state leaves all slot states and the version alone.
\<close>

theorem header_fields:
  assumes "i < 15" "j < 15" "s \<in> {SlotInvalid, SlotTrying, SlotValid}"
    "t \<in> {BinNoTransfer, BinInTransfer, BinDoneTransfer}"
  shows "getSlotState (setSlotStateAndVersion h (int i) s) (int j) =
      (if j = i then s else getSlotState h (int j)) \<and>
    getBinState (setSlotStateAndVersion h (int i) s) = getBinState h \<and>
    version (setSlotStateAndVersion h (int i) s) = version h + 1 \<and>
    getBinState (setBinState h t) = t \<and>
    getSlotState (setBinState h t) (int j) = getSlotState h (int j) \<and>
    version (setBinState h t) = version h"
  using assms
  by (simp add: header_simps version_setSlot version_setBinState getSlotState_eq [of j "setBinState h t"]
      getSlotState_eq [of j h])

theorem header_fields_witness:
  "version (setSlotStateAndVersion (NOT 0) 14 SlotTrying) = 0 \<and>
    getSlotState (setSlotStateAndVersion (NOT 0) 14 SlotTrying) 13 = 3"
proof -
  have "version (NOT 0) + 1 = 0" "getSlotState (NOT 0) 13 = 3" by code_simp+
  with header_fields [of 14 13 SlotTrying BinNoTransfer "NOT 0"] show ?thesis by simp
qed

text \<open>C35: the two halves of a link descriptor are independent, and rebuilding it from them is the identity.\<close>

theorem link_meta_roundtrip:
  "getPairStart (newLinkMeta p s) = p \<and> getSingle (newLinkMeta p s) = s \<and>
   newLinkMeta (getPairStart lm) (getSingle lm) = lm \<and>
   getSingle (setPairStart lm p) = getSingle lm \<and> getPairStart (setSingle lm s) = getPairStart lm"
  by (simp add: link_simps newLinkMeta_get)

text \<open>
  C36: all four bitmaps, bit by bit. In a header without a slot in state 3, bit \<open>n\<close> of the
  bitmaps of the primary bucket is set exactly when \<open>n\<close> is even, below 6, and slot \<open>n div 2\<close> is
  valid, or free; bit \<open>n\<close> of those of a link bucket, whose first slot is \<open>base\<close>, exactly when
  \<open>n\<close> is even, below 8, and slot \<open>base + n div 2\<close> is.
\<close>

theorem masks_read_states:
  assumes "\<forall>i<15. getSlotState h (int i) \<noteq> 3" "base = 3 \<or> base = 7 \<or> base = 11"
  shows "(bit (validMask3 h) n \<longleftrightarrow> even n \<and> n < 6 \<and> getSlotState h (int (n div 2)) = SlotValid) \<and>
    (bit (invalidMask3 h) n \<longleftrightarrow> even n \<and> n < 6 \<and> getSlotState h (int (n div 2)) = SlotInvalid) \<and>
    (bit (validMask4 h base) n \<longleftrightarrow> even n \<and> n < 8 \<and> getSlotState h (int (base + n div 2)) = SlotValid) \<and>
    (bit (invalidMask4 h base) n \<longleftrightarrow> even n \<and> n < 8 \<and> getSlotState h (int (base + n div 2)) = SlotInvalid)"
  using masks_states [OF assms, of n] by blast

theorem masks_read_states_witness: "bit (validMask4 0x20000000 11) 6 \<and> \<not> bit (validMask4 0x20000000 11) 8"
proof -
  have "list_all (\<lambda>i. getSlotState 0x20000000 (int i) \<noteq> 3) [0..<15]" by code_simp
  then have no3: "\<forall>i<15. getSlotState 0x20000000 (int i) \<noteq> 3" by (simp only: list_all_iff set_upt) simp
  have "getSlotState 0x20000000 (int (11 + 6 div 2)) = 2" by code_simp
  with masks_read_states [OF no3, of 11 6] masks_read_states [OF no3, of 11 8] show ?thesis by simp
qed

section \<open>The parts of the operations\<close>

text \<open>
  C37: the late half of \<open>Insert\<close>. A call that reserved and filled a slot and then lost the
  race for the header either finds the key another call published, releases its slot and
  returns that value, or publishes its own; in both cases the slot it owned is settled and the
  abstract map changes at that key only.
\<close>

theorem Insert_race_resolved:
  assumes "ownsSlot ix b i r" "indexAt m idx = Some ix" "b = binOf ix (hash k)"
    "entries_wf entryContent hash (entryOk hash) ix" "getBinState (hdr ix b) = BinNoTransfer"
    "slotIn ix b i = Some \<lparr>Key = hash k, Val = newEntry p k v\<rparr>"
  shows "\<exists>ix'. retryWithSlot (Suc n) (findEntry k (hash k)) (Val_update (\<lambda>_. None)) zv idx b (int i) m =
      Some (Ret (case absMap entryContent hash ix k of Some old \<Rightarrow> (old, False) | None \<Rightarrow> (zv, True)),
        putIndex m idx ix') \<and>
    wf_index ix' \<and> entries_wf entryContent hash (entryOk hash) ix' \<and>
    getSlotState (hdr ix' b) (int i) = (if absMap entryContent hash ix k = None then SlotValid else SlotInvalid) \<and>
    absMap entryContent hash ix' = (absMap entryContent hash ix)(k \<mapsto>
      (case absMap entryContent hash ix k of Some old \<Rightarrow> old | None \<Rightarrow> v))"
proof (cases "absMap entryContent hash ix k")
  case None
  have s: "entryOk hash \<lparr>Key = hash k, Val = newEntry p k v\<rparr>"
    "entryContent \<lparr>Key = hash k, Val = newEntry p k v\<rparr> = Some (k, v)"
    by (simp_all add: entryOk_def entryContent_def newEntry_def)
  show ?thesis
    by (rule alloc.race_won [OF assms(1-6) s None, of n "Val_update (\<lambda>_. None)" zv])
      (auto simp: None simp del: retryWithSlot.simps)
next
  case (Some old)
  show ?thesis
    by (rule alloc.race_lost [OF assms(1-5) Some, of n "Val_update (\<lambda>_. None)" zv])
      (auto simp: Some fun_upd_idem simp del: retryWithSlot.simps)
qed

theorem Insert_race_resolved_witness:
  "\<exists>(ix :: (64 word, nat) EntryPtr index) ix'. ownsSlot ix 5 0 (PrimarySlot 5 0) \<and>
    retryWithSlot 1 (findEntry 5 5) (Val_update (\<lambda>_. None)) 0 0 5 0 (sampleA\<lparr>indexes := [ix]\<rparr>) =
      Some (Ret (0, True), putIndex (sampleA\<lparr>indexes := [ix]\<rparr>) 0 ix') \<and>
    absMap entryContent (idHash ()) ix' 5 = Some 7"
proof -
  obtain ix r where a: "ownsSlot ix 5 0 r" "slotIn ix 5 0 = Some \<lparr>Key = 5, Val = newEntry 42 5 (7 :: nat)\<rparr>"
    "entries_wf entryContent (idHash ()) (entryOk (idHash ())) ix" "binOf ix (idHash () 5) = 5"
    "getBinState (hdr ix 5) = BinNoTransfer" "absMap entryContent (idHash ()) ix = Map.empty"
    by (rule sampleA_reserved) (rule that)
  have r: "r = PrimarySlot 5 0" using a(1) by (simp add: ownsSlot_def slotRef_primary)
  have h: "idHash () 5 = 5" by (simp add: idHash_def)
  have i: "indexAt (sampleA\<lparr>indexes := [ix]\<rparr>) 0 = Some ix" by (simp add: indexAt_def)
  have sl: "slotIn ix 5 0 = Some \<lparr>Key = idHash () 5, Val = newEntry 42 5 (7 :: nat)\<rparr>" by (simp add: a(2) h)
  from Insert_race_resolved [OF a(1) i a(4) [symmetric] a(3,5) sl, of 0 0, unfolded h]
  obtain ix' where "retryWithSlot 1 (findEntry 5 5) (Val_update (\<lambda>_. None)) 0 0 5 0 (sampleA\<lparr>indexes := [ix]\<rparr>) =
      Some (Ret (0, True), putIndex (sampleA\<lparr>indexes := [ix]\<rparr>) 0 ix')" "absMap entryContent (idHash ()) ix' 5 = Some 7"
    by (auto simp: a(6) simp del: retryWithSlot.simps)
  with a(1) r show ?thesis by blast
qed

text \<open>
  C38: the search for a key, a branch-free comparison of three words in the primary bucket and
  of four in each of three link buckets, is the reference definition: the lookup of the key in
  the list of all entries the bin shows.
\<close>

theorem search_is_lookup:
  assumes "wf_index ix" "entries_wf entryContent hash (entryOk hash) ix" "b = binOf ix (hash k)"
  shows "findEntry k (hash k) ix b (hdr ix b) = Some (map_of (binEntries entryContent ix b) k)"
  unfolding alloc.looks [OF assms] by (simp add: absMap_def assms(3))

theorem search_is_lookup_witness:
  "findEntry (5 :: 64 word) 5 (newIndex None 16) 5 0 = Some (None :: nat option)"
proof -
  let ?ix = "newIndex None 16 :: (64 word, nat) EntryPtr index"
  have "5 = binOf ?ix 5" "hdr ?ix 5 = 0" "map_of (binEntries entryContent ?ix 5) 5 = None"
    by code_simp+
  then show ?thesis using search_is_lookup [of ?ix "\<lambda>k. k" 5 5] by (simp add: fresh_16(1) fresh_16_entries)
qed

text \<open>
  C39: \<open>chooseInsertSlot\<close> returns the first free slot that has a bucket behind it, in the order
  primary bucket, single link, pair, and then changes nothing. Only when there is none does it
  attach the bucket the bin lacks, first the single link, then the pair, and returns the first slot of
  it; it returns -1 exactly when the bin has all its buckets or the links open to \<open>Insert\<close>
  do not suffice for the one it lacks. A slot returned is free and has a bucket behind it.
\<close>

theorem chooseInsertSlot_free:
  assumes "wf_index ix" "alloc_ok ix" "inBin ix b"
  shows "\<exists>i ix'. chooseInsertSlot ix b = Some (i, ix') \<and> links_extend ix ix' \<and> wf_index ix' \<and>
    (if \<exists>j. openSlot ix b j then ix' = ix \<and> i = int (LEAST j. openSlot ix b j)
     else if getSingle (lmeta ix b) = 0 then i = (if linkNext ix = linkCapacity ix then -1 else 3)
     else if getPairStart (lmeta ix b) = 0
     then i = (if unat (linkCapacity ix) < unat (linkNext ix) + 2 then -1 else 7)
     else i = -1 \<and> ix' = ix) \<and>
    (0 \<le> i \<longrightarrow> openSlot ix' b (nat i))"
proof -
  obtain i ix' where c: "chooseInsertSlot ix b = Some (i, ix')" "links_extend ix ix'" "wf_index ix'"
    and free: "0 \<le> i \<Longrightarrow> \<exists>j<15. i = int j \<and> isInvalid ix b j \<and> slotRef ix' b j \<noteq> None"
    using chooseInsertSlot_spec [OF assms] by metis
  have isOpen: "openSlot ix' b (nat i)" if "0 \<le> i"
    using free [OF that] c(2) by (auto simp: openSlot_def links_extend_def isInvalid_def)
  obtain i2 ix2 where f: "chooseInsertSlot ix b = Some (i2, ix2)"
    "if \<exists>j. openSlot ix b j then ix2 = ix \<and> i2 = int (LEAST j. openSlot ix b j)
     else if getSingle (lmeta ix b) = 0 then i2 = (if linkNext ix = linkCapacity ix then -1 else 3)
     else if getPairStart (lmeta ix b) = 0
     then i2 = (if unat (linkCapacity ix) < unat (linkNext ix) + 2 then -1 else 7)
     else i2 = -1 \<and> ix2 = ix"
    by (rule chooseInsertSlot_first [OF assms]) (rule that)
  have eq: "i2 = i" "ix2 = ix'" using c(1) f(1) by simp_all
  show ?thesis
    by (intro exI [of _ i] exI [of _ ix'] conjI impI c f(2) [unfolded eq] isOpen) assumption
qed

theorem chooseInsertSlot_free_witness: "\<exists>ix' :: nat index. chooseInsertSlot (newIndex 0 16) 5 = Some (0, ix')"
proof -
  let ?ix = "newIndex 0 16 :: nat index"
  note fresh_16 [of "0 :: nat"]
  moreover have "map_option fst (chooseInsertSlot ?ix 5) = Some 0" by code_simp
  ultimately show ?thesis using chooseInsertSlot_free [of ?ix 5] by auto
qed

text \<open>
  C40: attaching a first link bucket fails exactly when the links open to \<open>Insert\<close> are spent;
  otherwise the new link is at most \<open>linkCapacity\<close> and no bin used it before.
\<close>

theorem attachSingle_bounds:
  assumes "wf_index ix" "alloc_ok ix" "inBin ix b" "getSingle (lmeta ix b) = 0"
  shows "\<exists>l ix'. attachSingle ix b = Some (l, ix') \<and> (l = 0 \<longleftrightarrow> linkNext ix = linkCapacity ix) \<and>
    (l \<noteq> 0 \<longrightarrow> linkAt ix' b 0 = l \<and> unat l \<le> length (links ix) \<and>
      (\<forall>b' u. inBin ix b' \<and> u < 3 \<and> linkAt ix' b' u = l \<longrightarrow> b' = b \<and> u = 0))"
proof -
  obtain l ix' where a: "attachSingle ix b = Some (l, ix')" "links_extend ix ix'" "wf_index ix'"
    "l \<noteq> 0 \<Longrightarrow> alloc_ok ix' \<and> lmeta ix' b = setSingle (lmeta ix b) l"
    "l = 0 \<longleftrightarrow> linkNext ix = linkCapacity ix"
    by (rule attachSingle_spec [OF assms]) (rule that)
  have sg: "same_geometry ix ix'" using a(2) by (simp add: links_extend_def)
  have b: "inBin ix' b' = inBin ix b'" for b' using same_geometry_inBin [OF sg] .
  have len: "length (links ix') = length (links ix)" using sg by (simp add: same_geometry_def)
  have lw: "links_wf ix'" using a(3) by (simp add: wf_index_def)
  have at: "linkAt ix' b 0 = l" if "l \<noteq> 0"
    using a(4) [OF that] by (simp add: linkAt_simps link_simps)
  have "unat l \<le> length (links ix)" if "l \<noteq> 0"
    using lw at [OF that] assms(3) len unfolding links_wf_def b by (metis zero_less_numeral)
  moreover have "b' = b \<and> u = 0" if "l \<noteq> 0" "inBin ix b'" "u < 3" "linkAt ix' b' u = l" for b' u
    using links_wf_inj [OF lw, of b' b u 0] that assms(3) at [OF that(1)] by (simp add: b)
  ultimately show ?thesis using a(1,5) at by blast
qed

theorem attachSingle_bounds_witness: "\<exists>ix' :: nat index. attachSingle (newIndex 0 16) 5 = Some (1, ix') \<and> linkAt ix' 5 0 = 1"
proof -
  let ?ix = "newIndex 0 16 :: nat index"
  note fresh_16 [of "0 :: nat"]
  moreover have "map_option fst (attachSingle ?ix 5) = Some 1" "getSingle (lmeta ?ix 5) = 0" by code_simp+
  ultimately show ?thesis using attachSingle_bounds [of ?ix 5] by auto
qed

section \<open>Goroutines\<close>

text \<open>
  C1: every interleaving of \<open>Get\<close>, \<open>Put\<close>, \<open>Insert\<close> and \<open>Delete\<close> on one table linearizes: the
  calls that changed the map, taken in the order of their decisive accesses, form a sequential
  run of the abstract map that leads from the initial contents to the present ones and gives the
  answers the calls return. No header is swapped 2^32 times, so no version repeats.
\<close>

theorem interleavings_linearize:
  assumes "quiet hash s0" "reachable hash zv s0 H s"
    and "\<And>b. inBin (mem s0) b \<Longrightarrow> writes s b < 2 ^ 32"
  shows "specRun zv (map fst H) (contents hash s0) = (map snd H, contents hash s)"
  by (rule reachable_inv(3) [OF assms])

theorem interleavings_linearize_witness:
  "\<exists>H s. reachable (\<lambda>k. k) 0 (newConc 0) H s \<and>
     place (gor s 0) = Done (8, False) \<and> place (gor s 2) = Done (8 :: nat, True) \<and>
     specRun 0 (map fst H) (contents (\<lambda>k. k) (newConc 0)) = (map snd H, contents (\<lambda>k. k) s)"
proof -
  obtain H s where "reachable (\<lambda>k. k) (0 :: nat) (newConc 0) H s" "\<And>b. writes s b < 2 ^ 32"
    "place (gor s 0) = Done (8, False)" "place (gor s 2) = Done (8, True)"
    by (rule raceDone_reached, rule that)
  note r = this
  have q: "quiet (\<lambda>k. k) (newConc 0 :: (64 word, nat) conc)" by (rule newConc_quiet) simp
  show ?thesis
    using r(1,3,4) interleavings_linearize [OF q r(1) r(2)] by (intro exI [of _ H] exI [of _ s]) simp
qed

text \<open>
  C2: what a returned call answers. If it changed the map, it returns the answer recorded at
  that access, which is the one of the linearization; otherwise the answer is that of the
  sequential operation for a value its key had at some moment between start and return.
\<close>

theorem interleaved_answers:
  assumes "quiet hash s0" "reachable hash zv s0 H s"
    and "\<And>b. inBin (mem s0) b \<Longrightarrow> writes s b < 2 ^ 32"
    and "place (gor s t) = Done res"
  shows "effect s t = Some res \<or>
    (effect s t = None \<and> (\<exists>x \<in> seen s t. \<forall>M. M (keyOf (doing (gor s t))) = x \<longrightarrow>
       specCall zv (doing (gor s t)) M = (res, M)))"
proof -
  have "concInv hash zv s" by (rule reachable_inv(1) [OF assms(1-3)])
  from concInvD(3) [OF this, of t] assms(4) show ?thesis
    by (auto simp: routineInv_def answerInv_def observed_def split: option.splits)
qed

theorem interleaved_answers_witness:
  "\<exists>H s. reachable (\<lambda>k. k) 0 (newConc 0) H s \<and> place (gor s 0) = Done (8 :: nat, False) \<and>
     (effect s 0 = Some (8, False) \<or> effect s 0 = None \<and>
       (\<exists>x \<in> seen s 0. \<forall>M. M (5 :: 64 word) = x \<longrightarrow> specCall 0 (CallInsert 5 7) M = ((8, False), M)))"
proof -
  obtain H s where r: "reachable (\<lambda>k. k) (0 :: nat) (newConc 0) H s" "\<And>b. writes s b < 2 ^ 32"
    "place (gor s 0) = Done (8, False)" "doing (gor s 0) = CallInsert 5 7"
    by (rule raceDone_reached, rule that)
  have "quiet (\<lambda>k. k) (newConc 0 :: (64 word, nat) conc)" by (rule newConc_quiet) simp
  from interleaved_answers [OF this r(1) r(2) r(3)] show ?thesis
    using r(1,3) unfolding r(4) by (intro exI [of _ H] exI [of _ s]) simp
qed

text \<open>C21: no access of any interleaving faults: a call that has not returned can go on.\<close>

theorem interleaved_accesses_defined:
  assumes "quiet hash s0" "reachable hash zv s0 H s"
    and "\<And>b. inBin (mem s0) b \<Longrightarrow> writes s b < 2 ^ 32"
    and "inCall (place (gor s t))" "place (gor s t) \<noteq> Grow"
  shows "\<exists>s'. access hash zv t s = Some s'"
  by (rule access_step [OF reachable_inv(1) [OF assms(1-3)] assms(4,5)]) blast+

theorem interleaved_accesses_defined_witness:
  "\<exists>H s s'. reachable (\<lambda>k. k) (0 :: nat) (newConc 0) H s \<and> place (gor s 0) = SlotPtr 0x100000001 0 \<and>
     access (\<lambda>k. k) 0 0 s = Some s'"
proof -
  obtain H s where r: "reachable (\<lambda>k. k) (0 :: nat) (newConc 0) H s" "\<And>b. writes s b < 20 + 1"
    "place (gor s 0) = SlotPtr 0x100000001 0"
    by (rule raceHalf_reached, rule that)
  have q: "quiet (\<lambda>k. k) (newConc 0 :: (64 word, nat) conc)" by (rule newConc_quiet) simp
  have w: "writes s b < 2 ^ 32" for b using r(2) [of b] by simp
  from interleaved_accesses_defined [OF q r(1) w, of 0] r show ?thesis by (auto simp: inCall_def)
qed

text \<open>
  C19: in every reachable state no key is stored twice: two visible entries of the same key are
  one slot, and it lies in the bin the hash selects.
\<close>

theorem interleaved_keys_unique:
  assumes "quiet hash s0" "reachable hash zv s0 H s"
    and "\<And>b. inBin (mem s0) b \<Longrightarrow> writes s b < 2 ^ 32"
    and "inBin (mem s) b" "i < 15" "vis (mem s) b i = Some e"
    and "inBin (mem s) b'" "j < 15" "vis (mem s) b' j = Some e'"
    and "entryKey e = entryKey e'"
  shows "b = b' \<and> i = j \<and> b = binOf (mem s) (hash (entryKey e))"
proof -
  have ok: "memOk hash (mem s)" by (rule concInvD(1) [OF reachable_inv(1) [OF assms(1-3)]])
  have bin: "binOf (mem s) (hash (entryKey x)) = c"
    if "inBin (mem s) c" "l < 15" "vis (mem s) c l = Some x" for c l x
    using vis_Some [OF that(3)] memOkD(8) [OF ok that(1,2)] by blast
  have "b = b'" using bin [OF assms(4-6)] bin [OF assms(7-9)] assms(10) by simp
  then show ?thesis using memOkD(9) [OF ok assms(4,5,8,6)] assms(9,10) bin [OF assms(4-6)] by simp
qed

theorem interleaved_keys_unique_witness:
  "\<exists>H s. reachable (\<lambda>k. k) (0 :: nat) (newConc 0) H s \<and>
     vis (mem s) 0 1 = Some \<lparr>entryAddr = 1, entryKey = 5, entryValue = 8\<rparr> \<and> 0 = binOf (mem s) 5"
proof -
  obtain H s where r: "reachable (\<lambda>k. k) (0 :: nat) (newConc 0) H s" "\<And>b. writes s b < 2 ^ 32"
    "vis (mem s) 0 1 = Some \<lparr>entryAddr = 1, entryKey = 5, entryValue = 8\<rparr>"
    by (rule racePublished_reached, rule that)
  have q: "quiet (\<lambda>k. k) (newConc 0 :: (64 word, nat) conc)" by (rule newConc_quiet) simp
  have "inBin (mem s) 0 = inBin (mem (newConc 0 :: (64 word, nat) conc)) 0"
    using reachable_inv(2) [OF q r(1) r(2)] by simp
  moreover have "inBin (newIndex None 1) 0" by (simp add: inBin_def newIndex_def)
  ultimately have b: "inBin (mem s) 0" by (simp add: newConc_def)
  from interleaved_keys_unique [OF q r(1) r(2) b _ r(3) b _ r(3)] r(1,3) show ?thesis by auto
qed

text \<open>
  C20: a slot that an \<open>Insert\<close> has reserved, or a \<open>Delete\<close> has cleared but not yet marked,
  belongs to that call alone, and no search sees an entry in it.
\<close>

theorem reserved_slots_exclusive:
  assumes "quiet hash s0" "reachable hash zv s0 H s"
    and "\<And>b. inBin (mem s0) b \<Longrightarrow> writes s b < 2 ^ 32"
    and "ownedSlot (place (gor s t)) = Some i"
  shows "vis (mem s) (binFor hash s t) i = None \<and>
    (\<forall>u j. u \<noteq> t \<and> ownedSlot (place (gor s u)) = Some j \<longrightarrow> (binFor hash s u, j) \<noteq> (binFor hash s t, i))"
proof -
  have inv: "concInv hash zv s" by (rule reachable_inv(1) [OF assms(1-3)])
  then show ?thesis
    using owned_hidden [OF routineD [OF concInvD(3) [OF inv]] assms(4)] concInvD(4) [OF inv] assms(4)
    by (fastforce simp: apart_def)
qed

theorem reserved_slots_exclusive_witness:
  "\<exists>H s. reachable (\<lambda>k. k) (0 :: nat) (newConc 0) H s \<and>
     ownedSlot (place (gor s 0)) = Some 0 \<and> ownedSlot (place (gor s 1)) = Some 1 \<and>
     vis (mem s) (binFor (\<lambda>k. k) s 0) 0 = None"
proof -
  obtain H s where r: "reachable (\<lambda>k. k) (0 :: nat) (newConc 0) H s" "\<And>b. writes s b < 20 + 1"
    "place (gor s 0) = SlotPtr 0x100000001 0" "place (gor s 1) = SlotPtr 0x200000005 1"
    by (rule raceHalf_reached, rule that)
  have q: "quiet (\<lambda>k. k) (newConc 0 :: (64 word, nat) conc)" by (rule newConc_quiet) simp
  have w: "writes s b < 2 ^ 32" for b using r(2) [of b] by simp
  have "ownedSlot (place (gor s 0)) = Some 0" "ownedSlot (place (gor s 1)) = Some 1"
    unfolding r(3,4) by simp_all
  then show ?thesis
    using r(1) reserved_slots_exclusive [OF q r(1) w, of 0 0] by (intro exI [of _ H] exI [of _ s]) blast
qed

text \<open>
  C10: whatever calls are suspended in the middle, a new call that then runs alone returns within
  53 accesses (or finds no free slot), with the answer and the change of the sequential map.
\<close>

theorem solo_calls_return:
  assumes "quiet hash s0" "reachable hash zv s0 H s"
    and "\<And>b. inBin (mem s0) b \<Longrightarrow> writes s b + 53 < 2 ^ 32"
    and "\<not> inCall (place (gor s t))"
  shows "\<exists>s'. alone hash zv t 53 (begin_call hash t c s) = Some s' \<and>
    (place (gor s' t) = Grow \<or>
     (\<exists>res. place (gor s' t) = Done res \<and> specCall zv c (contents hash s) = (res, contents hash s')))"
proof -
  have w: "writes s b < 2 ^ 32" if "inBin (mem s0) b" for b using assms(3) [OF that] by simp
  have inv: "concInv hash zv s" "inBin (mem s) = inBin (mem s0)"
    by (rule reachable_inv(1) [OF assms(1,2) w] reachable_inv(2) [OF assms(1,2) w]; assumption)+
  show ?thesis by (rule solo_call [OF inv(1) assms(4)]) (use inv(2) assms(3) in simp)
qed

theorem solo_calls_return_witness:
  "\<exists>H s s'. reachable (\<lambda>k. k) (0 :: nat) (newConc 0) H s \<and> place (gor s 1) = SlotPtr 0x200000005 1 \<and>
     alone (\<lambda>k. k) 0 3 53 (begin_call (\<lambda>k. k) 3 (CallInsert 5 9) s) = Some s' \<and>
     (place (gor s' 3) = Grow \<or> (\<exists>res. place (gor s' 3) = Done res))"
proof -
  obtain H s where r: "reachable (\<lambda>k. k) (0 :: nat) (newConc 0) H s" "\<And>b. writes s b < 20 + 1"
    "place (gor s 1) = SlotPtr 0x200000005 1" "\<not> inCall (place (gor s 3))"
    by (rule raceHalf_reached, rule that)
  have q: "quiet (\<lambda>k. k) (newConc 0 :: (64 word, nat) conc)" by (rule newConc_quiet) simp
  have w: "writes s b + 53 < 2 ^ 32" for b using r(2) [of b] by simp
  from solo_calls_return [OF q r(1) w r(4), of "CallInsert 5 9"] r show ?thesis by blast
qed

section \<open>Goroutines on an inline map\<close>

text \<open>
  C3: every interleaving of \<open>Get\<close>, \<open>Put\<close>, \<open>Insert\<close> and \<open>Delete\<close> on one inline table linearizes, unless the
  swap of a \<open>Put\<close> has succeeded in a slot that was not published, which needs a \<open>Delete\<close> that has removed a
  key: the calls that changed the map, in the order of their decisive accesses, are a sequential run from
  the initial contents to the present ones, with the answers the calls return.
\<close>

theorem inline_interleavings_linearize:
  assumes "iquiet hash s0" "ireachable hash s0 H s"
    and "\<And>b. inBin (imem (machine s0)) b \<Longrightarrow> iwrites s b < 2 ^ 32"
    and "istrays s = 0 \<or> (\<forall>k res. (CallDelete k, res) \<notin> set H)"
  shows "inlineSpecRun (map fst H) (icontents hash (imem (machine s0))) =
    (map snd H, icontents hash (imem (machine s)))"
proof -
  have "istrays s = 0" using assms(4) no_Delete_no_strays [OF assms(1-3)] by blast
  from ireachable_inv(3) [OF assms(1-3) this] show ?thesis .
qed

theorem inline_interleavings_linearize_witness:
  "\<exists>s. ireachable (\<lambda>k. k) (newIConc 4 3) raceChanges s \<and>
     map opAnswer (history (machine s)) = [(0, True), (7, False), (7, True), (9, True), (0, True)] \<and>
     inlineSpecRun (map fst raceChanges) (icontents (\<lambda>k. k) (imem (newMachine 4 3))) =
       (map snd raceChanges, icontents (\<lambda>k. k) (imem (machine s)))"
proof -
  obtain m where m: "traced (\<lambda>k. k) inlineRace (newMachine 4 3) = Some (m, raceChanges, 0)"
    "map opAnswer (history m) = [(0, True), (7, False), (7, True), (9, True), (0, True)]"
    using inlineRace_traced by auto
  obtain s where s: "ireachable (\<lambda>k. k) (newIConc 4 3) raceChanges s" "machine s = m" "istrays s = 0"
    "\<And>b. iwrites s b \<le> length inlineRace"
    by (rule traced_new [OF m(1)], rule that)
  have "iwrites s b < 2 ^ 32" for b
    using s(4) [of b] by (simp add: inlineRace_def accesses_def)
  from inline_interleavings_linearize [OF newIConc_quiet s(1) this disjI1 [OF s(3)]] show ?thesis
    using s(1,2) m(2) by (intro exI [of _ s]) (simp add: newIConc_def)
qed

text \<open>
  C5: what a call on an inline table returns, also when a \<open>Put\<close> has swapped a slot that was not published:
  the answer of the sequential call for a value that its key had between its start and its return.
  A call without a decisive access of its own would not have changed the map then.
\<close>

theorem inline_interleaved_answers:
  assumes "iquiet hash s0" "ireachable hash s0 H s"
    and "\<And>b. inBin (imem (machine s0)) b \<Longrightarrow> iwrites s b < 2 ^ 32"
    and "t < length (irun (machine s))" "irun (machine s) ! t = \<lparr>icalling = c, ipoint = IDone res, istarted = n\<rparr>"
  shows "\<exists>x \<in> iseen s t. \<forall>M. M (keyOf c) = x \<longrightarrow>
    fst (inlineSpecCall c M) = res \<and> (ieffect s t = None \<longrightarrow> snd (inlineSpecCall c M) = M)"
proof -
  have "iconcInv hash s" by (rule ireachable_inv(1) [OF assms(1-3)])
  from ianswered [OF this assms(4)] assms(5) show ?thesis
    by (fastforce simp: point_def iright_def iobserved_def)
qed

theorem inline_interleaved_answers_witness:
  "\<exists>H s. ireachable (\<lambda>k. k) (newIConc 4 3) H s \<and> istrays s = 1 \<and>
     (\<exists>x \<in> iseen s 1. \<forall>M. M 5 = x \<longrightarrow> fst (inlineSpecCall (CallPut 5 9) M) = (7 :: 64 word, True))"
proof -
  obtain m H where m: "traced (\<lambda>k. k) lostPut (newMachine 4 3) = Some (m, H, 1)"
    "map (\<lambda>g. (icalling g, ipoint g)) (irun m) =
       [(CallInsert 5 7, IDone (0, True)), (CallPut 5 9, IDone (7, True)), (CallGet 5, IDone (9, True))]"
    using lostPut_traced by auto
  obtain s where s: "ireachable (\<lambda>k. k) (newIConc 4 3) H s" "machine s = m" "istrays s = 1"
    "\<And>b. iwrites s b \<le> length lostPut"
    by (rule traced_new [OF m(1)], rule that)
  have w: "iwrites s b < 2 ^ 32" for b
    using s(4) [of b] by (simp add: lostPut_def accesses_def)
  have len: "length (irun m) = 3" using arg_cong [OF m(2), of length] by simp
  then have "(\<lambda>g. (icalling g, ipoint g)) (irun m ! 1) = (CallPut 5 9, IDone (7, True))"
    using arg_cong [OF m(2), of "\<lambda>l. l ! 1"] by simp
  then have "irun (machine s) ! 1 = \<lparr>icalling = CallPut 5 9, ipoint = IDone (7, True), istarted = istarted (irun m ! 1)\<rparr>"
    by (simp add: s(2))
  from inline_interleaved_answers [OF newIConc_quiet s(1) w _ this] show ?thesis
    using s(1,2,3) len by auto
qed

text \<open>
  C4: the inline package has a history that does not linearize. A \<open>Put\<close> found the key and checked the
  header; then the key is deleted and an \<open>Insert\<close> of the same key and value fills the same slot.
  The swap of \<open>Put\<close> compares the two words only, succeeds in the slot that is not published yet,
  and \<open>Put\<close> returns true; a \<open>Get\<close> after that still finds nothing, and once the \<open>Insert\<close> has
  returned, \<open>Get\<close> finds the value of \<open>Put\<close>. No sequential order of the six calls, which have all
  returned, explains their answers.
\<close>

theorem inline_put_not_linearizable:
  "\<exists>es m. performs (\<lambda>k. k) es (newMachine 4 3) = Some m \<and>
     list_all (\<lambda>g. \<not> iInCall (ipoint g)) (irun m) \<and>
     map (\<lambda>o1. (opCall o1, opAnswer o1)) (history m) =
       [(CallInsert 5 7, (0, True)), (CallDelete 5, (0, True)), (CallPut 5 9, (7, True)),
        (CallGet 5, (0, False)), (CallInsert 5 7, (0, True)), (CallGet 5, (9, True))] \<and>
     \<not> linearizable (\<lambda>_. None) (history m)"
proof -
  obtain m where m: "performs (\<lambda>k. k) lostPut (newMachine 4 3) = Some m" "history m = lostPutHistory"
    "map ipoint (irun m) = [IDone (0, True), IDone (7, True), IDone (9, True)]"
    using lostPut_history by auto
  have "list_all (\<lambda>q. \<not> iInCall q) (map ipoint (irun m))" by (simp add: m(3) iInCall_def)
  then have "list_all (\<lambda>g. \<not> iInCall (ipoint g)) (irun m)" by (simp add: list_all_iff)
  moreover have "\<not> linearizable (\<lambda>_. None) lostPutHistory"
    unfolding explained_linearizable lostPutHistory_length by (rule lostPut_unexplained)
  ultimately show ?thesis
    using m(1,2) by (intro exI [of _ lostPut] exI [of _ m]) (simp add: lostPutHistory_def opCall_def opAnswer_def)
qed

end
